(* ===== verification/Ray_Prelude.thy ===== *)
theory Ray_Prelude
  imports Main "HOL-Library.Word" "HOL-Library.Monad_Syntax"
begin

unbundle bit_operations_syntax

section \<open>Shared types, panics and byte encodings\<close>

text \<open>
  The vocabulary every component theory uses.

  \<^item> Rust's fixed-width unsigned integers are words of that width; \<open>usize\<close> values (lengths
    and indices) are natural numbers.  The model follows the release profile of
    \<^verbatim>\<open>Cargo.toml\<close>: unchecked word arithmetic wraps, \<^verbatim>\<open>debug_assert!\<close> is compiled out and a
    panic aborts the process.
  \<^item> A Rust computation that may panic has type \<open>'a run\<close>: \<open>None\<close> is the abort, \<open>Some x\<close> a
    normal return.  Out-of-range indexing, an out-of-range slice, \<^verbatim>\<open>unwrap\<close> of a missing value
    and \<^verbatim>\<open>panic!\<close> are all \<open>None\<close>.
  \<^item> \<^verbatim>\<open>Result<T, E>\<close> is \<open>'e + 't\<close> with \<open>Inl\<close> the error; \<^verbatim>\<open>Option<T>\<close> is \<open>'t option\<close>.
  \<^item> \<open>to_le_bytes\<close> and \<open>from_le_bytes\<close> are the little-endian codecs of the standard library.
\<close>

type_synonym u8 = "8 word"
type_synonym u16 = "16 word"
type_synonym u32 = "32 word"
type_synonym u64 = "64 word"
type_synonym usize = nat
type_synonym bytes = "u8 list"
type_synonym 'a run = "'a option"

named_theorems run_simps "range facts that discharge the panic branch of an operation"
named_theorems layout_simps "lengths and offsets of encoded byte strings"

abbreviation (input) panic :: "'a run" where
  "panic \<equiv> None"

subsection \<open>Panicking list access\<close>

definition index_run :: "'a list \<Rightarrow> usize \<Rightarrow> 'a run" where
  "index_run xs i = (if i < length xs then Some (xs ! i) else panic)"

definition update_run :: "'a list \<Rightarrow> usize \<Rightarrow> ('a \<Rightarrow> 'a) \<Rightarrow> 'a list run" where
  "update_run xs i f = (if i < length xs then Some (xs[i := f (xs ! i)]) else panic)"

definition slice_run :: "'a list \<Rightarrow> usize \<Rightarrow> usize \<Rightarrow> 'a list run" where
  "slice_run xs i j = (if i \<le> j \<and> j \<le> length xs then Some (take (j - i) (drop i xs)) else panic)"

lemma nth_update_if: "xs[i := x] ! j = (if i = j \<and> i < length xs then x else xs ! j)"
  by (cases "i < length xs") (auto simp: list_update_beyond)

lemma map_eq_nth:
  assumes "map f xs = map g ys" and "i < length xs"
  shows "f (xs ! i) = g (ys ! i)"
proof -
  have "length xs = length ys" using assms(1) by (rule map_eq_imp_length_eq)
  moreover have "map f xs ! i = map g ys ! i" using assms(1) by (rule arg_cong)
  ultimately show ?thesis using assms(2) by simp
qed

lemma index_run_in [run_simps]: "i < length xs \<Longrightarrow> index_run xs i = Some (xs ! i)"
  by (simp add: index_run_def)

lemma index_run_Some_iff: "index_run xs i = Some x \<longleftrightarrow> i < length xs \<and> x = xs ! i"
  by (auto simp: index_run_def)

lemma update_run_in [run_simps]: "i < length xs \<Longrightarrow> update_run xs i f = Some (xs[i := f (xs ! i)])"
  by (simp add: update_run_def)

lemma update_run_Some_iff:
  "update_run xs i f = Some ys \<longleftrightarrow> i < length xs \<and> ys = xs[i := f (xs ! i)]"
  by (auto simp: update_run_def)

lemma slice_run_in [run_simps]:
  "i \<le> j \<Longrightarrow> j \<le> length xs \<Longrightarrow> slice_run xs i j = Some (take (j - i) (drop i xs))"
  by (simp add: slice_run_def)

subsection \<open>Loops that may panic\<close>

fun fold_run :: "('a \<Rightarrow> 's \<Rightarrow> 's run) \<Rightarrow> 'a list \<Rightarrow> 's \<Rightarrow> 's run" where
  "fold_run f [] s = Some s"
| "fold_run f (x # xs) s = do { s' \<leftarrow> f x s; fold_run f xs s' }"

lemma fold_run_append:
  "fold_run f (xs @ ys) s = do { s' \<leftarrow> fold_run f xs s; fold_run f ys s' }"
  by (induction xs arbitrary: s) (auto split: Option.bind_splits)

lemma fold_run_total:
  assumes "I s"
    and "\<And>x s. x \<in> set xs \<Longrightarrow> I s \<Longrightarrow> \<exists>s'. f x s = Some s' \<and> I s'"
  shows "\<exists>s'. fold_run f xs s = Some s' \<and> I s'"
  using assms
proof (induction xs arbitrary: s)
  case Nil
  then show ?case by simp
next
  case (Cons x xs)
  from Cons.prems obtain s' where s': "f x s = Some s'" "I s'" by force
  with Cons.prems(2) Cons.IH [of s'] show ?case by auto
qed

lemma fold_run_inv:
  assumes "fold_run f xs s = Some s'" and "I s"
    and "\<And>x s t. x \<in> set xs \<Longrightarrow> I s \<Longrightarrow> f x s = Some t \<Longrightarrow> I t"
  shows "I s'"
  using assms
proof (induction xs arbitrary: s)
  case Nil
  then show ?case by simp
next
  case (Cons x xs)
  from Cons.prems(1) obtain t where t: "f x s = Some t" "fold_run f xs t = Some s'"
    by (auto split: Option.bind_splits)
  with Cons.prems show ?case by (intro Cons.IH [of t]) auto
qed

lemma fold_run_upt:
  assumes "I 0 s"
    and "\<And>i s. i < n \<Longrightarrow> I i s \<Longrightarrow> \<exists>s'. f i s = Some s' \<and> I (Suc i) s'"
  shows "\<exists>s'. fold_run f [0..<n] s = Some s' \<and> I n s'"
  using assms(2)
proof (induction n)
  case 0
  then show ?case using assms(1) by simp
next
  case (Suc n)
  then obtain t where t: "fold_run f [0..<n] s = Some t" "I n t" by fastforce
  then obtain s' where "f n t = Some s'" "I (Suc n) s'" using Suc.prems [of n t] by auto
  with t show ?case by (simp add: fold_run_append)
qed

subsection \<open>Searching\<close>

fun position :: "('a \<Rightarrow> bool) \<Rightarrow> 'a list \<Rightarrow> usize option" where
  "position p [] = None"
| "position p (x # xs) = (if p x then Some 0 else map_option Suc (position p xs))"

lemma position_SomeD: "position p xs = Some i \<Longrightarrow> i < length xs \<and> p (xs ! i)"
  by (induction xs arbitrary: i) (auto split: if_splits)

lemma position_None_iff: "position p xs = None \<longleftrightarrow> (\<forall>x \<in> set xs. \<not> p x)"
  by (induction xs) auto

subsection \<open>Little-endian codecs\<close>

definition to_le_bytes :: "usize \<Rightarrow> 'a::len word \<Rightarrow> bytes" where
  "to_le_bytes n w = map (\<lambda>i. ucast (drop_bit (8 * i) w)) [0..<n]"

primrec from_le_bytes :: "bytes \<Rightarrow> 'a::len word" where
  "from_le_bytes [] = 0"
| "from_le_bytes (b # bs) = ucast b OR push_bit 8 (from_le_bytes bs)"

lemma length_to_le_bytes [simp]: "length (to_le_bytes n w) = n"
  by (simp add: to_le_bytes_def)

lemma nth_to_le_bytes [simp]: "i < n \<Longrightarrow> to_le_bytes n w ! i = ucast (drop_bit (8 * i) w)"
  by (simp add: to_le_bytes_def)

lemma take_to_le_bytes [simp]: "k \<le> n \<Longrightarrow> take k (to_le_bytes n w) = to_le_bytes k w"
  by (simp add: to_le_bytes_def take_map)

lemma bit_from_le_bytes:
  "bit (from_le_bytes bs :: 'a::len word) k \<longleftrightarrow>
     k < LENGTH('a) \<and> k div 8 < length bs \<and> bit (bs ! (k div 8)) (k mod 8)"
proof (induction bs arbitrary: k)
  case Nil
  then show ?case by simp
next
  case (Cons b bs)
  show ?case
  proof (cases "k < 8")
    case True
    then show ?thesis by (auto simp: bit_simps)
  next
    case False
    then obtain j where j: "k = j + 8"
      by (metis add.commute le_add_diff_inverse not_less)
    then have "k div 8 = Suc (j div 8)" and "k mod 8 = j mod 8" by simp_all
    with j show ?thesis
      using Cons [of j] by (auto simp: bit_simps dest: bit_imp_le_length)
  qed
qed

lemma from_to_le_bytes:
  "from_le_bytes (to_le_bytes n (w :: 'a::len word)) = take_bit (8 * n) w"
proof (rule bit_word_eqI)
  fix k assume "k < LENGTH('a)"
  then show "bit (from_le_bytes (to_le_bytes n w) :: 'a word) k = bit (take_bit (8 * n) w) k"
    by (auto simp: bit_from_le_bytes bit_simps less_mult_imp_div_less)
qed

lemma to_from_le_bytes:
  assumes "8 * length bs \<le> LENGTH('a::len)"
  shows "to_le_bytes (length bs) (from_le_bytes bs :: 'a word) = bs"
proof (rule nth_equalityI)
  fix i assume i: "i < length (to_le_bytes (length bs) (from_le_bytes bs :: 'a word))"
  show "to_le_bytes (length bs) (from_le_bytes bs :: 'a word) ! i = bs ! i"
  proof (rule bit_word_eqI)
    fix k assume k: "k < LENGTH(8)"
    from i k assms have "8 * i + k < LENGTH('a)" by simp
    with i k show "bit (to_le_bytes (length bs) (from_le_bytes bs :: 'a word) ! i) k = bit (bs ! i) k"
      by (auto simp: bit_from_le_bytes bit_simps)
  qed
qed simp

lemma to_from_le_bytes_len:
  assumes "length bs = n" and "8 * n \<le> LENGTH('a::len)"
  shows "to_le_bytes n (from_le_bytes bs :: 'a word) = bs"
  using assms to_from_le_bytes by blast

lemma from_to_le_bytes_full:
  "LENGTH('a) \<le> 8 * n \<Longrightarrow> from_le_bytes (to_le_bytes n (w :: 'a::len word)) = w"
  by (simp add: from_to_le_bytes take_bit_word_eq_self)

lemma to_le_bytes_inject:
  "LENGTH('a) \<le> 8 * n \<Longrightarrow> to_le_bytes n (v :: 'a::len word) = to_le_bytes n w \<longleftrightarrow> v = w"
  by (metis from_to_le_bytes_full)

subsection \<open>The codec contract\<close>

text \<open>
  A byte format: decoding the encoding of a value the format has room for gives the value back.
  Encodings of different values then differ, so the bytes determine the message.
\<close>

locale wire_codec =
  fixes encode :: "'a \<Rightarrow> bytes"
    and decode :: "bytes \<Rightarrow> 'a run"
    and wf :: "'a \<Rightarrow> bool"
  assumes decode_encode: "wf a \<Longrightarrow> decode (encode a) = Some a"
begin

lemma encode_inject: "wf a \<Longrightarrow> wf b \<Longrightarrow> encode a = encode b \<longleftrightarrow> a = b"
  by (metis decode_encode option.inject)

lemma decode_agrees: "wf a \<Longrightarrow> decode (encode a) = Some b \<longleftrightarrow> a = b"
  by (simp add: decode_encode)

end

subsection \<open>Runs of steps and the at-most-once contract\<close>

text \<open>
  A component is driven by a sequence of operations; a step may emit a key (a packet stamp it
  accepted, a nonce it used).  The locale \<open>once_only\<close> is the contract behind replay protection
  and nonce uniqueness: a step emits only keys that are not blocked, blocks what it emits, and
  never unblocks a key.  Every run of admissible steps then returns and emits distinct keys.
\<close>

fun run_steps :: "('s \<Rightarrow> 'o \<Rightarrow> ('k option \<times> 's) run) \<Rightarrow> 's \<Rightarrow> 'o list \<Rightarrow> ('k list \<times> 's) run" where
  "run_steps step s [] = Some ([], s)"
| "run_steps step s (x # xs) = do {
     (r, s') \<leftarrow> step s x;
     (ks, s'') \<leftarrow> run_steps step s' xs;
     Some (case r of None \<Rightarrow> ks | Some k \<Rightarrow> k # ks, s'')
   }"

fun admissible_run :: "('s \<Rightarrow> 'o \<Rightarrow> bool) \<Rightarrow> ('s \<Rightarrow> 'o \<Rightarrow> ('k option \<times> 's) run) \<Rightarrow> 's \<Rightarrow> 'o list \<Rightarrow> bool" where
  "admissible_run adm step s [] = True"
| "admissible_run adm step s (x # xs) =
     (adm s x \<and> (case step s x of None \<Rightarrow> True | Some (_, s') \<Rightarrow> admissible_run adm step s' xs))"

locale once_only =
  fixes step :: "'s \<Rightarrow> 'o \<Rightarrow> ('k option \<times> 's) run"
    and inv :: "'s \<Rightarrow> bool"
    and adm :: "'s \<Rightarrow> 'o \<Rightarrow> bool"
    and blocked :: "'s \<Rightarrow> 'k \<Rightarrow> bool"
  assumes step_returns: "inv s \<Longrightarrow> adm s x \<Longrightarrow> \<exists>r s'. step s x = Some (r, s') \<and> inv s'"
    and emits_fresh: "inv s \<Longrightarrow> adm s x \<Longrightarrow> step s x = Some (Some k, s') \<Longrightarrow> \<not> blocked s k"
    and emits_blocked: "inv s \<Longrightarrow> adm s x \<Longrightarrow> step s x = Some (Some k, s') \<Longrightarrow> blocked s' k"
    and keeps_blocked: "inv s \<Longrightarrow> adm s x \<Longrightarrow> step s x = Some (r, s') \<Longrightarrow> blocked s j \<Longrightarrow> blocked s' j"
begin

lemma run_once:
  assumes "inv s" and "admissible_run adm step s xs"
  shows "\<exists>ks s'. run_steps step s xs = Some (ks, s') \<and> inv s' \<and> distinct ks \<and>
    (\<forall>k \<in> set ks. \<not> blocked s k)"
  using assms
proof (induction xs arbitrary: s)
  case Nil
  then show ?case by simp
next
  case (Cons x xs)
  then obtain r s1 where s1: "step s x = Some (r, s1)" "inv s1"
    using step_returns by fastforce
  with Cons obtain ks s2 where s2: "run_steps step s1 xs = Some (ks, s2)" "inv s2" "distinct ks"
    "\<forall>k \<in> set ks. \<not> blocked s1 k" by fastforce
  have adm: "adm s x" using Cons.prems by simp
  have old: "\<forall>k \<in> set ks. \<not> blocked s k"
    using s2(4) keeps_blocked [OF Cons.prems(1) adm s1(1)] by blast
  show ?case
  proof (cases r)
    case None
    with s1 s2 old show ?thesis by simp
  next
    case (Some k)
    with s1 adm Cons.prems(1) have "\<not> blocked s k" "blocked s1 k"
      using emits_fresh emits_blocked by blast+
    with Some s1 s2 old show ?thesis by auto
  qed
qed

end

lemma once_onlyI:
  assumes "\<And>s x. I s \<Longrightarrow> adm s x \<Longrightarrow> \<exists>r s'. step s x = Some (r, s') \<and> I s' \<and>
    (\<forall>j. blocked s j \<longrightarrow> blocked s' j) \<and>
    (\<forall>k. r = Some k \<longrightarrow> \<not> blocked s k \<and> blocked s' k)"
  shows "once_only step I adm blocked"
  by unfold_locales (use assms in fastforce)+

end
