(* ===== verification/Core_Types.thy ===== *)
theory Core_Types
  imports Ray_Prelude
begin

section \<open>Limits and identifiers of the core\<close>

text \<open>
  The constants of \<^verbatim>\<open>limits.rs\<close>, the identifier types and the close reasons of
  \<^verbatim>\<open>machine.rs\<close>.  Sizes are \<open>usize\<close> values, durations are \<open>u64\<close> milliseconds.
\<close>

type_synonym ChannelId = u16
type_synonym ConvId = u64

definition TRANSPORT_PACKET_OVERHEAD :: usize where [simp]: "TRANSPORT_PACKET_OVERHEAD = 32"
definition ENDPOINT_MESSAGE_OVERHEAD :: usize where [simp]: "ENDPOINT_MESSAGE_OVERHEAD = 17"
definition MIN_PADDING :: usize where [simp]: "MIN_PADDING = 1"
definition MAX_TRANSPORT_PACKET_SIZE :: usize where
  [simp]: "MAX_TRANSPORT_PACKET_SIZE = 64 * 1024"
definition MAX_SESSION_DATA_SIZE :: usize where [simp]: "MAX_SESSION_DATA_SIZE = 65535"
definition LOCAL_COOLDOWN_INITIAL_MS :: u64 where [simp]: "LOCAL_COOLDOWN_INITIAL_MS = 50"
definition LOCAL_COOLDOWN_MAX_MS :: u64 where [simp]: "LOCAL_COOLDOWN_MAX_MS = 200"
definition SESSION_TOMBSTONE_MS :: u64 where "SESSION_TOMBSTONE_MS = push_bit 10 646"

definition effective_transport_mtu :: "u32 \<Rightarrow> usize" where
  "effective_transport_mtu configured_mtu = min (unat configured_mtu) MAX_TRANSPORT_PACKET_SIZE"

datatype CloseReason = LocalClosed | RemoteClosed | Reset | CloseError

lemma effective_transport_mtu_le: "effective_transport_mtu m \<le> MAX_TRANSPORT_PACKET_SIZE"
  by (simp add: effective_transport_mtu_def)

text \<open>An equation for evaluation that compares words, so that the limit is never unfolded.\<close>

lemma effective_transport_mtu_code [code]: "effective_transport_mtu m = unat (min m 65536)"
  by (simp add: effective_transport_mtu_def min_def word_le_nat_alt)

end
