(* ===== verification/Wire.thy ===== *)
theory Wire
  imports Core_Types
begin

section \<open>Wire formats (wire.rs)\<close>

text \<open>
  The byte layouts of \<^verbatim>\<open>wire.rs\<close>: the forwarded \<open>Envelope\<close>, the end-to-end
  \<open>EndpointMessage\<close> and the \<open>SessionMessage\<close> inside a KCP stream.  Encoders are total;
  a decoder is a \<open>run\<close>, since the code indexes and slices the input.  The theory shows that
  decoding an envelope never panics, whatever the bytes, that the decoder accepts exactly the
  encodings of well-formed envelopes, that messages survive a round trip, and that the endpoint
  nonce is the hop-independent part of the envelope header and determines the stamp.
\<close>

definition U48_SIZE :: usize where [simp]: "U48_SIZE = 6"
definition ROUTE_BITS :: nat where [simp]: "ROUTE_BITS = 6"
definition TIME_BITS :: nat where [simp]: "TIME_BITS = 32 - ROUTE_BITS"
definition TIME_MASK :: u32 where "TIME_MASK = push_bit TIME_BITS 1 - 1"
definition ROUTE_MASK :: u32 where "ROUTE_MASK = push_bit ROUTE_BITS 1 - 1"
definition ENVELOPE_FIXED_OVERHEAD :: usize where
  [simp]: "ENVELOPE_FIXED_OVERHEAD = 4 + 2 * U48_SIZE"
definition CHANNEL_ID_SIZE :: usize where [simp]: "CHANNEL_ID_SIZE = 2"

definition FLAG_KCP :: u8 where [simp]: "FLAG_KCP = push_bit 0 1"
definition FLAG_KEEP_ALIVE :: u8 where [simp]: "FLAG_KEEP_ALIVE = push_bit 1 1"
definition FLAG_ROUTE_REPLY :: u8 where [simp]: "FLAG_ROUTE_REPLY = push_bit 2 1"
definition REPLY_DEPTH_SHIFT :: nat where [simp]: "REPLY_DEPTH_SHIFT = 3"
definition REPLY_DEPTH_MASK :: u8 where [simp]: "REPLY_DEPTH_MASK = 3"

type_synonym RoutePlan = "ChannelId list"

record EnvelopeStamp =
  es_time :: u32
  es_seq_id :: u64
  es_seq_no :: u64

record Envelope =
  env_time :: u32
  env_seq_id :: u64
  env_seq_no :: u64
  env_route_plan :: RoutePlan
  env_payload :: bytes
  env_padding_len :: u8

datatype EndpointMessage =
    KcpPacket u8 bytes
  | KeepAlive u8
  | RouteReply u8 u64 u64

datatype SessionMessage = SessionMessage_Open | SessionMessage_Data bytes
  | SessionMessage_Close CloseReason

datatype WireError = WireError

subsection \<open>48-bit integers\<close>

definition put_u48 :: "u64 \<Rightarrow> bytes" where
  "put_u48 v = take U48_SIZE (to_le_bytes 8 v)"

definition get_u48 :: "bytes \<Rightarrow> u64 run" where
  "get_u48 bs = (if length bs = 6 then Some (from_le_bytes (bs @ [0, 0])) else panic)"

subsection \<open>Envelope\<close>

definition time_and_route :: "u32 \<Rightarrow> usize \<Rightarrow> u32" where
  "time_and_route t n = push_bit ROUTE_BITS (t AND TIME_MASK) OR word_of_nat n"

definition envelope_encode_with_prefix :: "Envelope \<Rightarrow> usize \<Rightarrow> bytes" where
  "envelope_encode_with_prefix e prefix_len =
     replicate prefix_len 0
     @ to_le_bytes 4 (time_and_route (env_time e) (length (env_route_plan e)))
     @ put_u48 (env_seq_id e)
     @ put_u48 (env_seq_no e)
     @ env_payload e
     @ concat (map (to_le_bytes 2) (env_route_plan e))
     @ replicate (unat (env_padding_len e)) (env_padding_len e)"

definition envelope_prefix :: "bytes \<Rightarrow> (WireError + EnvelopeStamp \<times> usize) run" where
  "envelope_prefix bs =
     (if length bs < ENVELOPE_FIXED_OVERHEAD then Some (Inl WireError)
      else do {
        head \<leftarrow> slice_run bs 0 4;
        let time_route = (from_le_bytes head :: u32);
        let t = drop_bit ROUTE_BITS time_route;
        let route_plan_len = unat (time_route AND ROUTE_MASK);
        id_bytes \<leftarrow> slice_run bs 4 10;
        seq_id \<leftarrow> get_u48 id_bytes;
        no_bytes \<leftarrow> slice_run bs 10 16;
        seq_no \<leftarrow> get_u48 no_bytes;
        Some (Inr (\<lparr>es_time = t, es_seq_id = seq_id, es_seq_no = seq_no\<rparr>, route_plan_len))
      })"

function decode_route_plan :: "bytes \<Rightarrow> usize \<Rightarrow> usize \<Rightarrow> RoutePlan run" where
  "decode_route_plan bs offset route_end =
     (if offset < route_end
      then do {
        chunk \<leftarrow> slice_run bs offset (offset + 2);
        rest \<leftarrow> decode_route_plan bs (offset + 2) route_end;
        Some (from_le_bytes chunk # rest)
      }
      else Some [])"
  by pat_completeness auto
termination
  by (relation "measure (\<lambda>(bs, offset, route_end). route_end - offset)") auto

declare decode_route_plan.simps [simp del]

definition envelope_decode :: "bytes \<Rightarrow> (WireError + Envelope) run" where
  "envelope_decode bs = do {
     prefix \<leftarrow> envelope_prefix bs;
     (case prefix of
        Inl err \<Rightarrow> Some (Inl err)
      | Inr (stamp, route_plan_len) \<Rightarrow>
          if bs = [] then Some (Inl WireError)
          else do {
            let padding_len = unat (last bs);
            let route_bytes = route_plan_len * CHANNEL_ID_SIZE;
            let tail_len = padding_len + route_bytes;
            bad \<leftarrow> (if padding_len = 0 \<or> length bs < ENVELOPE_FIXED_OVERHEAD + tail_len
                   then Some True
                   else do {
                     pad \<leftarrow> slice_run bs (length bs - padding_len) (length bs);
                     Some (\<not> list_all (\<lambda>b. unat b = padding_len) pad)
                   });
            if bad then Some (Inl WireError)
            else do {
              let payload_end = length bs - tail_len;
              let route_end = length bs - padding_len;
              payload \<leftarrow> slice_run bs ENVELOPE_FIXED_OVERHEAD payload_end;
              route_plan \<leftarrow> decode_route_plan bs payload_end route_end;
              Some (Inr \<lparr>env_time = es_time stamp, env_seq_id = es_seq_id stamp,
                         env_seq_no = es_seq_no stamp, env_route_plan = route_plan,
                         env_payload = payload, env_padding_len = word_of_nat padding_len\<rparr>)
            }
          })
   }"

definition endpoint_nonce :: "EnvelopeStamp \<Rightarrow> bytes" where
  "endpoint_nonce stamp =
     to_le_bytes 4 (push_bit ROUTE_BITS (es_time stamp AND TIME_MASK))
     @ put_u48 (es_seq_id stamp)
     @ put_u48 (es_seq_no stamp)"

subsection \<open>Endpoint messages\<close>

definition encode_flags_body :: "usize \<Rightarrow> u8 \<Rightarrow> u8 \<Rightarrow> bytes \<Rightarrow> bytes" where
  "encode_flags_body prefix_len type_flag reply_depth body =
     replicate prefix_len 0 @ (type_flag OR push_bit REPLY_DEPTH_SHIFT reply_depth) # body"

fun endpoint_message_encode_with_prefix :: "EndpointMessage \<Rightarrow> usize \<Rightarrow> bytes" where
  "endpoint_message_encode_with_prefix (KcpPacket reply_depth packet) prefix_len =
     encode_flags_body prefix_len FLAG_KCP reply_depth packet"
| "endpoint_message_encode_with_prefix (KeepAlive reply_depth) prefix_len =
     encode_flags_body prefix_len FLAG_KEEP_ALIVE reply_depth []"
| "endpoint_message_encode_with_prefix (RouteReply reply_depth seq_id seq_no) prefix_len =
     encode_flags_body prefix_len FLAG_ROUTE_REPLY reply_depth (put_u48 seq_id @ put_u48 seq_no)"

definition endpoint_message_decode :: "bytes \<Rightarrow> EndpointMessage run" where
  "endpoint_message_decode bs = do {
     flags \<leftarrow> index_run bs 0;
     let reply_depth = drop_bit REPLY_DEPTH_SHIFT flags AND REPLY_DEPTH_MASK;
     let type_bits = flags AND NOT (push_bit REPLY_DEPTH_SHIFT REPLY_DEPTH_MASK);
     if type_bits = FLAG_KCP then do {
       packet \<leftarrow> slice_run bs 1 (length bs);
       Some (KcpPacket reply_depth packet)
     }
     else if type_bits = FLAG_KEEP_ALIVE then Some (KeepAlive reply_depth)
     else if type_bits = FLAG_ROUTE_REPLY then do {
       id_bytes \<leftarrow> slice_run bs 1 7;
       seq_id \<leftarrow> get_u48 id_bytes;
       no_bytes \<leftarrow> slice_run bs 7 13;
       seq_no \<leftarrow> get_u48 no_bytes;
       Some (RouteReply reply_depth seq_id seq_no)
     }
     else panic
   }"

subsection \<open>Session messages\<close>

fun close_reason_byte :: "CloseReason \<Rightarrow> u8" where
  "close_reason_byte LocalClosed = 0"
| "close_reason_byte RemoteClosed = 1"
| "close_reason_byte Reset = 2"
| "close_reason_byte CloseError = 3"

fun session_message_encode :: "SessionMessage \<Rightarrow> bytes" where
  "session_message_encode SessionMessage_Open = [0]"
| "session_message_encode (SessionMessage_Data bs) = 1 # bs"
| "session_message_encode (SessionMessage_Close reason) = [2, close_reason_byte reason]"

definition session_message_decode :: "bytes \<Rightarrow> SessionMessage run" where
  "session_message_decode bs = do {
     tag \<leftarrow> index_run bs 0;
     if tag = 0 then Some SessionMessage_Open
     else if tag = 1 then do {
       body \<leftarrow> slice_run bs 1 (length bs);
       Some (SessionMessage_Data body)
     }
     else if tag = 2 then do {
       r \<leftarrow> index_run bs 1;
       reason \<leftarrow> (if r = 0 then Some LocalClosed
                 else if r = 1 then Some RemoteClosed
                 else if r = 2 then Some Reset
                 else if r = 3 then Some CloseError
                 else panic);
       Some (SessionMessage_Close reason)
     }
     else panic
   }"

subsection \<open>What the formats can carry\<close>

text \<open>
  The values the layouts have room for: 26 bits of time, 48-bit identifiers, a six-bit route
  length, at least one padding byte, and two bits of reply depth.
\<close>

definition envelope_wf :: "Envelope \<Rightarrow> bool" where
  "envelope_wf e \<longleftrightarrow> take_bit 26 (env_time e) = env_time e \<and>
     take_bit 48 (env_seq_id e) = env_seq_id e \<and> take_bit 48 (env_seq_no e) = env_seq_no e \<and>
     length (env_route_plan e) < 64 \<and> env_padding_len e \<noteq> 0"

fun endpoint_message_wf :: "EndpointMessage \<Rightarrow> bool" where
  "endpoint_message_wf (KcpPacket d packet) = (d < 4)"
| "endpoint_message_wf (KeepAlive d) = (d < 4)"
| "endpoint_message_wf (RouteReply d i n) = (d < 4 \<and> take_bit 48 i = i \<and> take_bit 48 n = n)"

subsection \<open>Codec lemmas\<close>

lemma TIME_MASK_mask: "TIME_MASK = mask 26"
  by (simp add: TIME_MASK_def mask_eq_decr_exp)

lemma ROUTE_MASK_mask: "ROUTE_MASK = mask 6"
  by (simp add: ROUTE_MASK_def mask_eq_decr_exp)

lemma put_u48_le: "put_u48 v = to_le_bytes 6 v"
  by (simp add: put_u48_def)

lemma length_put_u48 [simp, layout_simps]: "length (put_u48 v) = 6"
  by (simp add: put_u48_le)

lemma from_le_bytes_append_zeros:
  "from_le_bytes (bs @ replicate n 0) = (from_le_bytes bs :: 'a::len word)"
  by (rule bit_word_eqI) (auto simp: bit_from_le_bytes nth_append)

lemma get_u48_le: "length bs = 6 \<Longrightarrow> get_u48 bs = Some (from_le_bytes bs)"
  using from_le_bytes_append_zeros [of bs 2] by (simp add: get_u48_def numeral_2_eq_2)

lemma get_put_u48: "get_u48 (put_u48 v) = Some (take_bit 48 v)"
  by (simp add: get_u48_le) (simp add: put_u48_le from_to_le_bytes)

lemma put_get_u48: "length bs = 6 \<Longrightarrow> put_u48 (from_le_bytes bs) = bs"
  by (simp add: put_u48_le to_from_le_bytes_len)

lemma from_le_bytes_lt48: "length bs = 6 \<Longrightarrow> take_bit 48 (from_le_bytes bs :: u64) = from_le_bytes bs"
  using from_to_le_bytes [of 6 "from_le_bytes bs :: u64"] put_get_u48 [of bs]
  by (simp add: put_u48_le)

lemma drop_time_and_route:
  assumes "n < 64"
  shows "drop_bit 6 (time_and_route t n) = take_bit 26 t"
proof (rule bit_word_eqI)
  fix k assume k: "k < LENGTH(32)"
  have "\<not> bit (word_of_nat n :: u32) (6 + k)"
    using assms bit_take_bit_iff[of 6 n "6+k"] by (simp add: bit_simps take_bit_nat_eq_self)
  with k show "bit (drop_bit 6 (time_and_route t n)) k = bit (take_bit 26 t) k"
    by (auto simp: time_and_route_def TIME_MASK_mask bit_simps)
qed

lemma mask_time_and_route:
  assumes "n < 64"
  shows "unat (time_and_route t n AND ROUTE_MASK) = n"
proof -
  have "time_and_route t n AND ROUTE_MASK = word_of_nat n"
  proof (rule bit_word_eqI)
    fix k assume k: "k < LENGTH(32)"
    have "bit (word_of_nat n :: u32) k \<Longrightarrow> k < 6"
      using assms bit_take_bit_iff[of 6 n k] by (simp add: bit_simps take_bit_nat_eq_self)
    with k show "bit (time_and_route t n AND ROUTE_MASK) k = bit (word_of_nat n :: u32) k"
      by (auto simp: time_and_route_def ROUTE_MASK_mask bit_simps)
  qed
  with assms show ?thesis by (simp add: unsigned_of_nat take_bit_nat_eq_self)
qed

lemma time_and_route_split:
  "time_and_route (drop_bit 6 w) (unat (w AND ROUTE_MASK)) = w"
proof (rule bit_word_eqI)
  fix k assume "k < LENGTH(32)"
  then show "bit (time_and_route (drop_bit 6 w) (unat (w AND ROUTE_MASK))) k = bit w k"
    by (auto simp: time_and_route_def TIME_MASK_mask ROUTE_MASK_mask bit_simps)
qed

lemma envelope_prefix_short: "length bs < 16 \<Longrightarrow> envelope_prefix bs = Some (Inl WireError)"
  by (simp add: envelope_prefix_def)

lemma envelope_prefix_long:
  assumes "16 \<le> length bs"
  shows "envelope_prefix bs = Some (Inr
    (\<lparr>es_time = drop_bit 6 (from_le_bytes (take 4 bs)),
      es_seq_id = from_le_bytes (take 6 (drop 4 bs)),
      es_seq_no = from_le_bytes (take 6 (drop 10 bs))\<rparr>,
     unat ((from_le_bytes (take 4 bs) :: u32) AND ROUTE_MASK)))"
  using assms by (simp add: envelope_prefix_def run_simps get_u48_le Let_def)

lemma decode_route_plan_layout:
  "decode_route_plan (xs @ concat (map (to_le_bytes 2) plan) @ ys)
     (length xs) (length xs + 2 * length plan) = Some plan"
proof (induction plan arbitrary: xs)
  case Nil
  then show ?case by (simp add: decode_route_plan.simps)
next
  case (Cons c plan)
  have "decode_route_plan ((xs @ to_le_bytes 2 c) @ concat (map (to_le_bytes 2) plan) @ ys)
     (length (xs @ to_le_bytes 2 c)) (length (xs @ to_le_bytes 2 c) + 2 * length plan) = Some plan"
    by (rule Cons.IH)
  then show ?case
    by (subst decode_route_plan.simps)
       (simp add: run_simps from_to_le_bytes_full algebra_simps)
qed

lemma route_bytes_exist:
  "length r = 2 * n \<Longrightarrow> \<exists>plan. length plan = n \<and> r = concat (map (to_le_bytes 2) (plan :: u16 list))"
proof (induction n arbitrary: r)
  case 0
  then show ?case by simp
next
  case (Suc n)
  then have "length (drop 2 r) = 2 * n" by simp
  then obtain plan where p: "length plan = n" "drop 2 r = concat (map (to_le_bytes 2) (plan :: u16 list))"
    using Suc.IH by blast
  have "to_le_bytes 2 (from_le_bytes (take 2 r) :: u16) = take 2 r"
    using Suc.prems by (intro to_from_le_bytes_len) auto
  then have "r = concat (map (to_le_bytes 2) ((from_le_bytes (take 2 r) :: u16) # plan))"
    using p by (simp flip: p(2))
  with p show ?case by (intro exI [of _ "(from_le_bytes (take 2 r) :: u16) # plan"]) simp
qed

subsection \<open>Envelopes\<close>

lemma length_route_bytes [simp, layout_simps]:
  "length (concat (map (to_le_bytes 2) plan)) = 2 * length plan"
  by (induction plan) auto

lemma length_envelope_encode [layout_simps]:
  "length (envelope_encode_with_prefix e n) =
     n + ENVELOPE_FIXED_OVERHEAD + length (env_payload e)
     + length (env_route_plan e) * CHANNEL_ID_SIZE + unat (env_padding_len e)"
  by (simp add: envelope_encode_with_prefix_def)

lemma envelope_encode_prefix:
  "envelope_encode_with_prefix e n = replicate n 0 @ envelope_encode_with_prefix e 0"
  by (simp add: envelope_encode_with_prefix_def)

lemma last_replicate_append: "0 < n \<Longrightarrow> last (xs @ replicate n x) = x"
  by (cases n) (auto simp: last_append)

lemma envelope_decode_encode:
  assumes "envelope_wf e"
  shows "envelope_decode (envelope_encode_with_prefix e 0) = Some (Inr e)"
proof -
  let ?bs = "envelope_encode_with_prefix e 0"
  let ?n = "unat (env_padding_len e)"
  let ?route = "concat (map (to_le_bytes 2) (env_route_plan e))"
  define hdr where "hdr = to_le_bytes 4 (time_and_route (env_time e) (length (env_route_plan e)))
    @ put_u48 (env_seq_id e) @ put_u48 (env_seq_no e)"
  have bs: "?bs = (hdr @ env_payload e) @ ?route @ replicate ?n (env_padding_len e)"
    by (simp add: envelope_encode_with_prefix_def hdr_def)
  have hl: "length hdr = 16" by (simp add: hdr_def)
  from assms have wf: "0 < ?n" "length (env_route_plan e) < 64"
    by (simp_all add: envelope_wf_def unat_gt_0)
  have len: "length ?bs = 16 + length (env_payload e) + 2 * length (env_route_plan e) + ?n"
    by (simp add: bs hl)
  have lst: "last ?bs = env_padding_len e"
    unfolding bs using wf by (simp add: last_replicate_append flip: append_assoc)
  have pre: "envelope_prefix ?bs = Some (Inr (\<lparr>es_time = env_time e, es_seq_id = env_seq_id e,
      es_seq_no = env_seq_no e\<rparr>, length (env_route_plan e)))"
    using assms wf
    by (simp add: envelope_prefix_long len) (simp add: bs hdr_def take_bit_word_eq_self
        put_u48_le from_to_le_bytes drop_time_and_route mask_time_and_route envelope_wf_def)
  have rt: "decode_route_plan ?bs (16 + length (env_payload e))
      (16 + length (env_payload e) + 2 * length (env_route_plan e)) = Some (env_route_plan e)"
    using decode_route_plan_layout [of "hdr @ env_payload e"] by (simp add: bs hl)
  have ne: "?bs \<noteq> []" using len by auto
  have pad: "drop (length ?bs - ?n) ?bs = replicate ?n (env_padding_len e)"
    by (simp add: len) (simp add: bs hl)
  have pay: "take (length (env_payload e)) (drop 16 ?bs) = env_payload e"
    by (simp add: bs hl)
  show ?thesis
    using wf ne pre rt pad pay lst
    by (simp add: envelope_decode_def Let_def len run_simps list_all_iff)
qed

lemma decode_route_plan_slice:
  assumes "off + 2 * n \<le> length bs"
  obtains plan where "length plan = n" "decode_route_plan bs off (off + 2 * n) = Some plan"
    "take (2 * n) (drop off bs) = concat (map (to_le_bytes 2) plan)"
proof -
  have "length (take (2 * n) (drop off bs)) = 2 * n" using assms by simp
  then obtain plan :: "u16 list" where p: "length plan = n"
    "take (2 * n) (drop off bs) = concat (map (to_le_bytes 2) plan)"
    using route_bytes_exist by blast
  have "decode_route_plan (take off bs @ concat (map (to_le_bytes 2) plan) @ drop (2 * n) (drop off bs))
      (length (take off bs)) (length (take off bs) + 2 * length plan) = Some plan"
    by (rule decode_route_plan_layout)
  with assms p(1) have "decode_route_plan bs off (off + 2 * n) = Some plan"
    by (simp only: append_take_drop_id flip: p(2)) simp
  with p show ?thesis by (intro that)
qed

lemma envelope_decode_cases:
  obtains (short) "length bs < 16" "envelope_decode bs = Some (Inl WireError)"
  | (malformed) "16 \<le> length bs" "envelope_decode bs = Some (Inl WireError)"
  | (ok) e where "envelope_wf e" "bs = envelope_encode_with_prefix e 0"
proof (cases "length bs < 16")
  case True
  then show ?thesis by (intro short) (simp_all add: envelope_decode_def envelope_prefix_short)
next
  case False
  define N where "N = unat (last bs)"
  define w where "w = (from_le_bytes (take 4 bs) :: u32)"
  define R where "R = unat (w AND ROUTE_MASK)"
  define pad where "pad = drop (length bs - N) bs"
  have ne: "bs \<noteq> []" using False by auto
  have R: "R < 64"
  proof -
    have "w AND ROUTE_MASK \<le> ROUTE_MASK" by (rule word_and_le1)
    then show ?thesis by (simp add: R_def word_le_nat_alt ROUTE_MASK_def)
  qed
  show ?thesis
  proof (cases "N = 0 \<or> length bs < 16 + (N + R * 2) \<or> \<not> list_all (\<lambda>b. unat b = N) pad")
    case True
    with False ne show ?thesis
      by (intro malformed) (auto simp: envelope_decode_def envelope_prefix_long Let_def run_simps
          N_def w_def R_def pad_def)
  next
    case good: False
    define P where "P = length bs - (16 + N + 2 * R)"
    obtain plan where plan: "length plan = R"
      "decode_route_plan bs (16 + P) (16 + P + 2 * R) = Some plan"
      "take (2 * R) (drop (16 + P) bs) = concat (map (to_le_bytes 2) plan)"
      by (rule decode_route_plan_slice [of "16 + P" R bs]) (use good in \<open>auto simp: P_def\<close>)
    have lenpad: "length pad = N" using good by (simp add: pad_def)
    have lastN: "unat (last bs) = N" by (simp add: N_def)
    have pad_eq: "pad = replicate N (last bs)"
    proof (rule replicate_eqI)
      fix y assume "y \<in> set pad"
      with good have "unat y = unat (last bs)" by (auto simp: list_all_iff N_def)
      then show "y = last bs" by (simp add: word_unat_eq_iff)
    qed (rule lenpad)
    define e where "e = \<lparr>env_time = drop_bit 6 w, env_seq_id = from_le_bytes (take 6 (drop 4 bs)),
      env_seq_no = from_le_bytes (take 6 (drop 10 bs)), env_route_plan = plan,
      env_payload = take P (drop 16 bs), env_padding_len = last bs\<rparr>"
    have wf: "envelope_wf e"
    proof -
      have "take_bit 26 (drop_bit 6 w) = drop_bit 6 w"
        by (rule bit_word_eqI) (auto simp: bit_simps dest: bit_imp_le_length)
      moreover have "last bs \<noteq> 0" using good by (auto simp: N_def)
      ultimately show ?thesis
        using False plan(1) R by (simp add: envelope_wf_def e_def from_le_bytes_lt48)
    qed
    have "bs = take 16 bs @ take P (drop 16 bs) @ take (2 * R) (drop (16 + P) bs) @ drop (16 + P + 2 * R) bs"
      using append_take_drop_id [of 16 bs] append_take_drop_id [of P "drop 16 bs"]
        append_take_drop_id [of "2 * R" "drop (16 + P) bs"]
      by (simp only: drop_drop add.commute add.left_commute)
    moreover have "drop (16 + P + 2 * R) bs = pad" using good by (simp add: pad_def P_def)
    moreover have "take 16 bs = take 4 bs @ take 6 (drop 4 bs) @ take 6 (drop 10 bs)"
      using take_add [of 4 "6 + 6" bs] take_add [of 6 6 "drop 4 bs"] by simp
    moreover have "take 4 bs = to_le_bytes 4 (time_and_route (drop_bit 6 w) R)"
      using False by (simp add: R_def time_and_route_split) (simp add: w_def to_from_le_bytes_len)
    ultimately have "bs = envelope_encode_with_prefix e 0"
      using False plan pad_eq lastN
      by (simp add: envelope_encode_with_prefix_def e_def put_get_u48)
    with wf show ?thesis by (rule ok)
  qed
qed

interpretation env: wire_codec "\<lambda>e. envelope_encode_with_prefix e 0"
  "\<lambda>bs. do { r \<leftarrow> envelope_decode bs; (case r of Inl _ \<Rightarrow> None | Inr e \<Rightarrow> Some e) }" envelope_wf
  by unfold_locales (simp add: envelope_decode_encode)

lemma envelope_decode_Inr_iff:
  "envelope_decode bs = Some (Inr e) \<longleftrightarrow> envelope_wf e \<and> bs = envelope_encode_with_prefix e 0"
  by (rule envelope_decode_cases [of bs])
     (auto simp: envelope_decode_encode env.encode_inject)

lemma envelope_decode_total: "\<exists>r. envelope_decode bs = Some r"
  by (rule envelope_decode_cases [of bs]) (auto simp: envelope_decode_encode)

subsection \<open>Nonces\<close>

lemma put_u48_inject: "put_u48 v = put_u48 w \<longleftrightarrow> take_bit 48 v = take_bit 48 w"
  by (metis get_put_u48 option.inject put_get_u48 length_put_u48 get_u48_le)

lemma drop_push_time: "drop_bit 6 (push_bit 6 (t AND TIME_MASK)) = take_bit 26 t"
  by (rule bit_word_eqI) (auto simp: TIME_MASK_mask bit_simps)

lemma push_time_inject:
  "push_bit 6 (t AND TIME_MASK) = push_bit 6 (u AND TIME_MASK) \<longleftrightarrow> take_bit 26 t = take_bit 26 u"
  by (metis drop_push_time TIME_MASK_mask take_bit_eq_mask)

lemma endpoint_nonce_inject:
  "endpoint_nonce a = endpoint_nonce b \<longleftrightarrow>
     take_bit 26 (es_time a) = take_bit 26 (es_time b) \<and>
     take_bit 48 (es_seq_id a) = take_bit 48 (es_seq_id b) \<and>
     take_bit 48 (es_seq_no a) = take_bit 48 (es_seq_no b)"
  by (simp add: endpoint_nonce_def put_u48_inject push_time_inject to_le_bytes_inject
      del: push_bit_and)

lemma to_le_bytes_clear_route:
  assumes "n < 64"
  shows "to_le_bytes 4 (push_bit 6 (t AND TIME_MASK)) =
    (hd (to_le_bytes 4 (time_and_route t n)) AND NOT (mask 6)) # tl (to_le_bytes 4 (time_and_route t n))"
proof -
  have n: "bit n k \<Longrightarrow> k < 6" for k
    using assms bit_take_bit_iff [of 6 n k] by (simp add: take_bit_nat_eq_self)
  have "ucast (push_bit 6 (t AND TIME_MASK)) = (ucast (time_and_route t n) AND NOT (mask 6) :: u8)"
    by (rule bit_word_eqI) (auto simp: time_and_route_def bit_simps dest: n)
  moreover have "ucast (drop_bit k (push_bit 6 (t AND TIME_MASK))) = (ucast (drop_bit k (time_and_route t n)) :: u8)"
    if "8 \<le> k" for k
    by (rule bit_word_eqI) (use that in \<open>auto simp: time_and_route_def bit_simps dest: n\<close>)
  ultimately show ?thesis
    by (simp add: to_le_bytes_def upt_conv_Cons)
qed

lemma endpoint_nonce_header:
  assumes "length (env_route_plan e) < 64" 
  shows "endpoint_nonce \<lparr>es_time = env_time e, es_seq_id = env_seq_id e, es_seq_no = env_seq_no e\<rparr> =
    (hd (envelope_encode_with_prefix e 0) AND NOT (mask 6)) # take 15 (tl (envelope_encode_with_prefix e 0))"
proof -
  define h where "h = to_le_bytes 4 (time_and_route (env_time e) (length (env_route_plan e)))"
  obtain b bs where h: "h = b # bs" "length bs = 3"
    by (cases h) (auto simp: h_def dest: arg_cong [where f = length])
  have enc: "envelope_encode_with_prefix e 0 = b # bs @ put_u48 (env_seq_id e) @ put_u48 (env_seq_no e) @
      env_payload e @ concat (map (to_le_bytes 2) (env_route_plan e))
      @ replicate (unat (env_padding_len e)) (env_padding_len e)"
    using h(1) by (simp add: envelope_encode_with_prefix_def flip: h_def)
  have "to_le_bytes 4 (push_bit 6 (env_time e AND TIME_MASK)) = (b AND NOT (mask 6)) # bs"
    using to_le_bytes_clear_route [OF assms, of "env_time e"] h(1)
    by (simp flip: h_def del: push_bit_and)
  then show ?thesis
    using h(2) by (simp add: endpoint_nonce_def enc del: push_bit_and)
qed

subsection \<open>Messages\<close>

lemma flags_split:
  fixes d f :: u8
  assumes "d < 4" and "f < 8"
  shows "drop_bit 3 (f OR push_bit 3 d) AND 3 = d"
    and "(f OR push_bit 3 d) AND NOT (push_bit 3 3) = f"
proof -
  have d: "take_bit 2 d = d" using assms(1)
    by (simp add: word_unat_eq_iff unsigned_take_bit_eq take_bit_nat_eq_self word_less_nat_alt)
  have f: "take_bit 3 f = f" using assms(2)
    by (simp add: word_unat_eq_iff unsigned_take_bit_eq take_bit_nat_eq_self word_less_nat_alt)
  have m: "(3 :: u8) = mask 2" by (simp add: mask_eq_decr_exp)
  have bd: "bit d k \<Longrightarrow> k < 2" for k using d by (metis bit_take_bit_iff)
  have bf: "bit f k \<Longrightarrow> k < 3" for k using f by (metis bit_take_bit_iff)
  show "drop_bit 3 (f OR push_bit 3 d) AND 3 = d"
    unfolding m by (rule bit_word_eqI) (auto simp: bit_simps dest: bd bf)
  show "(f OR push_bit 3 d) AND NOT (push_bit 3 3) = f"
    unfolding m by (rule bit_word_eqI) (auto simp: bit_simps dest: bd bf)
qed

lemma endpoint_message_roundtrip:
  assumes "endpoint_message_wf m"
  shows "endpoint_message_decode (endpoint_message_encode_with_prefix m 0) = Some m"
proof (cases m)
  case (KcpPacket d packet)
  with assms flags_split [of d 1] show ?thesis
    by (simp add: endpoint_message_decode_def encode_flags_body_def run_simps Let_def)
next
  case (KeepAlive d)
  with assms flags_split [of d 2] show ?thesis
    by (simp add: endpoint_message_decode_def encode_flags_body_def run_simps Let_def)
next
  case (RouteReply d i n)
  with assms flags_split [of d 4] show ?thesis
    by (simp add: endpoint_message_decode_def encode_flags_body_def run_simps Let_def get_put_u48)
qed

lemma session_message_roundtrip:
  "session_message_decode (session_message_encode m) = Some m"
proof (cases m)
  case (SessionMessage_Close r)
  then show ?thesis by (cases r) (simp_all add: session_message_decode_def run_simps)
qed (simp_all add: session_message_decode_def run_simps)

interpretation em: wire_codec "\<lambda>m. endpoint_message_encode_with_prefix m 0"
  endpoint_message_decode endpoint_message_wf
  by unfold_locales (rule endpoint_message_roundtrip)

interpretation sm: wire_codec session_message_encode session_message_decode "\<lambda>_. True"
  by unfold_locales (rule session_message_roundtrip)

subsection \<open>Properties\<close>

text \<open>C10.  The envelope codec is exact: on any bytes whatsoever \<open>Envelope::decode\<close> returns without
  panicking, and it accepts a byte string as envelope \<open>e\<close> precisely when \<open>e\<close> fits the format
  and the bytes are its encoding.\<close>

theorem envelope_codec_exact:
  "\<exists>r. envelope_decode bs = Some r \<and>
     (\<forall>e. r = Inr e \<longleftrightarrow> envelope_wf e \<and> bs = envelope_encode_with_prefix e 0)"
  using envelope_decode_total [of bs] envelope_decode_Inr_iff [of bs] by fastforce

text \<open>The endpoint nonce is the 16-byte envelope header with the six route-length bits
  cleared, so it is the same at every hop of a packet.\<close>

lemma endpoint_nonce_hop_independent:
  assumes "length (env_route_plan e) < 64"
  shows "endpoint_nonce \<lparr>es_time = env_time e, es_seq_id = env_seq_id e, es_seq_no = env_seq_no e\<rparr> =
    (hd (envelope_encode_with_prefix e 0) AND NOT (mask 6)) # take 15 (tl (envelope_encode_with_prefix e 0))"
  using assms by (rule endpoint_nonce_header)

text \<open>C12.  Endpoint messages and session messages survive encoding: every endpoint message whose
  reply depth fits two bits and whose identifiers fit 48 bits, and every session message,
  decodes to itself.\<close>

theorem message_codecs_roundtrip:
  assumes "endpoint_message_wf m"
  shows "endpoint_message_decode (endpoint_message_encode_with_prefix m 0) = Some m \<and>
    session_message_decode (session_message_encode s) = Some s"
  using assms endpoint_message_roundtrip session_message_roundtrip by blast

theorem message_codecs_roundtrip_witness:
  "endpoint_message_decode (endpoint_message_encode_with_prefix (RouteReply 2 5 6) 0) = Some (RouteReply 2 5 6)
   \<and> session_message_decode (session_message_encode (SessionMessage_Close Reset)) = Some (SessionMessage_Close Reset)"
  by (rule message_codecs_roundtrip) (simp add: take_bit_eq_mod)

end
