(* ===== verification/Packet.thy ===== *)
theory Packet
  imports Wire
begin

section \<open>Random streams and transport packets (random.rs, packet.rs)\<close>

text \<open>
  The crates \<^verbatim>\<open>aegis\<close> and \<^verbatim>\<open>blake3\<close> are not part of the repository: they are the fields of
  the record \<open>crypto\<close>, a parameter of every operation that uses them.  \<open>blake3_xof k i\<close> is
  byte \<open>i\<close> of the output stream of the keyed hash of the empty input, so a \<open>RandomStream\<close> is a
  key and a position.  What the code relies on is the predicate \<open>aead_correct\<close>: encryption in
  place keeps the length, the tag has 16 bytes, and decryption under the same key, nonce and
  tag returns the plaintext.  It is satisfied by \<open>null_crypto\<close>, which the witnesses use.

  The theory shows that a sealed envelope opens to itself, how long a packet is, and that
  \<open>decode_transport_packet\<close> returns on every input with the error the length, the tag or the
  envelope calls for.
\<close>

record crypto =
  aegis_encrypt :: "bytes \<Rightarrow> bytes \<Rightarrow> bytes \<Rightarrow> bytes \<Rightarrow> bytes \<times> bytes"
  aegis_decrypt :: "bytes \<Rightarrow> bytes \<Rightarrow> bytes \<Rightarrow> bytes \<Rightarrow> bytes \<Rightarrow> bytes option"
  blake3_hash :: "bytes \<Rightarrow> bytes"
  blake3_xof :: "bytes \<Rightarrow> nat \<Rightarrow> u8"

record RandomStream =
  reader_key :: bytes
  reader_pos :: nat

datatype TransportPacketError = InvalidLength | Authentication | MalformedEnvelope

subsection \<open>Random streams\<close>

definition random_new :: "crypto \<Rightarrow> bytes \<Rightarrow> RandomStream" where
  "random_new cr seed = \<lparr>reader_key = blake3_hash cr seed, reader_pos = 0\<rparr>"

definition random_fill :: "crypto \<Rightarrow> RandomStream \<Rightarrow> usize \<Rightarrow> bytes \<times> RandomStream" where
  "random_fill cr rs n =
     (map (\<lambda>i. blake3_xof cr (reader_key rs) (reader_pos rs + i)) [0..<n],
      rs\<lparr>reader_pos := reader_pos rs + n\<rparr>)"

definition random_u64 :: "crypto \<Rightarrow> RandomStream \<Rightarrow> u64 \<times> RandomStream" where
  "random_u64 cr rs = (let (bs, rs') = random_fill cr rs 8 in (from_le_bytes bs, rs'))"

subsection \<open>Transport packets\<close>

definition encode_transport_packet ::
    "crypto \<Rightarrow> bytes \<Rightarrow> RandomStream \<Rightarrow> Envelope \<Rightarrow> bytes \<times> RandomStream" where
  "encode_transport_packet cr key rs envelope =
     (let (nonce, rs') = random_fill cr rs 16;
          packet = envelope_encode_with_prefix envelope TRANSPORT_PACKET_OVERHEAD;
          (body, tag) = aegis_encrypt cr key nonce (drop TRANSPORT_PACKET_OVERHEAD packet) []
      in (nonce @ tag @ body, rs'))"

definition decode_transport_packet ::
    "crypto \<Rightarrow> bytes \<Rightarrow> bytes \<Rightarrow> (TransportPacketError + Envelope) run" where
  "decode_transport_packet cr key packet =
     (if length packet < TRANSPORT_PACKET_OVERHEAD \<or> MAX_TRANSPORT_PACKET_SIZE < length packet
      then Some (Inl InvalidLength)
      else do {
        nonce \<leftarrow> slice_run packet 0 16;
        tag \<leftarrow> slice_run packet 16 TRANSPORT_PACKET_OVERHEAD;
        body \<leftarrow> slice_run packet TRANSPORT_PACKET_OVERHEAD (length packet);
        (case aegis_decrypt cr key nonce body tag [] of
           None \<Rightarrow> Some (Inl Authentication)
         | Some plain \<Rightarrow> do {
             r \<leftarrow> envelope_decode plain;
             Some (case r of Inl _ \<Rightarrow> Inl MalformedEnvelope | Inr e \<Rightarrow> Inr e)
           })
      })"

subsection \<open>What the code relies on\<close>

definition aead_correct :: "crypto \<Rightarrow> bool" where
  "aead_correct cr \<longleftrightarrow> (\<forall>key nonce plain.
     case aegis_encrypt cr key nonce plain [] of (body, tag) \<Rightarrow>
       length body = length plain \<and> length tag = 16 \<and>
       aegis_decrypt cr key nonce body tag [] = Some plain)"

definition null_crypto :: crypto where
  "null_crypto = \<lparr>
     aegis_encrypt = (\<lambda>key nonce plain ad. (plain, replicate 16 0)),
     aegis_decrypt = (\<lambda>key nonce body tag ad. if tag = replicate 16 0 then Some body else None),
     blake3_hash = (\<lambda>bs. bs),
     blake3_xof = (\<lambda>key i. word_of_nat i)\<rparr>"

definition packet_size :: "Envelope \<Rightarrow> nat" where
  "packet_size e = TRANSPORT_PACKET_OVERHEAD + length (envelope_encode_with_prefix e 0)"

definition opened :: "crypto \<Rightarrow> bytes \<Rightarrow> bytes \<Rightarrow> bytes option" where
  "opened cr key packet =
     aegis_decrypt cr key (take 16 packet) (drop 32 packet) (take 16 (drop 16 packet)) []"

subsection \<open>Lemmas\<close>

lemma null_crypto_correct [simp]: "aead_correct null_crypto"
  by (simp add: aead_correct_def null_crypto_def)

lemma aead_correctE:
  assumes "aead_correct cr"
  obtains body tag where "aegis_encrypt cr key nonce plain [] = (body, tag)"
    "length body = length plain" "length tag = 16"
    "aegis_decrypt cr key nonce body tag [] = Some plain"
proof (cases "aegis_encrypt cr key nonce plain []")
  case (Pair body tag)
  with assms [unfolded aead_correct_def, rule_format, of plain key nonce] that
  show thesis by simp
qed

lemma length_random_fill [simp]: "length (fst (random_fill cr rs n)) = n"
  by (simp add: random_fill_def)

lemma random_fill_pos [simp]: "snd (random_fill cr rs n) = rs\<lparr>reader_pos := reader_pos rs + n\<rparr>"
  by (simp add: random_fill_def)

lemma drop_envelope_prefix [simp]:
  "drop n (envelope_encode_with_prefix e n) = envelope_encode_with_prefix e 0"
  by (subst envelope_encode_prefix) simp

lemma encode_transport_packet_sealed:
  assumes "aead_correct cr"
  obtains nonce tag body where
    "encode_transport_packet cr key rs e = (nonce @ tag @ body, rs\<lparr>reader_pos := reader_pos rs + 16\<rparr>)"
    "length nonce = 16" "length tag = 16" "length body = length (envelope_encode_with_prefix e 0)"
    "aegis_decrypt cr key nonce body tag [] = Some (envelope_encode_with_prefix e 0)"
proof -
  obtain nonce where n: "random_fill cr rs 16 = (nonce, rs\<lparr>reader_pos := reader_pos rs + 16\<rparr>)"
    "length nonce = 16"
    using random_fill_pos [of cr rs 16] length_random_fill [of cr rs 16] by (metis prod.collapse)
  obtain body tag where b: "aegis_encrypt cr key nonce (envelope_encode_with_prefix e 0) [] = (body, tag)"
    "length body = length (envelope_encode_with_prefix e 0)" "length tag = 16"
    "aegis_decrypt cr key nonce body tag [] = Some (envelope_encode_with_prefix e 0)"
    using aead_correctE [OF assms] by metis
  have "encode_transport_packet cr key rs e = (nonce @ tag @ body, rs\<lparr>reader_pos := reader_pos rs + 16\<rparr>)"
    unfolding encode_transport_packet_def n(1) Let_def using b(1)
    by (simp del: TRANSPORT_PACKET_OVERHEAD_def)
  with n(2) b that show thesis by blast
qed

lemma length_encode_transport_packet:
  assumes "aead_correct cr"
  shows "length (fst (encode_transport_packet cr key rs e)) = packet_size e"
  by (rule encode_transport_packet_sealed [OF assms, of key rs e]) (simp add: packet_size_def)

lemma decode_encode_transport_packet:
  assumes "aead_correct cr" and "envelope_wf e" and "packet_size e \<le> MAX_TRANSPORT_PACKET_SIZE"
  shows "decode_transport_packet cr key (fst (encode_transport_packet cr key rs e)) = Some (Inr e)"
proof (rule encode_transport_packet_sealed [OF assms(1), of key rs e])
  fix nonce tag body
  assume "encode_transport_packet cr key rs e = (nonce @ tag @ body, rs\<lparr>reader_pos := reader_pos rs + 16\<rparr>)"
    "length nonce = 16" "length tag = 16" "length body = length (envelope_encode_with_prefix e 0)"
    "aegis_decrypt cr key nonce body tag [] = Some (envelope_encode_with_prefix e 0)"
  with assms(2,3) show ?thesis
    by (simp add: decode_transport_packet_def run_simps envelope_decode_encode packet_size_def)
qed

lemma decode_transport_packet_open:
  assumes "32 \<le> length packet" and "length packet \<le> 65536"
  shows "decode_transport_packet cr key packet =
    (case opened cr key packet of None \<Rightarrow> Some (Inl Authentication)
     | Some plain \<Rightarrow> do {
         r \<leftarrow> envelope_decode plain;
         Some (case r of Inl _ \<Rightarrow> Inl MalformedEnvelope | Inr e \<Rightarrow> Inr e)
       })"
  using assms by (simp add: decode_transport_packet_def run_simps opened_def)

lemma decode_transport_packet_cases:
  obtains (length) "decode_transport_packet cr key p = Some (Inl InvalidLength)"
      "length p < 32 \<or> 65536 < length p"
  | (auth) "decode_transport_packet cr key p = Some (Inl Authentication)"
      "32 \<le> length p" "length p \<le> 65536" "opened cr key p = None"
  | (malformed) plain where "decode_transport_packet cr key p = Some (Inl MalformedEnvelope)"
      "32 \<le> length p" "length p \<le> 65536" "opened cr key p = Some plain"
      "envelope_decode plain = Some (Inl WireError)"
  | (ok) e where "decode_transport_packet cr key p = Some (Inr e)"
      "32 \<le> length p" "length p \<le> 65536" "envelope_wf e"
      "opened cr key p = Some (envelope_encode_with_prefix e 0)"
proof (cases "length p < 32 \<or> 65536 < length p")
  case True
  then show ?thesis by (intro length) (auto simp: decode_transport_packet_def)
next
  case False
  then have len: "32 \<le> length p" "length p \<le> 65536" by simp_all
  note dec = decode_transport_packet_open [OF len, of cr key]
  show ?thesis
  proof (cases "opened cr key p")
    case None
    with dec len show ?thesis by (intro auth) simp_all
  next
    case (Some plain)
    show ?thesis
      by (rule envelope_decode_cases [of plain])
         (use malformed ok Some dec len envelope_decode_encode in \<open>auto\<close>)
  qed
qed

subsection \<open>Properties\<close>

text \<open>C13.  Sealing and opening: a transport packet made from an envelope that fits the format and
  the size limit opens, under the same key, to that envelope, and its size is 32 bytes more than
  the encoded envelope.\<close>

theorem transport_packet_roundtrip:
  assumes "aead_correct cr" and "envelope_wf e" and "packet_size e \<le> MAX_TRANSPORT_PACKET_SIZE"
  shows "decode_transport_packet cr key (fst (encode_transport_packet cr key rs e)) = Some (Inr e) \<and>
    length (fst (encode_transport_packet cr key rs e)) = packet_size e"
  using assms decode_encode_transport_packet length_encode_transport_packet by blast

theorem transport_packet_roundtrip_witness:
  "let e = \<lparr>env_time = 1, env_seq_id = 2, env_seq_no = 3, env_route_plan = [7], env_payload = [9, 9],
            env_padding_len = 1\<rparr>
   in decode_transport_packet null_crypto [] (fst (encode_transport_packet null_crypto [] \<lparr>reader_key = [], reader_pos = 0\<rparr> e))
        = Some (Inr e) \<and>
      length (fst (encode_transport_packet null_crypto [] \<lparr>reader_key = [], reader_pos = 0\<rparr> e)) = packet_size e"
  unfolding Let_def
  by (rule transport_packet_roundtrip)
     (simp_all add: envelope_wf_def take_bit_eq_mod packet_size_def length_envelope_encode)

text \<open>C14.  Opening is total: on every byte string \<open>decode_transport_packet\<close> returns; a length
  outside 32..65536 is \<open>InvalidLength\<close>, a failed tag is \<open>Authentication\<close>, and an envelope comes
  out only if the authenticated plaintext is its encoding.\<close>

theorem decode_transport_packet_classifies:
  "\<exists>r. decode_transport_packet cr key p = Some r \<and>
     (r = Inl InvalidLength \<longleftrightarrow> length p < 32 \<or> 65536 < length p) \<and>
     (r = Inl Authentication \<longleftrightarrow> 32 \<le> length p \<and> length p \<le> 65536 \<and> opened cr key p = None) \<and>
     (\<forall>e. r = Inr e \<longleftrightarrow> 32 \<le> length p \<and> length p \<le> 65536 \<and> envelope_wf e \<and>
        opened cr key p = Some (envelope_encode_with_prefix e 0))"
proof (cases rule: decode_transport_packet_cases [of cr key p])
  case (malformed plain)
  then have "\<not> (envelope_wf e \<and> plain = envelope_encode_with_prefix e 0)" for e
    using envelope_decode_Inr_iff [of plain e] by simp
  with malformed show ?thesis by auto
next
  case (ok e)
  then show ?thesis by (auto simp: env.encode_inject)
qed auto

end
