(* ===== verification/Sequence.thy ===== *)
theory Sequence
  imports Wire "HOL-Library.AList" "HOL-Library.Multiset"
begin

section \<open>Freshness and replay protection (sequence.rs)\<close>

text \<open>
  The sequence filter of \<^verbatim>\<open>sequence.rs\<close>: per sender instance (\<open>seq_id\<close>) a window of
  \<open>2^20\<close> sequence numbers kept as a circular bitmap of 64-bit words, and the freshness test on
  26-bit modular time.  The table of windows is a \<^verbatim>\<open>HashMap\<close>: an association list with distinct
  keys, whose iteration order the code does not control, so \<open>remove_expired\<close> takes the order
  as a parameter \<open>hash_iter\<close>.

  The theory shows that the three clearing loops clear exactly the positions entering the window,
  that a window refines the set of numbers it has accepted, and that in any run of the filter over
  less than half a time cycle no packet stamp is accepted twice, evictions included.
\<close>

definition TS_SHIFT :: nat where [simp]: "TS_SHIFT = 10"
definition MAX_PAST_TICKS :: int where [simp]: "MAX_PAST_TICKS = 645"
definition MAX_FUTURE_TICKS :: int where [simp]: "MAX_FUTURE_TICKS = 59"
definition WINDOW_BITS :: u32 where "WINDOW_BITS = push_bit 20 1"
definition WINDOW_WORDS :: usize where "WINDOW_WORDS = unat WINDOW_BITS div 64"

datatype SequenceDrop = Freshness | Replay

record SequenceWindow =
  max_seq_no :: u64
  newest_time :: u32
  bitmap :: "u64 list"

definition time_diff :: "u32 \<Rightarrow> u32 \<Rightarrow> int" where
  "time_diff later earlier =
     (let difference = (later - earlier) AND TIME_MASK
      in if push_bit (TIME_BITS - 1) 1 \<le> difference
         then uint difference - 2 ^ TIME_BITS
         else uint difference)"

subsection \<open>The bitmap\<close>

definition seq_bit :: "u64 \<Rightarrow> usize" where
  "seq_bit seq_no = unat (ucast seq_no AND (WINDOW_BITS - 1))"

definition window_is_set :: "u64 list \<Rightarrow> u64 \<Rightarrow> bool run" where
  "window_is_set bm seq_no = do {
     w \<leftarrow> index_run bm (drop_bit 6 (seq_bit seq_no));
     Some (w AND push_bit (seq_bit seq_no AND 63) 1 \<noteq> 0)
   }"

definition window_set :: "u64 list \<Rightarrow> u64 \<Rightarrow> u64 list run" where
  "window_set bm seq_no =
     update_run bm (drop_bit 6 (seq_bit seq_no)) (\<lambda>w. w OR push_bit (seq_bit seq_no AND 63) 1)"

definition clear_bit :: "u64 list \<Rightarrow> u32 \<Rightarrow> u64 list run" where
  "clear_bit bm b =
     update_run bm (drop_bit 6 (unat b)) (\<lambda>w. w AND NOT (push_bit (unat b AND 63) 1))"

function clear_head :: "u64 list \<Rightarrow> u32 \<Rightarrow> u32 \<Rightarrow> (u64 list \<times> u32 \<times> u32) run" where
  "clear_head bm b remaining =
     (if remaining \<noteq> 0 \<and> b AND 63 \<noteq> 0
      then do {
        bm' \<leftarrow> clear_bit bm b;
        clear_head bm' ((b + 1) AND (WINDOW_BITS - 1)) (remaining - 1)
      }
      else Some (bm, b, remaining))"
  by pat_completeness auto
termination
  by (relation "measure (\<lambda>(bm, b, remaining). unat remaining)")
     (auto simp: unat_minus_one unat_gt_0)

function clear_words :: "u64 list \<Rightarrow> u32 \<Rightarrow> u32 \<Rightarrow> (u64 list \<times> u32 \<times> u32) run" where
  "clear_words bm b remaining =
     (if 64 \<le> remaining
      then do {
        bm' \<leftarrow> update_run bm (drop_bit 6 (unat b)) (\<lambda>_. 0);
        clear_words bm' ((b + 64) AND (WINDOW_BITS - 1)) (remaining - 64)
      }
      else Some (bm, b, remaining))"
  by pat_completeness auto
termination
  by (relation "measure (\<lambda>(bm, b, remaining). unat remaining)")
     (auto simp: word_le_nat_alt unat_sub)

function clear_tail :: "u64 list \<Rightarrow> u32 \<Rightarrow> u32 \<Rightarrow> u64 list run" where
  "clear_tail bm b remaining =
     (if remaining \<noteq> 0
      then do {
        bm' \<leftarrow> clear_bit bm b;
        clear_tail bm' ((b + 1) AND (WINDOW_BITS - 1)) (remaining - 1)
      }
      else Some bm)"
  by pat_completeness auto
termination
  by (relation "measure (\<lambda>(bm, b, remaining). unat remaining)")
     (auto simp: unat_minus_one unat_gt_0)

declare clear_head.simps [simp del] clear_words.simps [simp del] clear_tail.simps [simp del]

definition clear_after :: "u64 list \<Rightarrow> u64 \<Rightarrow> u32 \<Rightarrow> u64 list run" where
  "clear_after bm old_max count_bits = do {
     (bm1, b1, r1) \<leftarrow> clear_head bm (ucast (old_max + 1) AND (WINDOW_BITS - 1)) count_bits;
     (bm2, b2, r2) \<leftarrow> clear_words bm1 b1 r1;
     clear_tail bm2 b2 r2
   }"

subsection \<open>Windows\<close>

definition window_new :: "u64 \<Rightarrow> u32 \<Rightarrow> SequenceWindow run" where
  "window_new seq_no t = do {
     bm \<leftarrow> window_set (replicate WINDOW_WORDS 0) seq_no;
     Some \<lparr>max_seq_no = seq_no, newest_time = t, bitmap = bm\<rparr>
   }"

definition window_refresh :: "SequenceWindow \<Rightarrow> u32 \<Rightarrow> SequenceWindow" where
  "window_refresh w t = (if time_diff t (newest_time w) > 0 then w\<lparr>newest_time := t\<rparr> else w)"

definition window_insert :: "SequenceWindow \<Rightarrow> u64 \<Rightarrow> u32 \<Rightarrow> (SequenceDrop + SequenceWindow) run" where
  "window_insert w seq_no t =
     (if seq_no \<le> max_seq_no w
      then if ucast WINDOW_BITS \<le> max_seq_no w - seq_no then Some (Inl Replay)
           else do {
             seen \<leftarrow> window_is_set (bitmap w) seq_no;
             if seen then Some (Inl Replay)
             else do {
               bm \<leftarrow> window_set (bitmap w) seq_no;
               Some (Inr (window_refresh (w\<lparr>bitmap := bm\<rparr>) t))
             }
           }
      else do {
        let delta = seq_no - max_seq_no w;
        bm \<leftarrow> (if ucast WINDOW_BITS \<le> delta then Some (replicate (length (bitmap w)) 0)
              else clear_after (bitmap w) (max_seq_no w) (ucast delta));
        bm' \<leftarrow> window_set bm seq_no;
        Some (Inr (window_refresh (w\<lparr>bitmap := bm', max_seq_no := seq_no\<rparr>) t))
      })"

subsection \<open>The filter\<close>

type_synonym window_table = "(u64 \<times> SequenceWindow) list"

record SequenceFilter =
  windows :: window_table

definition filter_default :: SequenceFilter where
  "filter_default = \<lparr>windows = []\<rparr>"

definition filter_len :: "SequenceFilter \<Rightarrow> usize" where
  "filter_len f = length (windows f)"

definition check_and_insert ::
    "SequenceFilter \<Rightarrow> u32 \<Rightarrow> u32 \<Rightarrow> u64 \<Rightarrow> u64 \<Rightarrow> (SequenceDrop + SequenceFilter) run" where
  "check_and_insert f current_time packet_time seq_id seq_no =
     (let age = time_diff current_time packet_time
      in if age > MAX_PAST_TICKS then Some (Inl Freshness)
         else if age < - MAX_FUTURE_TICKS then Some (Inl Freshness)
         else (case map_of (windows f) seq_id of
             Some w \<Rightarrow> do {
               r \<leftarrow> window_insert w seq_no packet_time;
               (case r of
                  Inl d \<Rightarrow> Some (Inl d)
                | Inr w' \<Rightarrow> Some (Inr (f\<lparr>windows := AList.update seq_id w' (windows f)\<rparr>)))
             }
           | None \<Rightarrow> do {
               w \<leftarrow> window_new seq_no packet_time;
               Some (Inr (f\<lparr>windows := AList.update seq_id w (windows f)\<rparr>))
             }))"

definition remove_expired ::
    "(window_table \<Rightarrow> window_table) \<Rightarrow> SequenceFilter \<Rightarrow> u32 \<Rightarrow> usize \<Rightarrow> u64 list \<times> SequenceFilter" where
  "remove_expired hash_iter f current_time cap =
     (if length (windows f) \<le> cap then ([], f)
      else
        let expired = map (\<lambda>(seq_id, w). (seq_id, newest_time w))
              (filter (\<lambda>(_, w). time_diff current_time (newest_time w) > MAX_PAST_TICKS)
                 (hash_iter (windows f)));
            expired = rev (sort_key (\<lambda>(_, t). time_diff current_time t) expired);
            remove_count = min (length expired) (length (windows f) - cap);
            expired = take remove_count expired
        in (map fst expired,
            f\<lparr>windows := fold (\<lambda>(seq_id, _). AList.delete seq_id) expired (windows f)\<rparr>))"

definition next_expiry_delay_ms :: "SequenceFilter \<Rightarrow> u32 \<Rightarrow> usize \<Rightarrow> u64 option" where
  "next_expiry_delay_ms f current_time cap =
     (if length (windows f) \<le> cap then None
      else
        let delays = map (\<lambda>(_, w).
              let age = time_diff current_time (newest_time w)
              in push_bit TS_SHIFT (word_of_int (max (MAX_PAST_TICKS + 1 - age) 0) :: u64))
              (windows f)
        in (case delays of [] \<Rightarrow> None | d # ds \<Rightarrow> Some (fold min ds d)))"

subsection \<open>The abstract window\<close>

text \<open>
  A bitmap read as a set of ring positions, and a window read as its newest number together with
  the accepted numbers it still remembers.
\<close>

definition bitmap_get :: "u64 list \<Rightarrow> nat \<Rightarrow> bool" where
  "bitmap_get bm p = bit (bm ! (p div 64)) (p mod 64)"

definition ring_range :: "nat \<Rightarrow> nat \<Rightarrow> nat \<Rightarrow> bool" where
  "ring_range b k p \<longleftrightarrow> (p + 2 ^ 20 - b) mod 2 ^ 20 < k"

definition ring_cleared :: "u64 list \<Rightarrow> u64 list \<Rightarrow> nat \<Rightarrow> nat \<Rightarrow> bool" where
  "ring_cleared bm bm' b k \<longleftrightarrow> length bm' = length bm \<and>
     (\<forall>p < 2 ^ 20. bitmap_get bm' p \<longleftrightarrow> bitmap_get bm p \<and> \<not> ring_range b k p)"

definition window_inv :: "SequenceWindow \<Rightarrow> bool" where
  "window_inv w \<longleftrightarrow> length (bitmap w) = WINDOW_WORDS"

definition window_abs :: "SequenceWindow \<Rightarrow> nat \<times> nat set" where
  "window_abs w = (unat (max_seq_no w),
     {n. n \<le> unat (max_seq_no w) \<and> unat (max_seq_no w) < n + 2 ^ 20 \<and>
         bitmap_get (bitmap w) (n mod 2 ^ 20)})"

fun spec_insert :: "nat \<times> nat set \<Rightarrow> nat \<Rightarrow> (nat \<times> nat set) option" where
  "spec_insert (m, S) n =
     (if n \<le> m \<and> (n + 2 ^ 20 \<le> m \<or> n \<in> S) then None
      else Some (max m n, {k \<in> insert n S. max m n < k + 2 ^ 20}))"

subsection \<open>Runs of the filter\<close>

text \<open>
  The filter driven by a clock of unbounded ticks: \<open>tick_time\<close> is the 26-bit time the code
  computes from a tick, \<open>at_tick t a\<close> says that the wire time \<open>t\<close> denotes tick \<open>a\<close> modulo the
  cycle.  A step accepts a packet stamp or expires windows.  A stamp is blocked when its tick has
  left the freshness range, or when its sender's window refuses its number and that window cannot
  expire before the stamp does.  A schedule has a non-decreasing clock and spans less than half a
  time cycle (398 days).
\<close>

definition at_tick :: "u32 \<Rightarrow> int \<Rightarrow> bool" where
  "at_tick x a \<longleftrightarrow> uint x mod 2 ^ 26 = a mod 2 ^ 26"

datatype filter_op =
    Check int u32 u64 u64
  | Expire int usize "window_table \<Rightarrow> window_table"

definition tick_time :: "int \<Rightarrow> u32" where
  "tick_time a = word_of_int a AND TIME_MASK"

fun filter_step :: "int \<times> SequenceFilter \<Rightarrow> filter_op \<Rightarrow>
    ((u32 \<times> u64 \<times> u64) option \<times> int \<times> SequenceFilter) run" where
  "filter_step (_, f) (Check now packet_time seq_id seq_no) = do {
     r \<leftarrow> check_and_insert f (tick_time now) packet_time seq_id seq_no;
     (case r of
        Inl d \<Rightarrow> Some (None, now, f)
      | Inr f' \<Rightarrow> Some (Some (packet_time, seq_id, seq_no), now, f'))
   }"
| "filter_step (_, f) (Expire now cap hash_iter) =
     Some (None, now, snd (remove_expired hash_iter f (tick_time now) cap))"

fun filter_adm :: "int \<Rightarrow> int \<times> SequenceFilter \<Rightarrow> filter_op \<Rightarrow> bool" where
  "filter_adm start (clock, f) (Check now packet_time seq_id seq_no) \<longleftrightarrow>
     clock \<le> now \<and> now - start + 704 < 2 ^ 25"
| "filter_adm start (clock, f) (Expire now cap hash_iter) \<longleftrightarrow>
     clock \<le> now \<and> now - start + 704 < 2 ^ 25 \<and> mset (hash_iter (windows f)) = mset (windows f)"

definition newest_in :: "int \<Rightarrow> int \<Rightarrow> SequenceWindow \<Rightarrow> bool" where
  "newest_in lo hi w \<longleftrightarrow> (\<exists>n. at_tick (newest_time w) n \<and> lo \<le> n \<and> n \<le> hi)"

fun filter_inv :: "int \<Rightarrow> int \<times> SequenceFilter \<Rightarrow> bool" where
  "filter_inv start (clock, f) \<longleftrightarrow> start \<le> clock \<and> distinct (map fst (windows f)) \<and>
     (\<forall>(seq_id, w) \<in> set (windows f). window_inv w \<and> newest_in (start - 645) (clock + 59) w)"

definition window_blocks :: "SequenceWindow \<Rightarrow> u64 \<Rightarrow> bool" where
  "window_blocks w seq_no \<longleftrightarrow> spec_insert (window_abs w) (unat seq_no) = None"

fun filter_blocked :: "int \<Rightarrow> int \<times> SequenceFilter \<Rightarrow> u32 \<times> u64 \<times> u64 \<Rightarrow> bool" where
  "filter_blocked start (clock, f) (packet_time, seq_id, seq_no) \<longleftrightarrow>
     (\<exists>p. at_tick packet_time p \<and> start - 645 \<le> p \<and> p \<le> clock + 59 \<and>
       (p + 645 < clock \<or>
        (\<exists>w. map_of (windows f) seq_id = Some w \<and> window_blocks w seq_no \<and>
             newest_in p (clock + 59) w)))"

fun window_step :: "SequenceWindow \<Rightarrow> u64 \<times> u32 \<Rightarrow> (u64 option \<times> SequenceWindow) run" where
  "window_step w (seq_no, t) = do {
     r \<leftarrow> window_insert w seq_no t;
     (case r of Inl d \<Rightarrow> Some (None, w) | Inr w' \<Rightarrow> Some (Some seq_no, w'))
   }"

fun op_tick :: "filter_op \<Rightarrow> int" where
  "op_tick (Check now t i n) = now"
| "op_tick (Expire now cap hash_iter) = now"

fun schedule_ok :: "int \<Rightarrow> int \<Rightarrow> filter_op list \<Rightarrow> bool" where
  "schedule_ok start clock [] \<longleftrightarrow> True"
| "schedule_ok start clock (x # xs) \<longleftrightarrow>
     clock \<le> op_tick x \<and> op_tick x - start + 704 < 2 ^ 25 \<and>
     (case x of Check _ _ _ _ \<Rightarrow> True | Expire _ _ hash_iter \<Rightarrow> \<forall>m. mset (hash_iter m) = mset m) \<and>
     schedule_ok start (op_tick x) xs"

definition window_expired :: "u32 \<Rightarrow> u64 \<times> SequenceWindow \<Rightarrow> bool" where
  "window_expired now = (\<lambda>(_, w). time_diff now (newest_time w) > MAX_PAST_TICKS)"

definition filter_ok :: "SequenceFilter \<Rightarrow> bool" where
  "filter_ok f \<longleftrightarrow> distinct (map fst (windows f)) \<and> (\<forall>(seq_id, w) \<in> set (windows f). window_inv w)"

subsection \<open>Positions of the ring\<close>

lemma WINDOW_WORDS_val: "WINDOW_WORDS = 16384"
  by (simp add: WINDOW_WORDS_def WINDOW_BITS_def)

lemma ring_mask: "unat (w AND (WINDOW_BITS - 1)) = unat w mod 2 ^ 20"
proof -
  have "WINDOW_BITS - 1 = mask 20" by (simp add: WINDOW_BITS_def mask_eq_decr_exp)
  then show ?thesis
    by (simp add: unsigned_take_bit_eq flip: take_bit_eq_mask) (simp add: take_bit_eq_mod)
qed

lemma ring_step:
  "unat b < 2 ^ 20 \<Longrightarrow> k \<le> 64 \<Longrightarrow>
     unat ((b + word_of_nat k) AND (WINDOW_BITS - 1)) = (unat b + k) mod 2 ^ 20"
  by (simp add: ring_mask unat_word_ariths unsigned_of_nat take_bit_eq_mod mod_simps)

lemma seq_bit_mod: "seq_bit n = unat n mod 2 ^ 20"
  by (simp add: seq_bit_def ring_mask unsigned_ucast_eq take_bit_eq_mod mod_mod_cancel)

lemma nat_and_63: "(n :: nat) AND 63 = n mod 64"
proof -
  have "(63 :: nat) = mask 6" by (simp add: mask_eq_exp_minus_1)
  then have "n AND 63 = take_bit 6 n" by (simp only: take_bit_eq_mask)
  then show ?thesis by (simp add: take_bit_eq_mod)
qed

lemma nat_drop_6: "drop_bit 6 (n :: nat) = n div 64"
  by (simp add: drop_bit_eq_div)

lemma ring_range_alt:
  "b < 2 ^ 20 \<Longrightarrow> p < 2 ^ 20 \<Longrightarrow>
     ring_range b k p \<longleftrightarrow> (if b \<le> p then p < b + k else p + 2 ^ 20 < b + k)"
  unfolding ring_range_def by (auto simp: mod_if)

lemma ring_range_add:
  assumes "k1 + k2 \<le> 2 ^ 20" and "b < 2 ^ 20" and "p < 2 ^ 20"
  shows "ring_range b (k1 + k2) p \<longleftrightarrow> ring_range b k1 p \<or> ring_range ((b + k1) mod 2 ^ 20) k2 p"
proof -
  have "(b + k1) mod 2 ^ 20 = (if b + k1 < 2 ^ 20 then b + k1 else b + k1 - 2 ^ 20)"
    using assms by (auto simp: mod_if)
  with assms show ?thesis by (auto simp: ring_range_alt)
qed

lemma ring_range_0 [simp]: "\<not> ring_range b 0 p"
  by (simp add: ring_range_def)

lemma ring_range_1:
  "b < 2 ^ 20 \<Longrightarrow> p < 2 ^ 20 \<Longrightarrow> ring_range b 1 p \<longleftrightarrow> p = b"
  by (auto simp: ring_range_alt)

lemma ring_cleared_refl [simp]: "ring_cleared bm bm b 0"
  by (simp add: ring_cleared_def)

lemma ring_cleared_length: "ring_cleared bm bm' b k \<Longrightarrow> length bm' = length bm"
  by (simp add: ring_cleared_def)

lemma ring_cleared_trans:
  assumes "ring_cleared bm bm1 b k1" and "ring_cleared bm1 bm2 ((b + k1) mod 2 ^ 20) k2"
    and "k1 + k2 \<le> 2 ^ 20" and "b < 2 ^ 20"
  shows "ring_cleared bm bm2 b (k1 + k2)"
  using assms by (auto simp: ring_cleared_def ring_range_add)

lemma clear_bit_spec:
  assumes "length bm = WINDOW_WORDS" and "unat b < 2 ^ 20"
  shows "\<exists>bm'. clear_bit bm b = Some bm' \<and> ring_cleared bm bm' (unat b) 1"
proof -
  have lt: "unat b div 64 < length bm" using assms by (simp add: WINDOW_WORDS_val)
  let ?bm' = "bm[unat b div 64 := bm ! (unat b div 64) AND NOT (push_bit (unat b mod 64) 1)]"
  have "bitmap_get ?bm' p \<longleftrightarrow> bitmap_get bm p \<and> p \<noteq> unat b" if "p < 2 ^ 20" for p
  proof (cases "p div 64 = unat b div 64")
    case True
    then have "p = unat b \<longleftrightarrow> p mod 64 = unat b mod 64" by (metis div_mult_mod_eq)
    with True lt show ?thesis by (auto simp: bitmap_get_def bit_simps)
  next
    case False
    then show ?thesis by (auto simp: bitmap_get_def)
  qed
  with assms(2) have "ring_cleared bm ?bm' (unat b) 1"
    by (auto simp: ring_cleared_def ring_range_1 simp del: One_nat_def)
  with lt show ?thesis by (simp add: clear_bit_def run_simps nat_and_63 nat_drop_6)
qed

lemma clear_word_spec:
  assumes "length bm = WINDOW_WORDS" and "unat b < 2 ^ 20" and "unat b mod 64 = 0"
  shows "\<exists>bm'. update_run bm (drop_bit 6 (unat b)) (\<lambda>_. 0) = Some bm' \<and> ring_cleared bm bm' (unat b) 64"
proof -
  have lt: "unat b div 64 < length bm" using assms by (simp add: WINDOW_WORDS_val)
  let ?bm' = "bm[unat b div 64 := 0]"
  have "bitmap_get ?bm' p \<longleftrightarrow> bitmap_get bm p \<and> \<not> ring_range (unat b) 64 p" if "p < 2 ^ 20" for p
  proof -
    obtain q where q: "unat b = 64 * q" using assms(3) by (metis mod_0_imp_dvd dvdE)
    then have "q < 16384" using assms(2) by simp
    then have "ring_range (unat b) 64 p \<longleftrightarrow> 64 * q \<le> p \<and> p < 64 * q + 64"
      using that assms(2) by (auto simp: ring_range_alt q)
    also have "\<dots> \<longleftrightarrow> p div 64 = unat b div 64" unfolding q by auto
    finally show ?thesis using lt by (auto simp: bitmap_get_def)
  qed
  then have "ring_cleared bm ?bm' (unat b) 64" by (simp add: ring_cleared_def)
  with lt show ?thesis by (simp add: run_simps nat_drop_6)
qed

lemma ring_cleared_step:
  assumes "ring_cleared bm bm1 (unat b) j" and "ring_cleared bm1 bm2 (unat c) k"
    and "unat c = (unat b + j) mod 2 ^ 20" and "j + k \<le> 2 ^ 20" and "unat b < 2 ^ 20"
  shows "ring_cleared bm bm2 (unat b) (j + k)"
  using assms by (metis ring_cleared_trans)

lemma clear_head_spec:
  assumes "length bm = WINDOW_WORDS" and "unat b < 2 ^ 20" and "unat r \<le> 2 ^ 20"
  obtains bm' b' r' k where "clear_head bm b r = Some (bm', b', r')" "unat r = k + unat r'"
    "unat b' = (unat b + k) mod 2 ^ 20" "ring_cleared bm bm' (unat b) k"
    "r' = 0 \<or> unat b' mod 64 = 0"
  using assms
proof (induction bm b r arbitrary: thesis rule: clear_head.induct)
  case (1 bm b r)
  show ?case
  proof (cases "r \<noteq> 0 \<and> b AND 63 \<noteq> 0")
    case True
    let ?b = "(b + 1) AND (WINDOW_BITS - 1)"
    obtain bm1 where bm1: "clear_bit bm b = Some bm1" "ring_cleared bm bm1 (unat b) 1"
      using clear_bit_spec 1 by blast
    have b: "unat ?b = (unat b + 1) mod 2 ^ 20" using ring_step [of b 1] 1 by simp
    have r: "unat r = 1 + unat (r - 1)"
      using True by (auto simp: unat_minus_one unat_gt_0)
    have pre: "length bm1 = WINDOW_WORDS" "unat ?b < 2 ^ 20" "unat (r - 1) \<le> 2 ^ 20"
      using ring_cleared_length [OF bm1(2)] "1.prems" r b by simp_all
    obtain bm' b' r' k where IH: "clear_head bm1 ?b (r - 1) = Some (bm', b', r')"
      "unat (r - 1) = k + unat r'" "unat b' = (unat ?b + k) mod 2 ^ 20"
      "ring_cleared bm1 bm' (unat ?b) k" "r' = 0 \<or> unat b' mod 64 = 0"
      by (rule "1.IH" [OF True bm1(1) _ pre])
    show ?thesis
    proof (rule "1.prems"(1) [of bm' b' r' "1 + k"])
      show "ring_cleared bm bm' (unat b) (1 + k)"
        using ring_cleared_step [OF bm1(2) IH(4) b] "1.prems" r IH(2) by simp
      show "unat b' = (unat b + (1 + k)) mod 2 ^ 20"
        using IH(3) b by (simp add: mod_simps)
    qed (use True bm1 IH r in \<open>simp_all add: clear_head.simps [of bm b r]\<close>)
  next
    case False
    have "(63 :: u32) = mask 6" by (simp add: mask_eq_decr_exp)
    then have "unat (b AND 63) = unat b mod 64"
      by (simp only: unsigned_take_bit_eq flip: take_bit_eq_mask) (simp add: take_bit_eq_mod)
    with False 1 show ?thesis by (intro "1.prems"(1) [of bm b r 0]) (auto simp: clear_head.simps [of bm b r])
  qed
qed

lemma clear_words_spec:
  assumes "length bm = WINDOW_WORDS" and "unat b < 2 ^ 20" and "unat r \<le> 2 ^ 20"
    and "r = 0 \<or> unat b mod 64 = 0"
  obtains bm' b' r' k where "clear_words bm b r = Some (bm', b', r')" "unat r = k + unat r'"
    "unat b' = (unat b + k) mod 2 ^ 20" "ring_cleared bm bm' (unat b) k"
  using assms
proof (induction bm b r arbitrary: thesis rule: clear_words.induct)
  case (1 bm b r)
  show ?case
  proof (cases "64 \<le> r")
    case True
    let ?b = "(b + 64) AND (WINDOW_BITS - 1)"
    have r: "unat r = 64 + unat (r - 64)"
      using True by (auto simp: word_le_nat_alt unat_sub)
    then have al: "unat b mod 64 = 0" using "1.prems" by auto
    obtain bm1 where bm1: "update_run bm (drop_bit 6 (unat b)) (\<lambda>_. 0) = Some bm1"
      "ring_cleared bm bm1 (unat b) 64"
      using clear_word_spec [of bm b] 1 al by blast
    have b: "unat ?b = (unat b + 64) mod 2 ^ 20" using ring_step [of b 64] 1 by simp
    have pre: "length bm1 = WINDOW_WORDS" "unat ?b < 2 ^ 20" "unat (r - 64) \<le> 2 ^ 20"
      using ring_cleared_length [OF bm1(2)] "1.prems" r b by simp_all
    have al': "r - 64 = 0 \<or> unat ?b mod 64 = 0"
      unfolding b using al by (simp add: mod_mod_cancel mod_add_eq)
    obtain bm' b' r' k where IH: "clear_words bm1 ?b (r - 64) = Some (bm', b', r')"
      "unat (r - 64) = k + unat r'" "unat b' = (unat ?b + k) mod 2 ^ 20"
      "ring_cleared bm1 bm' (unat ?b) k"
      by (rule "1.IH" [OF True bm1(1) _ pre al'])
    show ?thesis
    proof (rule "1.prems"(1) [of bm' b' r' "64 + k"])
      show "ring_cleared bm bm' (unat b) (64 + k)"
        using ring_cleared_step [OF bm1(2) IH(4) b] "1.prems" r IH(2) by simp
      show "unat b' = (unat b + (64 + k)) mod 2 ^ 20"
        using IH(3) b by (simp add: mod_simps add.assoc)
    qed (use True bm1 IH r in \<open>simp_all add: clear_words.simps [of bm b r]\<close>)
  next
    case False
    with 1 show ?thesis by (intro "1.prems"(1) [of bm b r 0]) (auto simp: clear_words.simps [of bm b r])
  qed
qed

lemma clear_tail_spec:
  assumes "length bm = WINDOW_WORDS" and "unat b < 2 ^ 20" and "unat r \<le> 2 ^ 20"
  shows "\<exists>bm'. clear_tail bm b r = Some bm' \<and> ring_cleared bm bm' (unat b) (unat r)"
  using assms
proof (induction bm b r rule: clear_tail.induct)
  case (1 bm b r)
  show ?case
  proof (cases "r \<noteq> 0")
    case True
    let ?b = "(b + 1) AND (WINDOW_BITS - 1)"
    obtain bm1 where bm1: "clear_bit bm b = Some bm1" "ring_cleared bm bm1 (unat b) 1"
      using clear_bit_spec 1 by blast
    have b: "unat ?b = (unat b + 1) mod 2 ^ 20" using ring_step [of b 1] 1 by simp
    have r: "unat r = 1 + unat (r - 1)" using True by (auto simp: unat_minus_one unat_gt_0)
    have pre: "length bm1 = WINDOW_WORDS" "unat ?b < 2 ^ 20" "unat (r - 1) \<le> 2 ^ 20"
      using ring_cleared_length [OF bm1(2)] "1.prems" r b by simp_all
    obtain bm' where IH: "clear_tail bm1 ?b (r - 1) = Some bm'"
      "ring_cleared bm1 bm' (unat ?b) (unat (r - 1))"
      using "1.IH" [OF True bm1(1) pre] by blast
    have "ring_cleared bm bm' (unat b) (unat r)"
      using ring_cleared_step [OF bm1(2) IH(2) b] "1.prems" r by simp
    then show ?thesis
      using True bm1 IH by (simp add: clear_tail.simps [of bm b r])
  next
    case False
    with 1 show ?thesis by (subst clear_tail.simps) auto
  qed
qed

lemma clear_after_spec:
  assumes "length bm = WINDOW_WORDS" and "unat n \<le> 2 ^ 20"
  shows "\<exists>bm'. clear_after bm old_max n = Some bm' \<and>
     ring_cleared bm bm' (unat (old_max + 1) mod 2 ^ 20) (unat n)"
proof -
  let ?b = "ucast (old_max + 1) AND (WINDOW_BITS - 1) :: u32"
  have b: "unat ?b = unat (old_max + 1) mod 2 ^ 20"
    by (simp add: ring_mask unsigned_ucast_eq take_bit_eq_mod mod_mod_cancel)
  then have lt: "unat ?b < 2 ^ 20" by simp
  obtain bm1 b1 r1 k1 where h: "clear_head bm ?b n = Some (bm1, b1, r1)" "unat n = k1 + unat r1"
    "unat b1 = (unat ?b + k1) mod 2 ^ 20" "ring_cleared bm bm1 (unat ?b) k1"
    "r1 = 0 \<or> unat b1 mod 64 = 0"
    by (rule clear_head_spec [OF assms(1) lt assms(2)])
  have p1: "length bm1 = WINDOW_WORDS" "unat b1 < 2 ^ 20" "unat r1 \<le> 2 ^ 20"
    using ring_cleared_length [OF h(4)] h(2,3) assms by simp_all
  obtain bm2 b2 r2 k2 where w: "clear_words bm1 b1 r1 = Some (bm2, b2, r2)" "unat r1 = k2 + unat r2"
    "unat b2 = (unat b1 + k2) mod 2 ^ 20" "ring_cleared bm1 bm2 (unat b1) k2"
    by (rule clear_words_spec [OF p1 h(5)])
  have p2: "length bm2 = WINDOW_WORDS" "unat b2 < 2 ^ 20" "unat r2 \<le> 2 ^ 20"
    using ring_cleared_length [OF w(4)] w(2,3) p1 by simp_all
  obtain bm3 where t: "clear_tail bm2 b2 r2 = Some bm3" "ring_cleared bm2 bm3 (unat b2) (unat r2)"
    using clear_tail_spec [OF p2] by blast
  have "ring_cleared bm1 bm3 (unat b1) (unat r1)"
    using ring_cleared_step [OF w(4) t(2) w(3)] w(2) p1 by simp
  from ring_cleared_step [OF h(4) this h(3)] h(2) assms(2) lt
  have "ring_cleared bm bm3 (unat ?b) (unat n)" by simp
  with b h(1) w(1) t(1) show ?thesis by (simp add: clear_after_def)
qed

subsection \<open>A window as the set of numbers it has accepted\<close>

lemma window_set_spec:
  assumes "length bm = WINDOW_WORDS"
  shows "\<exists>bm'. window_set bm n = Some bm' \<and> length bm' = WINDOW_WORDS \<and>
    (\<forall>p. bitmap_get bm' p \<longleftrightarrow> bitmap_get bm p \<or> p = unat n mod 2 ^ 20)"
proof -
  let ?q = "unat n mod 2 ^ 20"
  have lt: "?q div 64 < length bm" by (simp add: assms WINDOW_WORDS_val less_mult_imp_div_less)
  let ?bm' = "bm[?q div 64 := bm ! (?q div 64) OR push_bit (?q mod 64) 1]"
  have "bitmap_get ?bm' p \<longleftrightarrow> bitmap_get bm p \<or> p = ?q" for p
  proof (cases "p div 64 = ?q div 64")
    case True
    then have "p = ?q \<longleftrightarrow> p mod 64 = ?q mod 64" by (metis div_mult_mod_eq)
    moreover have "p mod 64 < 64" by simp
    ultimately show ?thesis
      using True lt by (auto simp: bitmap_get_def bit_simps simp del: mod_mod_cancel)
  next
    case False
    then show ?thesis by (auto simp: bitmap_get_def)
  qed
  with lt assms show ?thesis
    by (simp add: window_set_def run_simps nat_and_63 nat_drop_6 seq_bit_mod)
qed

lemma window_is_set_spec:
  assumes "length bm = WINDOW_WORDS"
  shows "window_is_set bm n = Some (bitmap_get bm (unat n mod 2 ^ 20))"
proof -
  let ?q = "unat n mod 2 ^ 20"
  have lt: "?q div 64 < length bm" by (simp add: assms WINDOW_WORDS_val less_mult_imp_div_less)
  have "(x :: u64) AND push_bit k 1 \<noteq> 0 \<longleftrightarrow> bit x k" if "k < 64" for x k
    using that by (simp add: push_bit_eq_mult and_exp_eq_0_iff_not_bit)
  with lt show ?thesis
    by (simp add: window_is_set_def run_simps nat_and_63 nat_drop_6 seq_bit_mod bitmap_get_def)
qed

lemma ring_range_window:
  fixes M n m :: nat
  assumes "M < n" and "n < M + 2 ^ 20" and "m \<le> n" and "n < m + 2 ^ 20"
  shows "ring_range ((M + 1) mod 2 ^ 20) (n - M) (m mod 2 ^ 20) \<longleftrightarrow> M < m"
proof -
  let ?K = "2 ^ 20 :: nat"
  let ?d = "(m mod ?K + ?K - (M + 1) mod ?K) mod ?K"
  have "int ?d = (int m mod int ?K + (int ?K - 1 - int M)) mod int ?K"
    by (simp add: of_nat_mod of_nat_diff mod_simps algebra_simps)
  also have "\<dots> = (int m + (int ?K - 1 - int M)) mod int ?K"
    by (rule mod_add_left_eq)
  also have "\<dots> = (if M < m then int m - 1 - int M else int m + (int ?K - 1 - int M))"
  proof (cases "M < m")
    case True
    have "(int m + (int ?K - 1 - int M)) mod int ?K = (int m - 1 - int M + int ?K) mod int ?K"
      by (simp add: algebra_simps)
    also have "\<dots> = (int m - 1 - int M) mod int ?K" by (rule mod_add_self2)
    also have "\<dots> = int m - 1 - int M" using True assms by (simp add: mod_pos_pos_trivial)
    finally show ?thesis using True by simp
  qed (use assms in \<open>simp add: mod_pos_pos_trivial\<close>)
  finally have "int ?d = (if M < m then int m - 1 - int M else int m + (int ?K - 1 - int M))" .
  with assms show ?thesis unfolding ring_range_def by (auto split: if_splits)
qed

lemma mod_window_eq:
  assumes "m \<le> n" and "n < m + 2 ^ 20"
  shows "m mod 2 ^ 20 = n mod 2 ^ 20 \<longleftrightarrow> m = (n :: nat)"
proof
  assume "m mod 2 ^ 20 = n mod 2 ^ 20"
  then have "2 ^ 20 dvd n - m" using assms(1) by (metis mod_eq_dvd_iff_nat)
  with assms have "n - m = 0" by (auto dest: dvd_imp_le)
  with assms(1) show "m = n" by simp
qed simp

lemma window_refresh_sel [simp]:
  "max_seq_no (window_refresh w t) = max_seq_no w" "bitmap (window_refresh w t) = bitmap w"
  by (simp_all add: window_refresh_def)

lemma window_abs_refresh [simp]:
  "window_abs (window_refresh w t) = window_abs w" "window_inv (window_refresh w t) = window_inv w"
  by (simp_all add: window_abs_def window_inv_def)

lemma unat_WINDOW_BITS: "unat (ucast WINDOW_BITS :: u64) = 2 ^ 20"
  by (simp add: WINDOW_BITS_def)

lemma window_insert_old:
  assumes inv: "window_inv w" and le: "n \<le> max_seq_no w"
  shows "if spec_insert (window_abs w) (unat n) = None then window_insert w n t = Some (Inl Replay)
    else \<exists>w'. window_insert w n t = Some (Inr w') \<and> window_inv w' \<and>
         spec_insert (window_abs w) (unat n) = Some (window_abs w')"
proof -
  let ?M = "unat (max_seq_no w)"
  have nM: "unat n \<le> ?M" using le by (simp add: word_le_nat_alt)
  have sub: "unat (max_seq_no w - n) = ?M - unat n" using le by (simp add: unat_sub)
  have far: "ucast WINDOW_BITS \<le> max_seq_no w - n \<longleftrightarrow> unat n + 2 ^ 20 \<le> ?M"
    using nM by (auto simp: word_le_nat_alt unat_WINDOW_BITS sub)
  have get: "window_is_set (bitmap w) n = Some (bitmap_get (bitmap w) (unat n mod 2 ^ 20))"
    using inv by (simp add: window_inv_def window_is_set_spec)
  obtain bm where bm: "window_set (bitmap w) n = Some bm" "length bm = WINDOW_WORDS"
    "\<And>p. bitmap_get bm p \<longleftrightarrow> bitmap_get (bitmap w) p \<or> p = unat n mod 2 ^ 20"
    using window_set_spec [of "bitmap w" n] inv by (auto simp: window_inv_def)
  show ?thesis
  proof (cases "unat n + 2 ^ 20 \<le> ?M \<or> bitmap_get (bitmap w) (unat n mod 2 ^ 20)")
    case True
    with nM far get le show ?thesis by (auto simp: window_abs_def window_insert_def)
  next
    case False
    let ?w' = "window_refresh (w\<lparr>bitmap := bm\<rparr>) t"
    have "k mod 2 ^ 20 = unat n mod 2 ^ 20 \<longleftrightarrow> k = unat n" if "k \<le> ?M" "?M < k + 2 ^ 20" for k
      using False nM that mod_window_eq [of k "unat n"] mod_window_eq [of "unat n" k] by linarith
    then have "spec_insert (window_abs w) (unat n) = Some (window_abs ?w')"
      using False nM bm(3) by (auto simp: window_abs_def max_absorb1)
    with False far get le bm(1,2) show ?thesis
      by (auto simp: window_insert_def window_inv_def)
  qed
qed

lemma window_insert_new:
  assumes inv: "window_inv w" and gt: "\<not> n \<le> max_seq_no w"
  shows "\<exists>w'. window_insert w n t = Some (Inr w') \<and> window_inv w' \<and>
         spec_insert (window_abs w) (unat n) = Some (window_abs w')"
proof -
  let ?M = "unat (max_seq_no w)"
  have Mn: "?M < unat n" using gt by (simp add: word_le_nat_alt)
  have sub: "unat (n - max_seq_no w) = unat n - ?M"
    using Mn by (simp add: unat_sub word_le_nat_alt)
  have far: "ucast WINDOW_BITS \<le> n - max_seq_no w \<longleftrightarrow> ?M + 2 ^ 20 \<le> unat n"
    using Mn by (auto simp: word_le_nat_alt unat_WINDOW_BITS sub)
  define shifted where "shifted = (if ucast WINDOW_BITS \<le> n - max_seq_no w
    then Some (replicate (length (bitmap w)) 0)
    else clear_after (bitmap w) (max_seq_no w) (ucast (n - max_seq_no w)))"
  obtain bm where bm: "shifted = Some bm" "length bm = WINDOW_WORDS"
    "\<And>k. k \<le> unat n \<Longrightarrow> unat n < k + 2 ^ 20 \<Longrightarrow>
       bitmap_get bm (k mod 2 ^ 20) \<longleftrightarrow> k \<le> ?M \<and> bitmap_get (bitmap w) (k mod 2 ^ 20)"
  proof (cases "?M + 2 ^ 20 \<le> unat n")
    case True
    then show ?thesis
      using inv far by (intro that [of "replicate (length (bitmap w)) 0"])
        (auto simp: shifted_def window_inv_def bitmap_get_def WINDOW_WORDS_val less_mult_imp_div_less)
  next
    case False
    have d: "unat (ucast (n - max_seq_no w) :: u32) = unat n - ?M"
      using False Mn sub by (simp add: unsigned_ucast_eq take_bit_nat_eq_self)
    have m1: "unat (max_seq_no w + 1) = ?M + 1"
      using Mn unsigned_less [of n, where ?'a = nat] by (simp add: unat_word_ariths)
    have "unat (ucast (n - max_seq_no w) :: u32) \<le> 2 ^ 20" using False d by simp
    then obtain bm where bm: "clear_after (bitmap w) (max_seq_no w) (ucast (n - max_seq_no w)) = Some bm"
      "ring_cleared (bitmap w) bm ((?M + 1) mod 2 ^ 20) (unat n - ?M)"
      using clear_after_spec [of "bitmap w" "ucast (n - max_seq_no w)" "max_seq_no w"] inv
      unfolding window_inv_def d m1 by blast
    then show ?thesis
      using False inv far Mn ring_range_window [of ?M "unat n"]
      by (intro that [of bm]) (auto simp: shifted_def ring_cleared_def window_inv_def)
  qed
  obtain bm' where bm': "window_set bm n = Some bm'" "length bm' = WINDOW_WORDS"
    "\<And>p. bitmap_get bm' p \<longleftrightarrow> bitmap_get bm p \<or> p = unat n mod 2 ^ 20"
    using window_set_spec [OF bm(2), of n] by blast
  let ?w' = "window_refresh (w\<lparr>bitmap := bm', max_seq_no := n\<rparr>) t"
  have "window_insert w n t = Some (Inr ?w')"
    using gt bm(1) bm'(1) by (simp add: window_insert_def Let_def flip: shifted_def)
  moreover have "spec_insert (window_abs w) (unat n) = Some (window_abs ?w')"
    using Mn bm(3) bm'(3) mod_window_eq [of _ "unat n"]
    by (auto simp: window_abs_def max_absorb2)
  ultimately show ?thesis using bm'(2) by (auto simp: window_inv_def)
qed

lemma window_insert_refines:
  assumes "window_inv w"
  shows "case spec_insert (window_abs w) (unat n) of
      None \<Rightarrow> window_insert w n t = Some (Inl Replay)
    | Some a \<Rightarrow> \<exists>w'. window_insert w n t = Some (Inr w') \<and> window_inv w' \<and> window_abs w' = a"
  using window_insert_old [OF assms, of n t] window_insert_new [OF assms, of n t]
  by (cases "n \<le> max_seq_no w") (auto split: if_splits)

lemma window_new_spec:
  "\<exists>w. window_new n t = Some w \<and> window_inv w \<and> window_abs w = (unat n, {unat n}) \<and> newest_time w = t"
proof -
  obtain bm where bm: "window_set (replicate WINDOW_WORDS 0) n = Some bm" "length bm = WINDOW_WORDS"
    "\<And>p. bitmap_get bm p \<longleftrightarrow> bitmap_get (replicate WINDOW_WORDS 0) p \<or> p = unat n mod 2 ^ 20"
    using window_set_spec [of "replicate WINDOW_WORDS 0" n] by auto
  have "\<not> bitmap_get (replicate WINDOW_WORDS 0) (k mod 2 ^ 20)" for k
    by (simp add: bitmap_get_def WINDOW_WORDS_val less_mult_imp_div_less)
  then show ?thesis
    using bm mod_window_eq [of _ "unat n"]
    by (auto simp: window_new_def window_inv_def window_abs_def)
qed

subsection \<open>The filter over time\<close>

lemma uint_time_mask: "uint (w AND TIME_MASK) = uint w mod 2 ^ 26"
  by (simp only: TIME_MASK_mask take_bit_eq_mask [symmetric] unsigned_take_bit_eq)
     (simp only: take_bit_eq_mod)

lemma time_diff_int:
  "time_diff x y = (let d = (uint x - uint y) mod 2 ^ 26 in if 2 ^ 25 \<le> d then d - 2 ^ 26 else d)"
proof -
  have "uint ((x - y) AND TIME_MASK) = (uint x - uint y) mod 2 ^ 26"
    by (simp add: uint_time_mask uint_word_ariths mod_mod_cancel)
  then show ?thesis by (simp add: time_diff_def Let_def word_le_def)
qed

lemma time_diff_ticks:
  assumes "at_tick x a" "at_tick y b" "- (2 ^ 25) \<le> a - b" "a - b < 2 ^ 25"
  shows "time_diff x y = a - b"
proof -
  have "(uint x - uint y) mod 2 ^ 26 = (a - b) mod 2 ^ 26"
    using assms(1,2) unfolding at_tick_def by (metis mod_diff_eq)
  moreover have "(a - b) mod 2 ^ 26 = (if 0 \<le> a - b then a - b else a - b + 2 ^ 26)"
  proof (cases "0 \<le> a - b")
    case False
    have "(a - b) mod 2 ^ 26 = (a - b + 2 ^ 26) mod 2 ^ 26" by simp
    also have "\<dots> = a - b + 2 ^ 26" using False assms(3) by (intro mod_pos_pos_trivial) auto
    finally show ?thesis using False by simp
  qed (use assms in simp)
  ultimately show ?thesis using assms(3,4) by (simp add: time_diff_int Let_def)
qed

lemma at_tick_tick_time [simp]: "at_tick (tick_time a) a"
  by (simp add: at_tick_def tick_time_def uint_time_mask uint_word_of_int mod_mod_cancel)

lemma at_tick_back:
  assumes "at_tick x a"
  shows "at_tick y (a - time_diff x y)"
proof -
  let ?d = "(uint x - uint y) mod 2 ^ 26"
  obtain c where "time_diff x y = ?d - c * 2 ^ 26"
    by (rule that [of "if 2 ^ 25 \<le> ?d then 1 else 0"]) (simp add: time_diff_int Let_def)
  then have "a - time_diff x y = a - ?d + c * 2 ^ 26" by linarith
  then have "(a - time_diff x y) mod 2 ^ 26 = (a - ?d + c * 2 ^ 26) mod 2 ^ 26" by (rule arg_cong)
  also have "\<dots> = (a - (uint x - uint y)) mod 2 ^ 26" by (simp only: mod_mult_self1 mod_diff_right_eq)
  also have "\<dots> = (uint x - (uint x - uint y)) mod 2 ^ 26"
    using assms unfolding at_tick_def by (metis mod_diff_left_eq)
  finally show ?thesis by (simp add: at_tick_def)
qed

lemma window_blocks_accepts:
  assumes "window_inv w"
  shows "if window_blocks w n then window_insert w n t = Some (Inl Replay)
    else \<exists>w'. window_insert w n t = Some (Inr w') \<and> window_inv w' \<and> window_blocks w' n \<and>
      (\<forall>m. window_blocks w m \<longrightarrow> window_blocks w' m)"
proof -
  obtain M S where a: "window_abs w = (M, S)" by fastforce
  show ?thesis
    using window_insert_refines [OF assms, of n t] unfolding window_blocks_def a
    by (auto split: if_splits)
qed

lemma window_insert_newest:
  assumes "window_insert w n t = Some (Inr w')"
  shows "newest_time w' = (if time_diff t (newest_time w) > 0 then t else newest_time w)"
  using assms by (auto simp: window_insert_def window_refresh_def Let_def
      split: if_splits Option.bind_splits)

lemma newest_in_insert:
  assumes "window_insert w n t = Some (Inr w')" and "newest_in lo hi w" and "at_tick t p"
    and "p \<le> hi" and "lo' \<le> p" and "hi - lo < 2 ^ 25" and "hi - lo' < 2 ^ 25"
  shows "newest_in (max p lo) hi w'"
proof -
  from assms(2) obtain n where n: "at_tick (newest_time w) n" "lo \<le> n" "n \<le> hi"
    by (auto simp: newest_in_def)
  then have "time_diff t (newest_time w) = p - n"
    using assms by (intro time_diff_ticks) auto
  with window_insert_newest [OF assms(1)] n assms(3,4) show ?thesis
    unfolding newest_in_def
    by (intro exI [of _ "max n p"]) (auto simp: max_def)
qed

lemma newest_in_mono: "newest_in lo hi w \<Longrightarrow> lo' \<le> lo \<Longrightarrow> hi \<le> hi' \<Longrightarrow> newest_in lo' hi' w"
  unfolding newest_in_def by force

lemma fold_delete_filter:
  "fold (\<lambda>(k, _). AList.delete k) xs m = filter (\<lambda>(k, _). k \<notin> fst ` set xs) m"
proof (induction xs arbitrary: m)
  case (Cons x xs)
  then show ?case by (auto simp: AList.delete_eq split_def intro!: filter_cong)
qed simp

lemma remove_expired_windows:
  "windows (snd (remove_expired hash_iter f now cap)) =
     filter (\<lambda>(k, _). k \<notin> set (fst (remove_expired hash_iter f now cap))) (windows f)"
  by (simp add: remove_expired_def Let_def fold_delete_filter)

lemma remove_expired_only:
  assumes "mset (hash_iter (windows f)) = mset (windows f)"
    and "k \<in> set (fst (remove_expired hash_iter f now cap))"
  shows "\<exists>w. (k, w) \<in> set (windows f) \<and> time_diff now (newest_time w) > 645"
proof -
  have "set (hash_iter (windows f)) = set (windows f)" using assms(1) by (metis set_mset_mset)
  with assms(2) show ?thesis
    by (auto simp: remove_expired_def Let_def split: if_splits dest!: in_set_takeD)
qed

lemma check_and_insert_cases:
  assumes "filter_inv start (clock, f)" and "filter_adm start (clock, f) (Check now t seq_id seq_no)"
  obtains (stale) "check_and_insert f (tick_time now) t seq_id seq_no = Some (Inl Freshness)"
  | (replayed) w where "map_of (windows f) seq_id = Some w" "window_blocks w seq_no"
      "check_and_insert f (tick_time now) t seq_id seq_no = Some (Inl Replay)"
  | (fresh) p w where "check_and_insert f (tick_time now) t seq_id seq_no =
        Some (Inr (f\<lparr>windows := AList.update seq_id w (windows f)\<rparr>))"
      "at_tick t p" "now - 645 \<le> p" "p \<le> now + 59"
      "window_inv w" "window_blocks w seq_no" "newest_in p (now + 59) w"
      "\<And>v. map_of (windows f) seq_id = Some v \<Longrightarrow> \<not> window_blocks v seq_no \<and>
         (\<forall>m. window_blocks v m \<longrightarrow> window_blocks w m) \<and>
         (\<forall>lo \<ge> start - 645. newest_in lo (clock + 59) v \<longrightarrow> newest_in lo (now + 59) w)"
proof -
  let ?age = "time_diff (tick_time now) t"
  define p where "p = now - ?age"
  have p: "at_tick t p" unfolding p_def by (rule at_tick_back) simp
  have adm: "clock \<le> now" "now - start + 704 < 2 ^ 25" "start \<le> clock" using assms by simp_all
  show thesis
  proof (cases "?age > 645 \<or> ?age < - 59")
    case True
    then show thesis by (intro stale) (auto simp: check_and_insert_def)
  next
    case False
    then have pb: "now - 645 \<le> p" "p \<le> now + 59" by (simp_all add: p_def)
    show thesis
    proof (cases "map_of (windows f) seq_id")
      case None
      obtain w where w: "window_new seq_no t = Some w" "window_inv w"
        "window_abs w = (unat seq_no, {unat seq_no})" "newest_time w = t"
        using window_new_spec by blast
      with False None p pb show thesis
        by (intro fresh [of w p])
           (auto simp: check_and_insert_def window_blocks_def newest_in_def Let_def)
    next
      case (Some v)
      then have v: "window_inv v" "newest_in (start - 645) (clock + 59) v"
        using assms(1) by (auto dest: map_of_SomeD)
      show thesis
      proof (cases "window_blocks v seq_no")
        case True
        with window_blocks_accepts [OF v(1), of seq_no t] Some False show thesis
          by (intro replayed [of v]) (simp_all add: check_and_insert_def Let_def)
      next
        case nb: False
        with window_blocks_accepts [OF v(1), of seq_no t] obtain w
          where w: "window_insert v seq_no t = Some (Inr w)" "window_inv w" "window_blocks w seq_no"
            "\<And>m. window_blocks v m \<Longrightarrow> window_blocks w m" by auto
        have new: "newest_in (max p lo) (now + 59) w"
          if "newest_in lo (clock + 59) v" "start - 645 \<le> lo" for lo
          using that adm pb newest_in_mono [OF that(1), of lo "now + 59"]
          by (intro newest_in_insert [OF w(1) _ p pb(2) pb(1)]) auto
        have "newest_in p (now + 59) w" using newest_in_mono [OF new [OF v(2)], of p "now + 59"] by simp
        moreover have "newest_in lo (now + 59) w"
          if "newest_in lo (clock + 59) v" "start - 645 \<le> lo" for lo
          using newest_in_mono [OF new [OF that], of lo "now + 59"] by simp
        ultimately show thesis
          using Some False nb w p pb
          by (intro fresh [of w p]) (auto simp: check_and_insert_def Let_def)
      qed
    qed
  qed
qed

lemma set_alist_update: "set (AList.update k w xs) \<subseteq> insert (k, w) (set xs)"
  by (induction xs) auto

lemma filter_inv_update:
  assumes "filter_inv start (clock, f)" and "clock \<le> now" and "window_inv w"
    and "newest_in (start - 645) (now + 59) w"
  shows "filter_inv start (now, f\<lparr>windows := AList.update k w (windows f)\<rparr>)"
proof -
  have "distinct (map fst (AList.update k w (windows f)))"
    using assms(1) by (simp add: distinct_update)
  then show ?thesis
    using assms set_alist_update [of k w "windows f"] by (fastforce elim!: newest_in_mono)
qed

lemma filter_inv_expire:
  assumes "filter_inv start (clock, f)" and "clock \<le> now"
  shows "filter_inv start (now, snd (remove_expired hash_iter f t cap))"
  using assms
  by (fastforce simp: remove_expired_windows distinct_map_filter split_def intro: newest_in_mono)

lemma filter_expire_blocked:
  assumes inv: "filter_inv start (clock, f)" and adm: "filter_adm start (clock, f) (Expire now cap hash_iter)"
    and b: "filter_blocked start (clock, f) (t, seq_id, seq_no)"
  shows "filter_blocked start (now, snd (remove_expired hash_iter f (tick_time now) cap)) (t, seq_id, seq_no)"
proof -
  let ?r = "remove_expired hash_iter f (tick_time now) cap"
  from b obtain p where p: "at_tick t p" "start - 645 \<le> p" "p \<le> clock + 59" and
    alt: "p + 645 < clock \<or> (\<exists>w. map_of (windows f) seq_id = Some w \<and> window_blocks w seq_no \<and>
            newest_in p (clock + 59) w)" by auto
  show ?thesis
  proof (cases "p + 645 < now")
    case True
    with p adm show ?thesis by auto
  next
    case False
    with alt adm obtain w where w: "map_of (windows f) seq_id = Some w" "window_blocks w seq_no"
      "newest_in p (clock + 59) w" by auto
    from w(3) obtain n where n: "at_tick (newest_time w) n" "p \<le> n" "n \<le> clock + 59"
      by (auto simp: newest_in_def)
    have "time_diff (tick_time now) (newest_time w) = now - n"
      using n p adm by (intro time_diff_ticks) auto
    then have "\<not> time_diff (tick_time now) (newest_time w) > 645" using False n by simp
    then have "seq_id \<notin> set (fst ?r)"
      using w(1) inv adm remove_expired_only [of hash_iter f seq_id "tick_time now" cap]
      by (auto dest: eq_key_imp_eq_value dest!: map_of_SomeD)
    then have "map_of (windows (snd ?r)) seq_id = Some w"
      using w(1) inv by (simp add: remove_expired_windows distinct_map_filter split_def)
    with p w(2) newest_in_mono [OF w(3), of p "now + 59"] adm show ?thesis by auto
  qed
qed

lemma window_step_all:
  assumes "window_inv w"
  shows "\<exists>r w'. window_step w x = Some (r, w') \<and> window_inv w' \<and>
    (\<forall>j. window_blocks w j \<longrightarrow> window_blocks w' j) \<and>
    (\<forall>k. r = Some k \<longrightarrow> \<not> window_blocks w k \<and> window_blocks w' k)"
  using assms window_blocks_accepts [of w "fst x" "snd x"]
  by (cases x) (auto split: if_splits)

interpretation sw: once_only window_step window_inv "\<lambda>_ _. True" window_blocks
  by (rule once_onlyI) (rule window_step_all)

lemma filter_blocked_update:
  assumes "filter_blocked start (clock, f) (t', i', n')" and "clock \<le> now"
    and "\<And>v. map_of (windows f) i = Some v \<Longrightarrow>
         (\<forall>m. window_blocks v m \<longrightarrow> window_blocks w m) \<and>
         (\<forall>lo \<ge> start - 645. newest_in lo (clock + 59) v \<longrightarrow> newest_in lo (now + 59) w)"
  shows "filter_blocked start (now, f\<lparr>windows := AList.update i w (windows f)\<rparr>) (t', i', n')"
proof -
  from assms(1) obtain p where p: "at_tick t' p" "start - 645 \<le> p" "p \<le> clock + 59" and
    alt: "p + 645 < clock \<or> (\<exists>w. map_of (windows f) i' = Some w \<and> window_blocks w n' \<and>
            newest_in p (clock + 59) w)" by auto
  have "p + 645 < now \<or> (\<exists>u. map_of (AList.update i w (windows f)) i' = Some u \<and> window_blocks u n' \<and>
            newest_in p (now + 59) u)"
  proof (cases "p + 645 < clock")
    case True
    with assms(2) show ?thesis by simp
  next
    case False
    with alt obtain v where "map_of (windows f) i' = Some v" "window_blocks v n'"
      "newest_in p (clock + 59) v" by blast
    with assms(2,3) p(2) show ?thesis
      by (cases "i' = i") (auto simp: update_conv' intro: newest_in_mono)
  qed
  with p assms(2) show ?thesis by auto
qed

lemma filter_blocked_reject:
  assumes "filter_blocked start (clock, f) (t, i, n)" "at_tick t p" "now - 645 \<le> p" "p \<le> now + 59"
    and "start \<le> clock" "clock \<le> now" "now - start + 704 < 2 ^ 25"
  shows "\<exists>v. map_of (windows f) i = Some v \<and> window_blocks v n"
proof -
  from assms(1) obtain q where q: "at_tick t q" "start - 645 \<le> q" "q \<le> clock + 59"
    "q + 645 < clock \<or> (\<exists>w. map_of (windows f) i = Some w \<and> window_blocks w n \<and>
            newest_in q (clock + 59) w)" by auto
  have "p - q = time_diff t t" using assms q by (intro time_diff_ticks [symmetric]) auto
  then have "p = q" by (simp add: time_diff_int)
  with q assms show ?thesis by auto
qed

lemma filter_step_check:
  assumes inv: "filter_inv start (clock, f)" and adm: "filter_adm start (clock, f) (Check now t i n)"
  shows "\<exists>r f'. filter_step (clock, f) (Check now t i n) = Some (r, now, f') \<and>
    filter_inv start (now, f') \<and>
    (\<forall>j. filter_blocked start (clock, f) j \<longrightarrow> filter_blocked start (now, f') j) \<and>
    (\<forall>k. r = Some k \<longrightarrow> k = (t, i, n) \<and> \<not> filter_blocked start (clock, f) k \<and> filter_blocked start (now, f') k)"
proof -
  have later: "filter_inv start (now, f)" "filter_blocked start (clock, f) j \<Longrightarrow> filter_blocked start (now, f) j"
    for j
    using inv adm by (cases j; fastforce intro: newest_in_mono)+
  show ?thesis
    using inv adm
  proof (cases rule: check_and_insert_cases)
    case stale
    with later show ?thesis by (simp del: filter_inv.simps filter_blocked.simps)
  next
    case (replayed w)
    with later show ?thesis by (simp del: filter_inv.simps filter_blocked.simps)
  next
    case (fresh p w)
    let ?f = "f\<lparr>windows := AList.update i w (windows f)\<rparr>"
    have adm': "clock \<le> now" "now - start + 704 < 2 ^ 25" "start \<le> clock" using adm inv by simp_all
    have "newest_in (start - 645) (now + 59) w"
      using newest_in_mono [OF fresh(7), of "start - 645"] fresh(3) adm' by simp
    then have "filter_inv start (now, ?f)"
      using filter_inv_update [OF inv adm'(1) fresh(5)] by blast
    moreover have "filter_blocked start (clock, f) j \<Longrightarrow> filter_blocked start (now, ?f) j" for j
      using filter_blocked_update [OF _ adm'(1), of start f _ _ _ i w] fresh(8) by (cases j) blast
    moreover have "\<not> filter_blocked start (clock, f) (t, i, n)"
      using filter_blocked_reject [OF _ fresh(2-4) adm'(3,1,2)] fresh(8) by blast
    moreover have "filter_blocked start (now, ?f) (t, i, n)"
      using fresh adm' by (auto simp: update_conv')
    ultimately show ?thesis
      using fresh(1) by (simp del: filter_inv.simps filter_blocked.simps)
  qed
qed

lemma filter_step_all:
  assumes "filter_inv start s" and "filter_adm start s x"
  shows "\<exists>r s'. filter_step s x = Some (r, s') \<and> filter_inv start s' \<and>
    (\<forall>j. filter_blocked start s j \<longrightarrow> filter_blocked start s' j) \<and>
    (\<forall>k. r = Some k \<longrightarrow> \<not> filter_blocked start s k \<and> filter_blocked start s' k)"
proof (cases x)
  case (Check now t i n)
  then show ?thesis
    using assms filter_step_check [of start "fst s" "snd s" now t i n] by fastforce
next
  case (Expire now cap hash_iter)
  with assms filter_inv_expire [of start "fst s" "snd s" now]
    filter_expire_blocked [of start "fst s" "snd s" now cap hash_iter]
  show ?thesis
    by (cases s) (simp del: filter_inv.simps filter_blocked.simps; auto simp del: filter_inv.simps filter_blocked.simps)
qed

interpretation sf: once_only filter_step "filter_inv start" "filter_adm start" "filter_blocked start"
  for start :: int
  by (rule once_onlyI) (rule filter_step_all)

lemma filter_step_clock: "filter_step s x = Some (r, s') \<Longrightarrow> fst s' = op_tick x"
  by (cases s; cases x) (auto split: Option.bind_splits sum.splits)

lemma schedule_admissible:
  assumes "schedule_ok start clock xs"
  shows "admissible_run (filter_adm start) filter_step (clock, f) xs"
  using assms
proof (induction xs arbitrary: clock f)
  case (Cons x xs)
  then have "filter_adm start (clock, f) x" by (cases x) auto
  moreover have "admissible_run (filter_adm start) filter_step s' xs"
    if "filter_step (clock, f) x = Some (r, s')" for r s'
    using Cons filter_step_clock [OF that] by (cases s') simp
  ultimately show ?case by (auto split: option.splits)
qed simp

subsection \<open>Expiry\<close>

lemma remove_expired_spec:
  assumes "distinct (map fst (windows f))" and "mset (hash_iter (windows f)) = mset (windows f)"
    and r: "remove_expired hash_iter f now cap = (ids, f')"
  shows "windows f' = filter (\<lambda>(k, _). k \<notin> set ids) (windows f)"
    and "distinct ids"
    and "length ids = min (length (filter (window_expired now) (windows f))) (length (windows f) - cap)"
    and "set ids \<subseteq> fst ` set (filter (window_expired now) (windows f))"
    and "(k, w) \<in> set (windows f) \<Longrightarrow> k \<in> set ids \<Longrightarrow> (k', w') \<in> set (windows f') \<Longrightarrow>
      window_expired now (k', w') \<Longrightarrow> time_diff now (newest_time w') \<le> time_diff now (newest_time w)"
proof -
  define cand where "cand = map (\<lambda>(k, w). (k, newest_time w)) (filter (window_expired now) (hash_iter (windows f)))"
  define old where "old = rev (sort_key (\<lambda>(_, t). time_diff now t) cand)"
  define n where "n = length (windows f) - cap"
  have ids: "ids = map fst (take n old)"
    using r by (auto simp: remove_expired_def Let_def n_def old_def cand_def window_expired_def split_def
        take_map min_def split: if_splits)
  have perm: "mset (map fst (hash_iter (windows f))) = mset (map fst (windows f))"
    using assms(2) by simp
  have seteq: "set (hash_iter (windows f)) = set (windows f)" using assms(2) by (metis set_mset_mset)
  have "distinct (map fst (hash_iter (windows f)))"
    using perm assms(1) by (metis mset_eq_imp_distinct_iff)
  then have dc: "distinct (map fst cand)"
    by (simp add: cand_def split_def distinct_map_filter comp_def)
  have "mset (map fst old) = mset (map fst cand)" by (simp add: old_def)
  then have do': "distinct (map fst old)" using dc by (metis mset_eq_imp_distinct_iff)
  then show "distinct ids" unfolding ids by (simp add: take_map [symmetric] distinct_take)
  have len: "length old = length (filter (window_expired now) (windows f))"
    unfolding old_def cand_def using assms(2) by (simp, metis mset_filter size_mset)
  then show "length ids = min (length (filter (window_expired now) (windows f))) (length (windows f) - cap)"
    by (simp add: ids n_def min.commute)
  have setold: "set old = (\<lambda>(k, w). (k, newest_time w)) ` set (filter (window_expired now) (windows f))"
    by (simp add: old_def cand_def seteq)
  then have "fst ` set old = fst ` set (filter (window_expired now) (windows f))"
    by (force simp: image_iff)
  then show "set ids \<subseteq> fst ` set (filter (window_expired now) (windows f))"
    unfolding ids using set_take_subset [of n old] by force
  show win: "windows f' = filter (\<lambda>(k, _). k \<notin> set ids) (windows f)"
    using remove_expired_windows [of hash_iter f now cap] r by simp
  assume k: "(k, w) \<in> set (windows f)" "k \<in> set ids" and k': "(k', w') \<in> set (windows f')"
    "window_expired now (k', w')"
  from k(2) obtain t where t: "(k, t) \<in> set (take n old)" unfolding ids by auto
  then have "(k, t) \<in> set old" by (meson in_set_takeD)
  with k(1) assms(1) have tw: "t = newest_time w" unfolding setold by (auto dest: eq_key_imp_eq_value)
  have "(k', newest_time w') \<in> set old" "(k', newest_time w') \<notin> set (take n old)"
    using k' unfolding setold win ids by (auto simp: image_iff)
  then have d: "(k', newest_time w') \<in> set (drop n old)"
    by (metis append_take_drop_id in_set_conv_decomp Un_iff set_append)
  have "sorted_wrt (\<lambda>x y. time_diff now (snd y) \<le> time_diff now (snd x)) old"
    unfolding old_def sorted_wrt_rev
    using sorted_sort_key [of "\<lambda>(_, t). time_diff now t" cand]
    by (simp add: split_def sorted_map)
  then have "sorted_wrt (\<lambda>x y. time_diff now (snd y) \<le> time_diff now (snd x)) (take n old @ drop n old)"
    by simp
  with t d show "time_diff now (newest_time w') \<le> time_diff now (newest_time w)"
    unfolding sorted_wrt_append tw [symmetric] by fastforce
qed

lemma fold_min_zero: "fold min xs (a :: u64) = 0 \<longleftrightarrow> a = 0 \<or> 0 \<in> set xs"
proof (induction xs arbitrary: a)
  case (Cons x xs)
  show ?case using Cons [of "min x a"] by (auto simp: min_def)
qed simp

lemma time_diff_bounds: "- (2 ^ 25) \<le> time_diff x y" "time_diff x y < 2 ^ 25"
proof -
  have "0 \<le> (uint x - uint y) mod 2 ^ 26" "(uint x - uint y) mod 2 ^ 26 < 2 ^ 26" by simp_all
  then show "- (2 ^ 25) \<le> time_diff x y" "time_diff x y < 2 ^ 25"
    unfolding time_diff_int Let_def by (auto simp del: pos_mod_bound pos_mod_sign)
qed

lemma expiry_delay_zero:
  "push_bit TS_SHIFT (word_of_int (max (MAX_PAST_TICKS + 1 - time_diff now t) 0) :: u64) = 0
   \<longleftrightarrow> time_diff now t > MAX_PAST_TICKS"
proof -
  let ?k = "max (646 - time_diff now t) 0"
  have k: "0 \<le> ?k" "?k \<le> 646 + 2 ^ 25" using time_diff_bounds [of now t] by auto
  have "push_bit 10 (word_of_int ?k :: u64) = word_of_int (?k * 2 ^ 10)"
    by (simp add: push_bit_eq_mult)
  moreover have "uint (word_of_int (?k * 2 ^ 10) :: u64) = ?k * 2 ^ 10"
    using k by (subst uint_word_of_int_eq) (auto simp: take_bit_int_eq_self_iff)
  ultimately have "push_bit 10 (word_of_int ?k :: u64) = 0 \<longleftrightarrow> ?k = 0"
    by (metis uint_0_iff mult_eq_0_iff power_not_zero zero_neq_numeral)
  then show ?thesis by (simp add: max_def)
qed

lemma next_expiry_zero:
  "next_expiry_delay_ms f now cap = Some 0 \<longleftrightarrow>
     cap < length (windows f) \<and> (\<exists>x \<in> set (windows f). window_expired now x)"
proof (cases "length (windows f) \<le> cap")
  case False
  then obtain x xs where "windows f = x # xs" by (cases "windows f") auto
  with False show ?thesis
    by (auto simp: next_expiry_delay_ms_def Let_def fold_min_zero window_expired_def image_iff split_def
        expiry_delay_zero simp del: TS_SHIFT_def MAX_PAST_TICKS_def)
qed (simp add: next_expiry_delay_ms_def)

lemma check_freshness:
  "check_and_insert f now t i n = Some (Inl Freshness) \<longleftrightarrow>
     time_diff now t > MAX_PAST_TICKS \<or> time_diff now t < - MAX_FUTURE_TICKS"
  by (auto simp: check_and_insert_def window_insert_def Let_def
      split: option.splits Option.bind_splits if_splits)

subsection \<open>The filter as its clients use it\<close>

lemma filter_ok_update:
  "filter_ok f \<Longrightarrow> window_inv w \<Longrightarrow> filter_ok (f\<lparr>windows := AList.update i w (windows f)\<rparr>)"
  using set_alist_update [of i w "windows f"] by (auto simp: filter_ok_def distinct_update)

lemma check_and_insert_returns:
  assumes "filter_ok f"
  shows "\<exists>r. check_and_insert f now t i n = Some r \<and> (\<forall>f'. r = Inr f' \<longrightarrow> filter_ok f')"
proof (cases "map_of (windows f) i")
  case None
  obtain w where "window_new n t = Some w" "window_inv w" using window_new_spec by blast
  with None assms filter_ok_update show ?thesis
    by (simp add: check_and_insert_def Let_def)
next
  case (Some w)
  then have "window_inv w" using assms by (auto simp: filter_ok_def dest: map_of_SomeD)
  from window_blocks_accepts [OF this, of n t]
  consider "window_insert w n t = Some (Inl Replay)"
    | w' where "window_insert w n t = Some (Inr w')" "window_inv w'" by (auto split: if_splits)
  then show ?thesis
  proof cases
    case 1
    with Some show ?thesis by (simp add: check_and_insert_def Let_def)
  next
    case (2 w')
    with Some assms filter_ok_update show ?thesis
      by (simp add: check_and_insert_def Let_def)
  qed
qed

lemma filter_ok_expire: "filter_ok f \<Longrightarrow> filter_ok (snd (remove_expired h f now cap))"
  by (auto simp: filter_ok_def remove_expired_windows distinct_map_filter split_def)

lemma filter_inv_ok: "filter_inv start (clock, f) \<Longrightarrow> filter_ok f"
  by (auto simp: filter_ok_def)

lemma filter_later:
  assumes "filter_inv start (clock, f)" and "clock \<le> now"
  shows "filter_inv start (now, f)"
    and "filter_blocked start (clock, f) k \<Longrightarrow> filter_blocked start (now, f) k"
  using assms by (cases k; fastforce intro: newest_in_mono)+

lemma filter_check_expire:
  assumes inv: "filter_inv start (clock, f)" and adm: "filter_adm start (clock, f) (Check now t i n)"
    and ins: "check_and_insert f (tick_time now) t i n = Some (Inr f1)"
    and h: "\<forall>m. mset (h m) = mset m"
  shows "filter_inv start (now, snd (remove_expired h f1 (tick_time now) 0)) \<and>
    (\<forall>j. filter_blocked start (clock, f) j \<longrightarrow>
       filter_blocked start (now, snd (remove_expired h f1 (tick_time now) 0)) j) \<and>
    \<not> filter_blocked start (clock, f) (t, i, n) \<and>
    filter_blocked start (now, snd (remove_expired h f1 (tick_time now) 0)) (t, i, n)"
proof -
  from filter_step_all [OF inv adm] ins
  have 1: "filter_inv start (now, f1)" "\<And>j. filter_blocked start (clock, f) j \<Longrightarrow> filter_blocked start (now, f1) j"
    "\<not> filter_blocked start (clock, f) (t, i, n)" "filter_blocked start (now, f1) (t, i, n)"
    by (auto simp del: filter_inv.simps filter_blocked.simps)
  have "filter_adm start (now, f1) (Expire now 0 h)" using adm h by simp
  from filter_step_all [OF 1(1) this] 1 show ?thesis
    by (auto simp del: filter_inv.simps filter_blocked.simps)
qed

subsection \<open>Properties\<close>

text \<open>C2.  No replay: in every run of the filter, from empty, in which the clock does not go back
  and less than half a time cycle passes, no operation panics and no packet stamp
  (time, sender instance, sequence number) is accepted twice, whatever windows are evicted in
  between.\<close>

theorem filter_never_accepts_twice:
  assumes "schedule_ok start start xs"
  shows "\<exists>accepted s. run_steps filter_step (start, filter_default) xs = Some (accepted, s) \<and>
    distinct accepted"
proof -
  have "filter_inv start (start, filter_default)" by (simp add: filter_default_def)
  from sf.run_once [OF this schedule_admissible [OF assms]] show ?thesis by blast
qed

theorem filter_never_accepts_twice_witness:
  "\<exists>accepted s. run_steps filter_step (7, filter_default)
     [Check 7 7 1 5, Check 8 8 1 4, Expire 900 0 rev, Check 900 7 1 5] = Some (accepted, s) \<and>
    distinct accepted"
  by (rule filter_never_accepts_twice) simp

text \<open>C4.  A window refines its specification: inserting a number answers \<open>Replay\<close> exactly when the
  number was accepted before or lies more than a window behind the newest one, otherwise the new
  window holds the accepted numbers of the moved window; the bitmap accesses never panic.\<close>

theorem window_insert_refines_spec:
  assumes "window_inv w"
  shows "case spec_insert (window_abs w) (unat n) of
      None \<Rightarrow> window_insert w n t = Some (Inl Replay)
    | Some a \<Rightarrow> \<exists>w'. window_insert w n t = Some (Inr w') \<and> window_inv w' \<and> window_abs w' = a"
  using assms by (rule window_insert_refines)

theorem window_insert_refines_spec_witness:
  "case spec_insert (window_abs \<lparr>max_seq_no = 5, newest_time = 0, bitmap = replicate WINDOW_WORDS 0\<rparr>) (unat (9 :: u64)) of
      None \<Rightarrow> window_insert \<lparr>max_seq_no = 5, newest_time = 0, bitmap = replicate WINDOW_WORDS 0\<rparr> 9 3 = Some (Inl Replay)
    | Some a \<Rightarrow> \<exists>w'. window_insert \<lparr>max_seq_no = 5, newest_time = 0, bitmap = replicate WINDOW_WORDS 0\<rparr> 9 3
        = Some (Inr w') \<and> window_inv w' \<and> window_abs w' = a"
  by (rule window_insert_refines_spec) (simp add: window_inv_def)

text \<open>The freshness test: a packet is refused for freshness exactly when it is more than 645
  ticks old or more than 59 ticks ahead, in modular time.\<close>

lemma check_and_insert_freshness:
  "check_and_insert f now t i n = Some (Inl Freshness) \<longleftrightarrow>
     time_diff now t > MAX_PAST_TICKS \<or> time_diff now t < - MAX_FUTURE_TICKS"
  by (rule check_freshness)

text \<open>C11.  Eviction: with the table over its cap, \<open>remove_expired\<close> removes exactly as many windows
  as are expired, up to the excess over the cap; it removes expired windows only, each once, the
  oldest first, and keeps every other window.\<close>

theorem remove_expired_correct:
  assumes "distinct (map fst (windows f))" and "mset (hash_iter (windows f)) = mset (windows f)"
    and "remove_expired hash_iter f now cap = (ids, f')"
  shows "windows f' = filter (\<lambda>(k, _). k \<notin> set ids) (windows f) \<and> distinct ids \<and>
    length ids = min (length (filter (window_expired now) (windows f))) (length (windows f) - cap) \<and>
    set ids \<subseteq> fst ` set (filter (window_expired now) (windows f)) \<and>
    (\<forall>k w k' w'. (k, w) \<in> set (windows f) \<and> k \<in> set ids \<and> (k', w') \<in> set (windows f') \<and>
      window_expired now (k', w') \<longrightarrow> time_diff now (newest_time w') \<le> time_diff now (newest_time w))"
  using remove_expired_spec [OF assms] by blast

theorem remove_expired_correct_witness:
  "let f = \<lparr>windows = [(1, \<lparr>max_seq_no = 5, newest_time = 0, bitmap = []\<rparr>),
                       (2, \<lparr>max_seq_no = 6, newest_time = 700, bitmap = []\<rparr>)]\<rparr>;
       f' = \<lparr>windows = [(2, \<lparr>max_seq_no = 6, newest_time = 700, bitmap = []\<rparr>)]\<rparr>
   in remove_expired rev f 800 0 = ([1], f') \<and>
      length [1 :: u64] = min (length (filter (window_expired 800) (windows f))) (length (windows f) - 0)"
proof -
  have td: "time_diff 800 0 = 800" "time_diff 800 700 = 100"
    by (simp_all add: time_diff_def TIME_MASK_def)
  let ?f = "\<lparr>windows = [(1, \<lparr>max_seq_no = 5, newest_time = 0, bitmap = []\<rparr>),
                       (2, \<lparr>max_seq_no = 6, newest_time = 700, bitmap = []\<rparr>)]\<rparr> :: SequenceFilter"
  let ?f' = "\<lparr>windows = [(2, \<lparr>max_seq_no = 6, newest_time = 700, bitmap = []\<rparr>)]\<rparr> :: SequenceFilter"
  have r: "remove_expired rev ?f 800 0 = ([1], ?f')"
    by (simp add: remove_expired_def td)
  from remove_expired_correct [OF _ _ r] r show ?thesis by (simp add: Let_def)
qed

text \<open>The expiry timer is due at once exactly when the table is over its cap and some window
  has expired, so a due timer always finds work and expired windows never wait.\<close>

lemma next_expiry_due_iff:
  "next_expiry_delay_ms f now cap = Some 0 \<longleftrightarrow>
     cap < length (windows f) \<and> (\<exists>x \<in> set (windows f). window_expired now x)"
  by (rule next_expiry_zero)

end
