(* ===== verification/Machine.thy ===== *)
theory Machine
  imports Packet Sequence
begin

section \<open>The event interface and packet intake (machine.rs)\<close>

text \<open>
  The events, actions and results the two cores exchange with the shell, the counters, and the
  three intake helpers both cores call: opening a transport packet, checking its stamp against
  the sequence filter, and noting the newest packet tick.  Counters are \<open>u64\<close> and wrap.
\<close>

record CoreMetrics =
  packets_received :: u64
  packets_sent :: u64
  packets_dropped :: u64
  authentication_failures :: u64
  freshness_drops :: u64
  replay_drops :: u64
  malformed_packets :: u64
  send_failures :: u64
  active_sessions :: usize
  active_sequences :: usize
  latest_seq_time :: u32

datatype CoreEvent =
    TransportPacketReceived ChannelId bytes
  | TransportPacketSendFailed ChannelId bytes
  | SessionOpen
  | SessionWrite ConvId bytes
  | SessionClose ConvId CloseReason

datatype CoreAction =
    SendTransportPacket ChannelId bytes
  | OpenSession ConvId
  | WriteSession ConvId bytes
  | CloseSession ConvId CloseReason

datatype CoreEventResult =
    EventNone
  | SessionCreated ConvId
  | SessionWriteBlocked

definition metrics_default :: CoreMetrics where
  "metrics_default = \<lparr>packets_received = 0, packets_sent = 0, packets_dropped = 0,
     authentication_failures = 0, freshness_drops = 0, replay_drops = 0, malformed_packets = 0,
     send_failures = 0, active_sessions = 0, active_sequences = 0, latest_seq_time = 0\<rparr>"

definition receive_transport_packet ::
    "crypto \<Rightarrow> bytes \<Rightarrow> CoreMetrics \<Rightarrow> bytes \<Rightarrow> (Envelope option \<times> CoreMetrics) run" where
  "receive_transport_packet cr envelope_key metrics bs = do {
     r \<leftarrow> decode_transport_packet cr envelope_key bs;
     Some (case r of
         Inr envelope \<Rightarrow> (Some envelope, metrics)
       | Inl InvalidLength \<Rightarrow> (None, metrics\<lparr>packets_dropped := packets_dropped metrics + 1\<rparr>)
       | Inl Authentication \<Rightarrow>
           (None, metrics\<lparr>authentication_failures := authentication_failures metrics + 1\<rparr>)
       | Inl MalformedEnvelope \<Rightarrow>
           (None, metrics\<lparr>malformed_packets := malformed_packets metrics + 1\<rparr>))
   }"

definition envelope_stamp :: "Envelope \<Rightarrow> EnvelopeStamp" where
  "envelope_stamp e = \<lparr>es_time = env_time e, es_seq_id = env_seq_id e, es_seq_no = env_seq_no e\<rparr>"

definition check_sequence ::
    "SequenceFilter \<Rightarrow> CoreMetrics \<Rightarrow> u32 \<Rightarrow> EnvelopeStamp \<Rightarrow> (bool \<times> SequenceFilter \<times> CoreMetrics) run" where
  "check_sequence f metrics current_time stamp = do {
     r \<leftarrow> check_and_insert f current_time (es_time stamp) (es_seq_id stamp) (es_seq_no stamp);
     Some (case r of
         Inr f' \<Rightarrow> (True, f', metrics)
       | Inl Freshness \<Rightarrow> (False, f, metrics\<lparr>freshness_drops := freshness_drops metrics + 1\<rparr>)
       | Inl Replay \<Rightarrow> (False, f, metrics\<lparr>replay_drops := replay_drops metrics + 1\<rparr>))
   }"

definition current_tick :: "u64 \<Rightarrow> u64 \<Rightarrow> u32" where
  "current_tick boot_time_ms elapsed_ms = ucast (drop_bit TS_SHIFT (boot_time_ms + elapsed_ms))"

definition note_latest_sequence :: "CoreMetrics \<Rightarrow> u64 \<Rightarrow> u64 \<Rightarrow> u32 \<Rightarrow> bool \<Rightarrow> CoreMetrics" where
  "note_latest_sequence metrics boot_time_ms elapsed_ms packet_time first =
     (let now = current_tick boot_time_ms elapsed_ms;
          packet_tick = now - word_of_int (time_diff (now AND TIME_MASK) packet_time)
      in if first \<or> packet_tick - latest_seq_time metrics < push_bit 31 1
         then metrics\<lparr>latest_seq_time := packet_tick\<rparr> else metrics)"

definition intake_total :: "CoreMetrics \<Rightarrow> u64" where
  "intake_total m = packets_sent m + packets_dropped m + authentication_failures m
     + freshness_drops m + replay_drops m + malformed_packets m"

subsection \<open>Lemmas\<close>

lemma note_latest_sequence_counters [simp]:
  "packets_received (note_latest_sequence m b e t first) = packets_received m"
  "intake_total (note_latest_sequence m b e t first) = intake_total m"
  by (simp_all add: note_latest_sequence_def Let_def intake_total_def)

lemma intake_total_updates [simp]:
  "intake_total (m\<lparr>packets_sent := packets_sent m + 1\<rparr>) = intake_total m + 1"
  "intake_total (m\<lparr>packets_dropped := packets_dropped m + 1\<rparr>) = intake_total m + 1"
  "intake_total (m\<lparr>authentication_failures := authentication_failures m + 1\<rparr>) = intake_total m + 1"
  "intake_total (m\<lparr>freshness_drops := freshness_drops m + 1\<rparr>) = intake_total m + 1"
  "intake_total (m\<lparr>replay_drops := replay_drops m + 1\<rparr>) = intake_total m + 1"
  "intake_total (m\<lparr>malformed_packets := malformed_packets m + 1\<rparr>) = intake_total m + 1"
  "intake_total (m\<lparr>packets_received := n\<rparr>) = intake_total m"
  "intake_total (m\<lparr>send_failures := n\<rparr>) = intake_total m"
  by (simp_all add: intake_total_def)

lemma receive_transport_packet_cases:
  obtains (rejected) m' where "receive_transport_packet cr key m bs = Some (None, m')"
      "packets_received m' = packets_received m" "intake_total m' = intake_total m + 1"
      "\<And>e. decode_transport_packet cr key bs \<noteq> Some (Inr e)"
  | (opened) e where "receive_transport_packet cr key m bs = Some (Some e, m)" "envelope_wf e"
      "decode_transport_packet cr key bs = Some (Inr e)"
proof (cases rule: decode_transport_packet_cases [of cr key bs])
  case length
  then show ?thesis
    by (intro rejected [of "m\<lparr>packets_dropped := packets_dropped m + 1\<rparr>"])
       (simp_all add: receive_transport_packet_def)
next
  case auth
  then show ?thesis
    by (intro rejected [of "m\<lparr>authentication_failures := authentication_failures m + 1\<rparr>"])
       (simp_all add: receive_transport_packet_def)
next
  case (malformed plain)
  then show ?thesis
    by (intro rejected [of "m\<lparr>malformed_packets := malformed_packets m + 1\<rparr>"])
       (simp_all add: receive_transport_packet_def)
next
  case (ok e)
  then show ?thesis by (intro opened) (simp_all add: receive_transport_packet_def)
qed

lemma current_tick_tick_time:
  assumes "unat boot + unat elapsed < 2 ^ 64"
  shows "current_tick boot elapsed AND TIME_MASK = tick_time ((uint boot + uint elapsed) div 1024)"
proof -
  have s: "uint (boot + elapsed) = uint boot + uint elapsed"
    using of_nat_less_iff [where 'a = int, of "unat boot + unat elapsed" "2 ^ 64"] assms
    by (simp add: uint_plus_if')
  have "uint (drop_bit 10 (boot + elapsed)) = uint (boot + elapsed) div 1024"
    by (simp add: drop_bit_eq_div uint_div)
  then have "ucast (drop_bit 10 (boot + elapsed)) = (word_of_int ((uint boot + uint elapsed) div 1024) :: u32)"
    by (metis s ucast_eq)
  then show ?thesis by (simp add: current_tick_def tick_time_def)
qed

end
