(* ===== verification/Relay.thy ===== *)
theory Relay
  imports Machine
begin

section \<open>The relay core (relay.rs)\<close>

text \<open>
  A relay opens each transport packet, filters replays, strips the first hop of the route plan,
  pads the envelope afresh and seals it for the next hop.  \<open>forward_packet\<close> is the whole handler
  with its early returns; actions are appended to the list the caller passes.  The iteration
  order of the sequence table is the parameter \<open>hash_iter\<close>.

  The theory shows what a forwarded packet is (the opened envelope without its first hop, within
  the local MTU, to a local channel), that no stamp is forwarded twice, that every received packet
  is counted exactly once, and that the relay never panics on transport events.
\<close>

record RelayConfig =
  rc_envelope_key :: bytes
  rc_random_seed :: bytes
  rc_boot_time_ms :: u64
  rc_local_channels :: "ChannelId list"
  rc_local_min_mtu :: u32

record RelayCore =
  rl_config :: RelayConfig
  rl_random :: RandomStream
  rl_sequence_filter :: SequenceFilter
  rl_metrics :: CoreMetrics

definition relay_new :: "crypto \<Rightarrow> RelayConfig \<Rightarrow> RelayCore" where
  "relay_new cr config = \<lparr>rl_config = config, rl_random = random_new cr (rc_random_seed config),
     rl_sequence_filter = filter_default, rl_metrics = metrics_default\<rparr>"

definition relay_get_metrics :: "RelayCore \<Rightarrow> CoreMetrics" where
  "relay_get_metrics core = (rl_metrics core)\<lparr>active_sequences := filter_len (rl_sequence_filter core)\<rparr>"

definition relay_count_drop :: "RelayCore \<Rightarrow> RelayCore" where
  "relay_count_drop core = core\<lparr>rl_metrics := (rl_metrics core)
     \<lparr>packets_dropped := packets_dropped (rl_metrics core) + 1\<rparr>\<rparr>"

definition relay_unpadded_len :: "Envelope \<Rightarrow> usize" where
  "relay_unpadded_len e = TRANSPORT_PACKET_OVERHEAD + ENVELOPE_FIXED_OVERHEAD
     + length (env_route_plan e) * CHANNEL_ID_SIZE + length (env_payload e)"

definition relay_send :: "crypto \<Rightarrow> RelayCore \<Rightarrow> Envelope \<Rightarrow> CoreAction list \<Rightarrow> (RelayCore \<times> CoreAction list) run" where
  "relay_send cr core envelope actions =
     (case env_route_plan envelope of
        [] \<Rightarrow> Some (relay_count_drop core, actions)
      | channel_id # rest \<Rightarrow>
          if channel_id \<notin> set (rc_local_channels (rl_config core)) then Some (relay_count_drop core, actions)
          else
            let envelope = envelope\<lparr>env_route_plan := rest\<rparr>;
                unpadded_len = relay_unpadded_len envelope;
                local_min_mtu = effective_transport_mtu (rc_local_min_mtu (rl_config core))
            in if local_min_mtu < unpadded_len + MIN_PADDING then Some (relay_count_drop core, actions)
               else
                 let available = min (local_min_mtu - unpadded_len) 255;
                     (r, random1) = random_u64 cr (rl_random core)
                 in if available = 0 then panic
                    else
                      let envelope = envelope\<lparr>env_padding_len := word_of_nat (1 + unat r mod available)\<rparr>;
                          (bs, random2) = encode_transport_packet cr (rc_envelope_key (rl_config core)) random1 envelope;
                          m = rl_metrics core
                      in Some (core\<lparr>rl_random := random2, rl_metrics := m\<lparr>packets_sent := packets_sent m + 1\<rparr>\<rparr>,
                               actions @ [SendTransportPacket channel_id bs]))"

definition relay_forward_packet :: "crypto \<Rightarrow> (window_table \<Rightarrow> window_table) \<Rightarrow> RelayCore \<Rightarrow> u64 \<Rightarrow> bytes \<Rightarrow>
    CoreAction list \<Rightarrow> (RelayCore \<times> CoreAction list) run" where
  "relay_forward_packet cr hash_iter core elapsed_ms bs actions = do {
     let boot_time_ms = rc_boot_time_ms (rl_config core);
     let current_time = current_tick boot_time_ms elapsed_ms AND TIME_MASK;
     let first_sequence = (filter_len (rl_sequence_filter core) = 0);
     (received, m1) \<leftarrow> receive_transport_packet cr (rc_envelope_key (rl_config core)) (rl_metrics core) bs;
     (case received of
        None \<Rightarrow> Some (core\<lparr>rl_metrics := m1\<rparr>, actions)
      | Some envelope \<Rightarrow> do {
          (ok, f1, m2) \<leftarrow> check_sequence (rl_sequence_filter core) m1 current_time (envelope_stamp envelope);
          if \<not> ok then Some (core\<lparr>rl_sequence_filter := f1, rl_metrics := m2\<rparr>, actions)
          else do {
            let f2 = snd (remove_expired hash_iter f1 current_time 0);
            let m3 = note_latest_sequence m2 boot_time_ms elapsed_ms (env_time envelope) first_sequence;
            relay_send cr (core\<lparr>rl_sequence_filter := f2, rl_metrics := m3\<rparr>) envelope actions
          }
        })
   }"

fun relay_handle_event :: "crypto \<Rightarrow> (window_table \<Rightarrow> window_table) \<Rightarrow> RelayCore \<Rightarrow> u64 \<Rightarrow> CoreEvent \<Rightarrow>
    CoreAction list \<Rightarrow> (RelayCore \<times> CoreAction list \<times> CoreEventResult) run" where
  "relay_handle_event cr hash_iter core elapsed_ms (TransportPacketReceived channel_id bs) actions = do {
     let m = rl_metrics core;
     (core', actions') \<leftarrow> relay_forward_packet cr hash_iter
        (core\<lparr>rl_metrics := m\<lparr>packets_received := packets_received m + 1\<rparr>\<rparr>) elapsed_ms bs actions;
     Some (core', actions', EventNone)
   }"
| "relay_handle_event cr hash_iter core elapsed_ms (TransportPacketSendFailed channel_id bs) actions =
     (let m = rl_metrics core
      in Some (core\<lparr>rl_metrics := m\<lparr>send_failures := send_failures m + 1\<rparr>\<rparr>, actions, EventNone))"
| "relay_handle_event cr hash_iter core elapsed_ms SessionOpen actions = panic"
| "relay_handle_event cr hash_iter core elapsed_ms (SessionWrite conv_id bs) actions = panic"
| "relay_handle_event cr hash_iter core elapsed_ms (SessionClose conv_id reason) actions = panic"

definition relay_poll :: "RelayCore \<Rightarrow> u64 \<Rightarrow> CoreAction list \<Rightarrow> RelayCore \<times> CoreAction list" where
  "relay_poll core elapsed_ms actions = (core, actions)"

definition relay_next_deadline :: "RelayCore \<Rightarrow> u64 \<Rightarrow> u64" where
  "relay_next_deadline core elapsed_ms = - 1"

subsection \<open>Runs of a relay\<close>

text \<open>
  \<open>relay_reach\<close> are the states a relay reaches from its start by events that do not panic.
  \<open>relay_step\<close> drives a relay by timed events, with the tick of the last event as the clock, and
  emits the stamp of each forwarded packet.
\<close>

inductive relay_reach :: "crypto \<Rightarrow> RelayConfig \<Rightarrow> RelayCore \<Rightarrow> bool" for cr config where
  relay_start: "relay_reach cr config (relay_new cr config)"
| relay_event: "relay_reach cr config core \<Longrightarrow> \<forall>m. mset (hash_iter m) = mset m \<Longrightarrow>
    relay_handle_event cr hash_iter core elapsed_ms ev actions = Some (core', actions', r) \<Longrightarrow>
    relay_reach cr config core'"

type_synonym relay_op = "(window_table \<Rightarrow> window_table) \<times> u64 \<times> CoreEvent"

definition relay_tick :: "RelayCore \<Rightarrow> u64 \<Rightarrow> int" where
  "relay_tick core elapsed_ms = (uint (rc_boot_time_ms (rl_config core)) + uint elapsed_ms) div 1024"

fun received_stamp :: "crypto \<Rightarrow> RelayCore \<Rightarrow> CoreEvent \<Rightarrow> (u32 \<times> u64 \<times> u64) option" where
  "received_stamp cr core (TransportPacketReceived channel_id bs) =
     (case decode_transport_packet cr (rc_envelope_key (rl_config core)) bs of
        Some (Inr e) \<Rightarrow> Some (env_time e, env_seq_id e, env_seq_no e)
      | _ \<Rightarrow> None)"
| "received_stamp cr core _ = None"

fun is_transport_event :: "CoreEvent \<Rightarrow> bool" where
  "is_transport_event (TransportPacketReceived _ _) = True"
| "is_transport_event (TransportPacketSendFailed _ _) = True"
| "is_transport_event _ = False"

fun relay_step :: "crypto \<Rightarrow> int \<times> RelayCore \<Rightarrow> relay_op \<Rightarrow>
    ((u32 \<times> u64 \<times> u64) option \<times> int \<times> RelayCore) run" where
  "relay_step cr (clock, core) (hash_iter, elapsed_ms, ev) = do {
     (core', actions, r) \<leftarrow> relay_handle_event cr hash_iter core elapsed_ms ev [];
     Some (if actions = [] then None else received_stamp cr core ev, relay_tick core elapsed_ms, core')
   }"

fun relay_inv :: "int \<Rightarrow> int \<times> RelayCore \<Rightarrow> bool" where
  "relay_inv start (clock, core) = filter_inv start (clock, rl_sequence_filter core)"

fun relay_blocked :: "int \<Rightarrow> int \<times> RelayCore \<Rightarrow> u32 \<times> u64 \<times> u64 \<Rightarrow> bool" where
  "relay_blocked start (clock, core) k = filter_blocked start (clock, rl_sequence_filter core) k"

fun relay_adm :: "int \<Rightarrow> int \<times> RelayCore \<Rightarrow> relay_op \<Rightarrow> bool" where
  "relay_adm start (clock, core) (hash_iter, elapsed_ms, ev) \<longleftrightarrow>
     is_transport_event ev \<and> (\<forall>m. mset (hash_iter m) = mset m) \<and>
     unat (rc_boot_time_ms (rl_config core)) + unat elapsed_ms < 2 ^ 64 \<and>
     clock \<le> relay_tick core elapsed_ms \<and> relay_tick core elapsed_ms - start + 704 < 2 ^ 25"

fun relay_schedule_ok :: "u64 \<Rightarrow> int \<Rightarrow> int \<Rightarrow> relay_op list \<Rightarrow> bool" where
  "relay_schedule_ok boot start clock [] \<longleftrightarrow> True"
| "relay_schedule_ok boot start clock ((hash_iter, elapsed_ms, ev) # xs) \<longleftrightarrow>
     is_transport_event ev \<and> (\<forall>m. mset (hash_iter m) = mset m) \<and>
     unat boot + unat elapsed_ms < 2 ^ 64 \<and>
     clock \<le> (uint boot + uint elapsed_ms) div 1024 \<and>
     (uint boot + uint elapsed_ms) div 1024 - start + 704 < 2 ^ 25 \<and>
     relay_schedule_ok boot start ((uint boot + uint elapsed_ms) div 1024) xs"

subsection \<open>One packet\<close>

lemma relay_count_drop_simps [simp]:
  "rl_config (relay_count_drop core) = rl_config core"
  "rl_sequence_filter (relay_count_drop core) = rl_sequence_filter core"
  "packets_received (rl_metrics (relay_count_drop core)) = packets_received (rl_metrics core)"
  "intake_total (rl_metrics (relay_count_drop core)) = intake_total (rl_metrics core) + 1"
  by (simp_all add: relay_count_drop_def)

lemma relay_unpadded_len_padded:
  "packet_size (e\<lparr>env_padding_len := p\<rparr>) = relay_unpadded_len e + unat p"
  by (simp add: packet_size_def relay_unpadded_len_def length_envelope_encode)

lemma relay_send_cases:
  obtains (dropped) "relay_send cr core e actions = Some (relay_count_drop core, actions)"
  | (sent) channel_id rest p random1 bs random2 where
      "env_route_plan e = channel_id # rest" "channel_id \<in> set (rc_local_channels (rl_config core))"
      "p \<noteq> 0"
      "packet_size (e\<lparr>env_route_plan := rest, env_padding_len := p\<rparr>)
         \<le> effective_transport_mtu (rc_local_min_mtu (rl_config core))"
      "encode_transport_packet cr (rc_envelope_key (rl_config core)) random1
         (e\<lparr>env_route_plan := rest, env_padding_len := p\<rparr>) = (bs, random2)"
      "relay_send cr core e actions = Some (core\<lparr>rl_random := random2, rl_metrics := (rl_metrics core)
         \<lparr>packets_sent := packets_sent (rl_metrics core) + 1\<rparr>\<rparr>, actions @ [SendTransportPacket channel_id bs])"
proof (cases "env_route_plan e")
  case Nil
  then show ?thesis by (intro dropped) (simp add: relay_send_def)
next
  case (Cons channel_id rest)
  let ?e = "e\<lparr>env_route_plan := rest\<rparr>"
  let ?mtu = "effective_transport_mtu (rc_local_min_mtu (rl_config core))"
  show ?thesis
  proof (cases "channel_id \<notin> set (rc_local_channels (rl_config core)) \<or> ?mtu < relay_unpadded_len ?e + 1")
    case True
    with Cons show ?thesis by (intro dropped) (auto simp: relay_send_def Let_def)
  next
    case False
    define available where "available = min (?mtu - relay_unpadded_len ?e) 255"
    obtain r random1 where r: "random_u64 cr (rl_random core) = (r, random1)" by fastforce
    define n where "n = 1 + unat r mod available"
    define p where "p = (word_of_nat n :: u8)"
    obtain bs random2 where b: "encode_transport_packet cr (rc_envelope_key (rl_config core)) random1
         (?e\<lparr>env_padding_len := p\<rparr>) = (bs, random2)" by fastforce
    have a: "0 < available" "available \<le> 255" using False by (auto simp: available_def)
    then have n: "0 < n" "n \<le> available" using mod_less_divisor [OF a(1), of "unat r"] by (auto simp: n_def)
    with a have up: "unat p = n" by (simp add: p_def unsigned_of_nat take_bit_nat_eq_self)
    show ?thesis
    proof (rule sent)
      show "p \<noteq> 0" using up n by auto
      show "packet_size (?e\<lparr>env_padding_len := p\<rparr>) \<le> ?mtu"
        unfolding relay_unpadded_len_padded up using n False by (auto simp: available_def)
      show "relay_send cr core e actions = Some (core\<lparr>rl_random := random2, rl_metrics := (rl_metrics core)
         \<lparr>packets_sent := packets_sent (rl_metrics core) + 1\<rparr>\<rparr>, actions @ [SendTransportPacket channel_id bs])"
        using Cons False r b a by (simp add: relay_send_def Let_def p_def n_def flip: available_def)
    qed (use Cons False b in auto)
  qed
qed

lemma relay_forward_cases:
  fixes core h elapsed_ms
  defines "now \<equiv> current_tick (rc_boot_time_ms (rl_config core)) elapsed_ms AND TIME_MASK"
  assumes "relay_forward_packet cr h core elapsed_ms bs actions = Some (core', actions')"
  obtains (rejected) m' where
      "\<And>e. decode_transport_packet cr (rc_envelope_key (rl_config core)) bs \<noteq> Some (Inr e)"
      "core' = core\<lparr>rl_metrics := m'\<rparr>" "actions' = actions"
      "packets_received m' = packets_received (rl_metrics core)"
      "intake_total m' = intake_total (rl_metrics core) + 1"
  | (refused) d e m' where
      "decode_transport_packet cr (rc_envelope_key (rl_config core)) bs = Some (Inr e)"
      "check_and_insert (rl_sequence_filter core) now (env_time e) (env_seq_id e) (env_seq_no e) = Some (Inl d)"
      "core' = core\<lparr>rl_metrics := m'\<rparr>" "actions' = actions"
      "packets_received m' = packets_received (rl_metrics core)"
      "intake_total m' = intake_total (rl_metrics core) + 1"
  | (accepted) f1 e m' where
      "decode_transport_packet cr (rc_envelope_key (rl_config core)) bs = Some (Inr e)" "envelope_wf e"
      "check_and_insert (rl_sequence_filter core) now (env_time e) (env_seq_id e) (env_seq_no e) = Some (Inr f1)"
      "relay_send cr (core\<lparr>rl_sequence_filter := snd (remove_expired h f1 now 0), rl_metrics := m'\<rparr>) e actions
         = Some (core', actions')"
      "packets_received m' = packets_received (rl_metrics core)"
      "intake_total m' = intake_total (rl_metrics core)"
proof (cases rule: receive_transport_packet_cases
    [of cr "rc_envelope_key (rl_config core)" "rl_metrics core" bs])
  case (rejected m')
  with assms(2) that(1) [of m'] show ?thesis by (simp add: relay_forward_packet_def Let_def)
next
  case (opened e)
  obtain r where r: "check_and_insert (rl_sequence_filter core) now (env_time e) (env_seq_id e) (env_seq_no e) = Some r"
    using assms opened
    by (cases "check_and_insert (rl_sequence_filter core) now (env_time e) (env_seq_id e) (env_seq_no e)")
       (simp_all add: relay_forward_packet_def Let_def check_sequence_def envelope_stamp_def)
  show ?thesis
  proof (cases r)
    case (Inl d)
    then show ?thesis
      using assms(2) opened r
      by (cases d; intro that(2) [of e d "rl_metrics core'"])
         (auto simp: relay_forward_packet_def Let_def check_sequence_def envelope_stamp_def now_def)
  next
    case (Inr f1)
    then show ?thesis
      using assms(2) opened r that(3) [of e f1]
      by (simp add: relay_forward_packet_def Let_def check_sequence_def envelope_stamp_def now_def)
  qed
qed

lemma relay_send_effect:
  assumes "relay_send cr core e actions = Some (core', actions')"
  shows "rl_config core' = rl_config core \<and> rl_sequence_filter core' = rl_sequence_filter core \<and>
    packets_received (rl_metrics core') = packets_received (rl_metrics core) \<and>
    intake_total (rl_metrics core') = intake_total (rl_metrics core) + 1"
  by (cases rule: relay_send_cases [of cr core e actions]) (use assms in auto)

lemma relay_send_total: "\<exists>r. relay_send cr core e actions = Some r"
  by (cases rule: relay_send_cases [of cr core e actions]) auto

lemma relay_forward_effect:
  assumes "relay_forward_packet cr h core elapsed_ms bs actions = Some (core', actions')"
  shows "rl_config core' = rl_config core \<and>
    packets_received (rl_metrics core') = packets_received (rl_metrics core) \<and>
    intake_total (rl_metrics core') = intake_total (rl_metrics core) + 1"
  using assms
  by (cases rule: relay_forward_cases) (auto dest!: relay_send_effect)

lemma relay_forward_returns:
  assumes "filter_ok (rl_sequence_filter core)"
  shows "\<exists>core' actions'. relay_forward_packet cr h core elapsed_ms bs actions = Some (core', actions') \<and>
    filter_ok (rl_sequence_filter core')"
proof (cases rule: receive_transport_packet_cases
    [of cr "rc_envelope_key (rl_config core)" "rl_metrics core" bs])
  case (rejected m')
  with assms show ?thesis by (simp add: relay_forward_packet_def Let_def)
next
  case (opened e)
  let ?now = "current_tick (rc_boot_time_ms (rl_config core)) elapsed_ms AND TIME_MASK"
  obtain r where r: "check_and_insert (rl_sequence_filter core) ?now (env_time e) (env_seq_id e) (env_seq_no e) = Some r"
    "\<And>f'. r = Inr f' \<Longrightarrow> filter_ok f'"
    using check_and_insert_returns [OF assms] by blast
  show ?thesis
  proof (cases r)
    case (Inl d)
    with opened r assms show ?thesis
      by (cases d) (simp_all add: relay_forward_packet_def Let_def check_sequence_def envelope_stamp_def)
  next
    case (Inr f1)
    let ?core = "core\<lparr>rl_sequence_filter := snd (remove_expired h f1 ?now 0),
      rl_metrics := note_latest_sequence (rl_metrics core) (rc_boot_time_ms (rl_config core)) elapsed_ms
        (env_time e) (filter_len (rl_sequence_filter core) = 0)\<rparr>"
    obtain core' actions' where s: "relay_send cr ?core e actions = Some (core', actions')"
      using relay_send_total by fastforce
    with opened r Inr relay_send_effect [OF s] filter_ok_expire show ?thesis
      by (auto simp: relay_forward_packet_def Let_def check_sequence_def envelope_stamp_def)
  qed
qed

lemma relay_handle_event_cases:
  assumes "relay_handle_event cr h core elapsed_ms ev actions = Some (core', actions', r)"
  obtains (received) channel_id bs m where "ev = TransportPacketReceived channel_id bs"
      "m = (rl_metrics core)\<lparr>packets_received := packets_received (rl_metrics core) + 1\<rparr>"
      "relay_forward_packet cr h (core\<lparr>rl_metrics := m\<rparr>) elapsed_ms bs actions = Some (core', actions')"
  | (failed) channel_id bs m where "ev = TransportPacketSendFailed channel_id bs"
      "m = (rl_metrics core)\<lparr>send_failures := send_failures (rl_metrics core) + 1\<rparr>"
      "core' = core\<lparr>rl_metrics := m\<rparr>" "actions' = actions"
  using assms
  by (cases ev) (auto simp: Let_def split: Option.bind_splits)

lemma relay_handle_event_effect:
  assumes "relay_handle_event cr h core elapsed_ms ev actions = Some (core', actions', r)"
  shows "rl_config core' = rl_config core \<and>
    packets_received (rl_metrics core') - intake_total (rl_metrics core')
      = packets_received (rl_metrics core) - intake_total (rl_metrics core)"
  using assms
  by (cases rule: relay_handle_event_cases) (auto dest!: relay_forward_effect)

lemma relay_reach_accounts:
  "relay_reach cr config core \<Longrightarrow> rl_config core = config \<and>
     packets_received (rl_metrics core) = intake_total (rl_metrics core)"
proof (induction rule: relay_reach.induct)
  case relay_start
  then show ?case by (simp add: relay_new_def metrics_default_def intake_total_def)
next
  case (relay_event core hash_iter elapsed_ms ev actions core' actions' r)
  with relay_handle_event_effect [OF relay_event.hyps(3)] show ?case by simp
qed


subsection \<open>Replay protection of a relay\<close>

lemma relay_event_returns:
  assumes "filter_ok (rl_sequence_filter core)" and "is_transport_event ev"
  shows "\<exists>r. relay_handle_event cr h core elapsed_ms ev actions = Some r"
proof (cases ev)
  case (TransportPacketReceived ch bs)
  then show ?thesis
    using assms(1) relay_forward_returns [of "core\<lparr>rl_metrics := (rl_metrics core)
      \<lparr>packets_received := packets_received (rl_metrics core) + 1\<rparr>\<rparr>" cr h elapsed_ms bs actions] by auto
qed (use assms(2) in \<open>simp_all add: Let_def\<close>)

lemma relay_step_all:
  assumes "relay_inv start s" and "relay_adm start s x"
  shows "\<exists>r s'. relay_step cr s x = Some (r, s') \<and> relay_inv start s' \<and>
    (\<forall>j. relay_blocked start s j \<longrightarrow> relay_blocked start s' j) \<and>
    (\<forall>k. r = Some k \<longrightarrow> \<not> relay_blocked start s k \<and> relay_blocked start s' k)"
proof -
  obtain clock core h elapsed ev where sx: "s = (clock, core)" "x = (h, elapsed, ev)"
    by (metis prod.collapse)
  let ?f = "rl_sequence_filter core" and ?now = "relay_tick core elapsed"
  have inv: "filter_inv start (clock, ?f)" and h: "\<forall>m. mset (h m) = mset m"
    and clock: "clock \<le> ?now" and tr: "is_transport_event ev"
    and now: "current_tick (rc_boot_time_ms (rl_config core)) elapsed AND TIME_MASK = tick_time ?now"
    and adm: "\<And>t i n. filter_adm start (clock, ?f) (Check ?now t i n)"
    using assms current_tick_tick_time by (simp_all add: sx relay_tick_def)
  note later = filter_later [OF inv clock]
  note [simp del] = filter_inv.simps filter_blocked.simps filter_adm.simps
  show ?thesis
  proof (cases ev)
    case (TransportPacketReceived ch bs)
    let ?core = "core\<lparr>rl_metrics := (rl_metrics core)\<lparr>packets_received := packets_received (rl_metrics core) + 1\<rparr>\<rparr>"
    have "\<exists>core' actions. relay_forward_packet cr h ?core elapsed bs [] = Some (core', actions)"
      using relay_forward_returns [of ?core] filter_inv_ok [OF inv] by fastforce
    then obtain core' actions where fwd: "relay_forward_packet cr h ?core elapsed bs [] = Some (core', actions)"
      by blast
    then show ?thesis
    proof (cases rule: relay_forward_cases)
      case (rejected m')
      with fwd later TransportPacketReceived show ?thesis by (simp add: sx Let_def)
    next
      case (refused d e m')
      with fwd later TransportPacketReceived show ?thesis by (simp add: sx Let_def)
    next
      case (accepted f1 e m')
      have f: "rl_sequence_filter core' = snd (remove_expired h f1 (tick_time ?now) 0)"
        using relay_send_effect [OF accepted(4)] now by simp
      have "check_and_insert ?f (tick_time ?now) (env_time e) (env_seq_id e) (env_seq_no e) = Some (Inr f1)"
        using accepted(3) now by simp
      from filter_check_expire [OF inv adm this h] fwd f accepted(1) TransportPacketReceived show ?thesis
        by (auto simp: sx Let_def)
    qed
  next
    case (TransportPacketSendFailed ch bs)
    with later show ?thesis by (simp add: sx Let_def)
  qed (use tr in auto)
qed

interpretation rr: once_only "relay_step cr" "relay_inv start" "relay_adm start" "relay_blocked start"
  for cr :: crypto and start :: int
  by (rule once_onlyI) (rule relay_step_all)

lemma relay_reach_ok: "relay_reach cr config core \<Longrightarrow> filter_ok (rl_sequence_filter core)"
proof (induction rule: relay_reach.induct)
  case relay_start
  then show ?case by (simp add: relay_new_def filter_default_def filter_ok_def)
next
  case (relay_event core hash_iter elapsed_ms ev actions core' actions' r)
  from relay_event.hyps(3) show ?case
  proof (cases rule: relay_handle_event_cases)
    case (received channel_id bs m)
    with relay_event.IH relay_forward_returns [of "core\<lparr>rl_metrics := m\<rparr>" cr hash_iter elapsed_ms bs actions]
    show ?thesis by simp
  qed (use relay_event.IH in simp)
qed

lemma relay_step_config: "relay_step cr (clock, core) x = Some (r, clock', core') \<Longrightarrow>
    rl_config core' = rl_config core \<and> clock' = relay_tick core (fst (snd x))"
  by (cases x) (auto dest!: relay_handle_event_effect split: Option.bind_splits)

lemma relay_schedule_admissible:
  assumes "relay_schedule_ok (rc_boot_time_ms (rl_config core)) start clock xs"
  shows "admissible_run (relay_adm start) (relay_step cr) (clock, core) xs"
  using assms
proof (induction xs arbitrary: clock core)
  case (Cons x xs)
  obtain h elapsed ev where x: "x = (h, elapsed, ev)" by (metis prod.collapse)
  have "relay_adm start (clock, core) x" using Cons.prems by (simp add: x relay_tick_def)
  moreover have "admissible_run (relay_adm start) (relay_step cr) s' xs"
    if "relay_step cr (clock, core) x = Some (r, s')" for r s'
    using Cons that relay_step_config [of cr clock core x r "fst s'" "snd s'"]
    by (cases s') (simp add: x relay_tick_def)
  ultimately show ?case by (auto split: option.splits)
qed simp

subsection \<open>Properties\<close>

text \<open>C15.  No relay forwards a packet twice: over any sequence of transport events with a
  non-decreasing clock, spanning less than half a time cycle, a fresh relay returns from every
  event and the stamps of the packets it forwards are distinct.\<close>

theorem relay_never_forwards_twice:
  assumes "relay_schedule_ok (rc_boot_time_ms config) start start xs"
  shows "\<exists>forwarded s. run_steps (relay_step cr) (start, relay_new cr config) xs = Some (forwarded, s) \<and>
    distinct forwarded"
proof -
  have "relay_inv start (start, relay_new cr config)" by (simp add: relay_new_def filter_default_def)
  moreover have "admissible_run (relay_adm start) (relay_step cr) (start, relay_new cr config) xs"
    using assms by (intro relay_schedule_admissible) (simp add: relay_new_def)
  ultimately show ?thesis using rr.run_once by blast
qed

theorem relay_never_forwards_twice_witness:
  "\<exists>forwarded s. run_steps (relay_step null_crypto) (2, relay_new null_crypto
      \<lparr>rc_envelope_key = [], rc_random_seed = [], rc_boot_time_ms = 2048, rc_local_channels = [7], rc_local_min_mtu = 1400\<rparr>)
     [(rev, 0, TransportPacketReceived 3 [1, 2]), (id, 1500, TransportPacketSendFailed 7 [])] = Some (forwarded, s) \<and>
    distinct forwarded"
  by (rule relay_never_forwards_twice) simp

text \<open>C16.  What a relay forwards: an event appends at most one action, a packet for a local channel
  that is the first hop of the envelope it opened; the packet fits the local MTU and opens to that
  envelope with the hop consumed and only the padding changed.\<close>

theorem relay_forwards_next_hop:
  assumes "aead_correct cr"
    and "relay_handle_event cr hash_iter core elapsed_ms (TransportPacketReceived channel_id bs) actions =
      Some (core', actions', r)"
  shows "actions' = actions \<or>
    (\<exists>e hop rest padding out. actions' = actions @ [SendTransportPacket hop out] \<and>
      decode_transport_packet cr (rc_envelope_key (rl_config core)) bs = Some (Inr e) \<and>
      env_route_plan e = hop # rest \<and> hop \<in> set (rc_local_channels (rl_config core)) \<and>
      length out \<le> effective_transport_mtu (rc_local_min_mtu (rl_config core)) \<and>
      decode_transport_packet cr (rc_envelope_key (rl_config core)) out =
        Some (Inr (e\<lparr>env_route_plan := rest, env_padding_len := padding\<rparr>)))"
  using assms(2)
proof (cases rule: relay_handle_event_cases)
  case (received ch bs' m)
  from received(3) show ?thesis
  proof (cases rule: relay_forward_cases)
    case (accepted f1 e m')
    show ?thesis
    proof (cases rule: relay_send_cases [of cr "core\<lparr>rl_sequence_filter := snd (remove_expired hash_iter f1
          (current_tick (rc_boot_time_ms (rl_config core)) elapsed_ms AND TIME_MASK) 0), rl_metrics := m'\<rparr>" e actions])
      case dropped
      with accepted(4) show ?thesis by simp
    next
      case (sent hop rest p random1 out random2)
      let ?e = "e\<lparr>env_route_plan := rest, env_padding_len := p\<rparr>"
      have size: "packet_size ?e \<le> effective_transport_mtu (rc_local_min_mtu (rl_config core))"
        using sent(4) by simp
      have wf: "envelope_wf ?e" using accepted(2) sent(1,3) by (simp add: envelope_wf_def)
      from decode_encode_transport_packet [OF assms(1) wf, of "rc_envelope_key (rl_config core)" random1]
        length_encode_transport_packet [OF assms(1), of "rc_envelope_key (rl_config core)" random1 ?e]
        sent accepted(1,4) received(1) size
        effective_transport_mtu_le [of "rc_local_min_mtu (rl_config core)"]
      show ?thesis by auto
    qed
  qed simp_all
qed simp
theorem relay_forwards_next_hop_witness:
  "\<exists>core' actions' r. relay_handle_event null_crypto id (relay_new null_crypto
      \<lparr>rc_envelope_key = [], rc_random_seed = [], rc_boot_time_ms = 2048, rc_local_channels = [7], rc_local_min_mtu = 1400\<rparr>)
      0 (TransportPacketReceived 3 (replicate 32 0 @ envelope_encode_with_prefix \<lparr>env_time = 2, env_seq_id = 1,
        env_seq_no = 5, env_route_plan = [7], env_payload = [9], env_padding_len = 1\<rparr> 0)) [] = Some (core', actions', r) \<and>
     (actions' = [] \<or> (\<exists>e hop rest padding out. actions' = [] @ [SendTransportPacket hop out] \<and>
        env_route_plan e = hop # rest \<and> hop \<in> set [7] \<and> length out \<le> 1400 \<and>
        decode_transport_packet null_crypto [] out = Some (Inr (e\<lparr>env_route_plan := rest, env_padding_len := padding\<rparr>))))"
proof -
  let ?core = "relay_new null_crypto
      \<lparr>rc_envelope_key = [], rc_random_seed = [], rc_boot_time_ms = 2048, rc_local_channels = [7], rc_local_min_mtu = 1400\<rparr>"
  let ?bs = "replicate 32 0 @ envelope_encode_with_prefix \<lparr>env_time = 2, env_seq_id = 1,
        env_seq_no = 5, env_route_plan = [7], env_payload = [9], env_padding_len = 1\<rparr> 0"
  obtain core' actions' r where ev:
    "relay_handle_event null_crypto id ?core 0 (TransportPacketReceived 3 ?bs) [] = Some (core', actions', r)"
    using relay_event_returns [OF relay_reach_ok [OF relay_start], of "TransportPacketReceived 3 ?bs"] by fastforce
  from relay_forwards_next_hop [OF null_crypto_correct ev] ev show ?thesis
    by (auto simp: relay_new_def effective_transport_mtu_def)
qed

text \<open>C17.  Every packet is accounted for: in every state a relay reaches, the packets received are
  exactly those sent, dropped, refused by authentication, freshness or replay protection, or
  malformed (counters modulo \<open>2^64\<close>).\<close>

theorem relay_accounts_for_every_packet:
  assumes "relay_reach cr config core"
  shows "packets_received (relay_get_metrics core) =
    packets_sent (relay_get_metrics core) + packets_dropped (relay_get_metrics core)
    + authentication_failures (relay_get_metrics core) + freshness_drops (relay_get_metrics core)
    + replay_drops (relay_get_metrics core) + malformed_packets (relay_get_metrics core)"
  using relay_reach_accounts [OF assms] by (simp add: relay_get_metrics_def intake_total_def)

theorem relay_accounts_for_every_packet_witness:
  "let core = relay_new null_crypto \<lparr>rc_envelope_key = [], rc_random_seed = [], rc_boot_time_ms = 0,
      rc_local_channels = [], rc_local_min_mtu = 1400\<rparr>
   in \<exists>core' acts r. relay_handle_event null_crypto id core 0 (TransportPacketReceived 3 [1, 2]) [] = Some (core', acts, r) \<and>
      packets_dropped (relay_get_metrics core') = 1 \<and>
      packets_received (relay_get_metrics core') =
    packets_sent (relay_get_metrics core') + packets_dropped (relay_get_metrics core')
    + authentication_failures (relay_get_metrics core') + freshness_drops (relay_get_metrics core')
    + replay_drops (relay_get_metrics core') + malformed_packets (relay_get_metrics core')"
proof -
  let ?config = "\<lparr>rc_envelope_key = [], rc_random_seed = [], rc_boot_time_ms = 0,
      rc_local_channels = [], rc_local_min_mtu = 1400\<rparr>"
  let ?core = "relay_new null_crypto ?config"
  obtain core' where ev:
    "relay_handle_event null_crypto id ?core 0 (TransportPacketReceived 3 [1, 2]) [] = Some (core', [], EventNone)"
    "packets_dropped (relay_get_metrics core') = 1"
    by (simp add: relay_forward_packet_def receive_transport_packet_def decode_transport_packet_def
        relay_new_def metrics_default_def relay_get_metrics_def Let_def)
  have "relay_reach null_crypto ?config core'"
    using relay_event [OF relay_start _ ev(1)] by simp
  from relay_accounts_for_every_packet [OF this] ev show ?thesis unfolding Let_def by blast
qed

text \<open>C18.  A relay panics on exactly the session events, which its shell never sends: in every state
  it reaches, each transport event returns.\<close>

theorem relay_panics_only_on_session_events:
  assumes "relay_reach cr config core"
  shows "relay_handle_event cr hash_iter core elapsed_ms ev actions = panic \<longleftrightarrow> \<not> is_transport_event ev"
proof (cases "is_transport_event ev")
  case True
  with relay_event_returns [OF relay_reach_ok [OF assms] True, of cr hash_iter elapsed_ms actions]
  show ?thesis by auto
next
  case False
  then show ?thesis by (cases ev) simp_all
qed

theorem relay_panics_only_on_session_events_witness:
  "relay_handle_event null_crypto id (relay_new null_crypto \<lparr>rc_envelope_key = [], rc_random_seed = [],
      rc_boot_time_ms = 0, rc_local_channels = [], rc_local_min_mtu = 1400\<rparr>) 0 SessionOpen [] = panic"
  by (subst relay_panics_only_on_session_events [OF relay_start]) simp

end
