(* ===== verification/Routing.thy ===== *)
theory Routing
  imports Core_Types
begin

section \<open>The route planner (routing.rs)\<close>

text \<open>
  The planner keeps, per edge of a topologically numbered graph, a virtual queue
  (\<open>virtual_free_at\<close>, 48.16 fixed point milliseconds), a loss estimate and a local cooldown.  A plan
  is the path of earliest virtual arrival from node 0 to the last node; for a sample the path has
  to use the least recently sampled edge.

  The dynamic program of \<open>calculate_path\<close> is translated loop by loop; a panic or a walk that never
  ends is \<open>None\<close>.  The theory shows that on a well-formed graph planning returns, that the
  returned plan is a path of edges out of cooldown through the forced edge, that it is a path of
  earliest arrival among all such paths while no time overflows, and that the loss estimate and
  the retry delay stay in their ranges under every operation.
\<close>

definition DEFAULT_ROUTE_CAPACITY_KBPS :: u32 where [simp]: "DEFAULT_ROUTE_CAPACITY_KBPS = 50000"
definition DEFAULT_ROUTE_LATENCY_MS :: u32 where [simp]: "DEFAULT_ROUTE_LATENCY_MS = 50"
definition FIXED_ONE :: u64 where "FIXED_ONE = push_bit 16 1"
definition LOSS_ONE :: u32 where [simp]: "LOSS_ONE = 65535"

record RouteEdge =
  re_channel_id :: ChannelId
  re_next :: u32
  re_capacity_hint_kbps :: u32
  re_latency_hint_ms :: u32

record RouteNode =
  rn_edges :: "RouteEdge list"

record RouteGraph =
  rg_nodes :: "RouteNode list"

record RouteConfig =
  rcf_graph :: RouteGraph
  rcf_min_mtu :: u32
  rcf_feedback_interval_ms :: u32
  rcf_feedback_timeout_ms :: u32

record EdgeId =
  eid_node :: usize
  eid_edge :: usize

record Edge =
  channel_id :: ChannelId
  edge_next :: usize
  capacity_kbps :: u32
  latency_ms :: u32
  virtual_free_at :: u64
  loss :: u32
  cooldown_until :: u64
  retry_delay_ms :: u64
  last_sampled :: "u64 option"
  last_observation_at :: "u64 option"

type_synonym edge_table = "Edge list list"

record RoutePlanner =
  planner_nodes :: edge_table

subsection \<open>Edges\<close>

definition edge_new :: "RouteEdge \<Rightarrow> Edge" where
  "edge_new e = \<lparr>channel_id = re_channel_id e, edge_next = unat (re_next e),
     capacity_kbps = (if re_capacity_hint_kbps e = 0 then DEFAULT_ROUTE_CAPACITY_KBPS
                      else re_capacity_hint_kbps e),
     latency_ms = (if re_latency_hint_ms e = 0 then DEFAULT_ROUTE_LATENCY_MS
                   else re_latency_hint_ms e),
     virtual_free_at = 0, loss = 0, cooldown_until = 0, retry_delay_ms = LOCAL_COOLDOWN_INITIAL_MS,
     last_sampled = None, last_observation_at = None\<rparr>"

definition planner_new :: "RouteConfig \<Rightarrow> RoutePlanner" where
  "planner_new config = \<lparr>planner_nodes = map (\<lambda>n. map edge_new (rn_edges n)) (rg_nodes (rcf_graph config))\<rparr>"

definition edge_at :: "edge_table \<Rightarrow> EdgeId \<Rightarrow> Edge run" where
  "edge_at nodes eid = do { es \<leftarrow> index_run nodes (eid_node eid); index_run es (eid_edge eid) }"

definition update_edge :: "edge_table \<Rightarrow> EdgeId \<Rightarrow> (Edge \<Rightarrow> Edge) \<Rightarrow> edge_table run" where
  "update_edge nodes eid f = do {
     es \<leftarrow> index_run nodes (eid_node eid);
     es' \<leftarrow> update_run es (eid_edge eid) f;
     update_run nodes (eid_node eid) (\<lambda>_. es')
   }"

definition edge_allowed :: "edge_table \<Rightarrow> EdgeId \<Rightarrow> u64 \<Rightarrow> bool run" where
  "edge_allowed nodes eid elapsed_ms = do {
     e \<leftarrow> edge_at nodes eid;
     Some (cooldown_until e \<le> elapsed_ms)
   }"

definition div_ceil :: "u64 \<Rightarrow> u64 \<Rightarrow> u64 run" where
  "div_ceil a b = (if b = 0 then panic else Some (if a mod b \<noteq> 0 then a div b + 1 else a div b))"

definition serialization_time :: "edge_table \<Rightarrow> EdgeId \<Rightarrow> usize \<Rightarrow> u64 run" where
  "serialization_time nodes eid bytes_len = do {
     e \<leftarrow> edge_at nodes eid;
     let capacity = (ucast (capacity_kbps e) :: u64);
     let l = (ucast (loss e) :: u64);
     let penalty = FIXED_ONE + 15 * l * l * FIXED_ONE div (ucast LOSS_ONE) ^ 2;
     effective_capacity \<leftarrow> (if penalty = 0 then panic else Some (max (capacity * FIXED_ONE div penalty) 1));
     div_ceil (word_of_nat bytes_len * 8 * FIXED_ONE) effective_capacity
   }"

definition latency :: "edge_table \<Rightarrow> EdgeId \<Rightarrow> u64 run" where
  "latency nodes eid = do {
     e \<leftarrow> edge_at nodes eid;
     Some (ucast (latency_ms e) * FIXED_ONE)
   }"

subsection \<open>The path of earliest arrival\<close>

type_synonym dp_state = "u64 list list \<times> (usize \<times> EdgeId) option list list"

definition relax_edge :: "edge_table \<Rightarrow> u64 \<Rightarrow> usize \<Rightarrow> EdgeId option \<Rightarrow> usize \<Rightarrow> usize \<Rightarrow> u64 \<Rightarrow> usize \<Rightarrow>
    dp_state \<Rightarrow> dp_state run" where
  "relax_edge nodes elapsed_ms scheduled_bytes forced node state node_arrival edge_index dp = do {
     let (arrival, predecessor) = dp;
     let edge_id = \<lparr>eid_node = node, eid_edge = edge_index\<rparr>;
     allowed \<leftarrow> edge_allowed nodes edge_id elapsed_ms;
     if \<not> allowed then Some dp
     else do {
       e \<leftarrow> edge_at nodes edge_id;
       let next_state = (if forced = Some edge_id then state OR 1 else state);
       let start = max node_arrival (virtual_free_at e);
       ser \<leftarrow> serialization_time nodes edge_id scheduled_bytes;
       lat \<leftarrow> latency nodes edge_id;
       let candidate = start + ser + lat;
       row \<leftarrow> index_run arrival (edge_next e);
       best \<leftarrow> index_run row next_state;
       if candidate < best then do {
         row' \<leftarrow> update_run row next_state (\<lambda>_. candidate);
         arrival' \<leftarrow> update_run arrival (edge_next e) (\<lambda>_. row');
         prow \<leftarrow> index_run predecessor (edge_next e);
         prow' \<leftarrow> update_run prow next_state (\<lambda>_. Some (state, edge_id));
         predecessor' \<leftarrow> update_run predecessor (edge_next e) (\<lambda>_. prow');
         Some (arrival', predecessor')
       }
       else Some dp
     }
   }"

definition relax_state :: "edge_table \<Rightarrow> u64 \<Rightarrow> usize \<Rightarrow> EdgeId option \<Rightarrow> usize \<Rightarrow> usize \<Rightarrow>
    dp_state \<Rightarrow> dp_state run" where
  "relax_state nodes elapsed_ms scheduled_bytes forced node state dp = do {
     row \<leftarrow> index_run (fst dp) node;
     node_arrival \<leftarrow> index_run row state;
     if node_arrival = - 1 then Some dp
     else do {
       es \<leftarrow> index_run nodes node;
       fold_run (relax_edge nodes elapsed_ms scheduled_bytes forced node state node_arrival)
         [0..<length es] dp
     }
   }"

definition relax_node :: "edge_table \<Rightarrow> u64 \<Rightarrow> usize \<Rightarrow> EdgeId option \<Rightarrow> usize \<Rightarrow> dp_state \<Rightarrow> dp_state run" where
  "relax_node nodes elapsed_ms scheduled_bytes forced node dp =
     fold_run (relax_state nodes elapsed_ms scheduled_bytes forced node)
       [0..<(if forced = None then 1 else 2)] dp"

partial_function (option) backtrack ::
    "(usize \<times> EdgeId) option list list \<Rightarrow> usize \<Rightarrow> usize \<Rightarrow> EdgeId list \<Rightarrow> EdgeId list option run" where
  [code]: "backtrack predecessor node state path =
     (if node = 0 then Some (Some (rev path))
      else
        Option.bind (index_run predecessor node) (\<lambda>row.
        Option.bind (index_run row state) (\<lambda>p.
        (case p of
           None \<Rightarrow> Some None
         | Some (previous_state, edge) \<Rightarrow>
             backtrack predecessor (eid_node edge) previous_state (path @ [edge])))))"

definition calculate_path :: "edge_table \<Rightarrow> u64 \<Rightarrow> usize \<Rightarrow> EdgeId option \<Rightarrow> EdgeId list option run" where
  "calculate_path nodes elapsed_ms scheduled_bytes forced = do {
     let destination = length nodes - 1;
     let predecessor = replicate (length nodes) [None, None];
     arrival \<leftarrow> update_run (replicate (length nodes) [- 1, - 1]) 0
        (\<lambda>row. row[0 := elapsed_ms * FIXED_ONE]);
     (arrival', predecessor') \<leftarrow> fold_run (relax_node nodes elapsed_ms scheduled_bytes forced)
        [0..<destination] (arrival, predecessor);
     let state = (if forced = None then 0 else 1);
     row \<leftarrow> index_run arrival' destination;
     final \<leftarrow> index_run row state;
     if final = - 1 then Some None
     else backtrack predecessor' destination state []
   }"

subsection \<open>Sampling, reservation and feedback\<close>

definition option_less :: "u64 option \<Rightarrow> u64 option \<Rightarrow> bool" where
  "option_less a b = (case (a, b) of
     (_, None) \<Rightarrow> False | (None, Some _) \<Rightarrow> True | (Some x, Some y) \<Rightarrow> x < y)"

definition sampling_visit :: "edge_table \<Rightarrow> u64 \<Rightarrow> usize \<Rightarrow> usize \<Rightarrow> bool list \<times> EdgeId option \<Rightarrow>
    (bool list \<times> EdgeId option) run" where
  "sampling_visit nodes elapsed_ms node edge st = do {
     let (reachable, selected) = st;
     let edge_id = \<lparr>eid_node = node, eid_edge = edge\<rparr>;
     allowed \<leftarrow> edge_allowed nodes edge_id elapsed_ms;
     if \<not> allowed then Some st
     else do {
       e \<leftarrow> edge_at nodes edge_id;
       reachable' \<leftarrow> update_run reachable (edge_next e) (\<lambda>_. True);
       better \<leftarrow> (case selected of
          None \<Rightarrow> Some True
        | Some s \<Rightarrow> do {
            es \<leftarrow> edge_at nodes s;
            Some (option_less (last_sampled e) (last_sampled es))
          });
       Some (reachable', if better then Some edge_id else selected)
     }
   }"

definition sampling_node :: "edge_table \<Rightarrow> u64 \<Rightarrow> usize \<Rightarrow> bool list \<times> EdgeId option \<Rightarrow>
    (bool list \<times> EdgeId option) run" where
  "sampling_node nodes elapsed_ms node st = do {
     reached \<leftarrow> index_run (fst st) node;
     if \<not> reached then Some st
     else do {
       es \<leftarrow> index_run nodes node;
       fold_run (sampling_visit nodes elapsed_ms node) [0..<length es] st
     }
   }"

definition sampling_edge :: "edge_table \<Rightarrow> u64 \<Rightarrow> EdgeId option run" where
  "sampling_edge nodes elapsed_ms = do {
     let destination = length nodes - 1;
     reachable \<leftarrow> update_run (replicate (length nodes) False) 0 (\<lambda>_. True);
     (_, selected) \<leftarrow> fold_run (sampling_node nodes elapsed_ms) [0..<destination] (reachable, None);
     Some selected
   }"

definition reserve_edge :: "u64 \<Rightarrow> usize \<Rightarrow> bool \<Rightarrow> EdgeId \<Rightarrow> edge_table \<times> u64 \<Rightarrow> (edge_table \<times> u64) run" where
  "reserve_edge elapsed_ms scheduled_bytes sample eid st = do {
     let (nodes, cursor) = st;
     e \<leftarrow> edge_at nodes eid;
     let start = max cursor (virtual_free_at e);
     ser \<leftarrow> serialization_time nodes eid scheduled_bytes;
     let finished = start + ser;
     lat \<leftarrow> latency nodes eid;
     nodes' \<leftarrow> update_edge nodes eid (\<lambda>e. e\<lparr>virtual_free_at := finished,
        last_sampled := (if sample then Some elapsed_ms else last_sampled e)\<rparr>);
     Some (nodes', finished + lat)
   }"

definition reserve :: "edge_table \<Rightarrow> EdgeId list \<Rightarrow> u64 \<Rightarrow> usize \<Rightarrow> bool \<Rightarrow> edge_table run" where
  "reserve nodes path elapsed_ms scheduled_bytes sample = do {
     (nodes', cursor) \<leftarrow> fold_run (reserve_edge elapsed_ms scheduled_bytes sample) path
        (nodes, elapsed_ms * FIXED_ONE);
     Some nodes'
   }"

fun plan_channels :: "edge_table \<Rightarrow> EdgeId list \<Rightarrow> ChannelId list run" where
  "plan_channels nodes [] = Some []"
| "plan_channels nodes (eid # path) = do {
     e \<leftarrow> edge_at nodes eid;
     rest \<leftarrow> plan_channels nodes path;
     Some (channel_id e # rest)
   }"

definition build_route_plan :: "RoutePlanner \<Rightarrow> u64 \<Rightarrow> usize \<Rightarrow> bool \<Rightarrow>
    (ChannelId list option \<times> RoutePlanner) run" where
  "build_route_plan planner elapsed_ms scheduled_bytes sample = do {
     let nodes = planner_nodes planner;
     forced \<leftarrow> (if sample then sampling_edge nodes elapsed_ms else Some None);
     if sample \<and> forced = None then Some (None, planner)
     else do {
       found \<leftarrow> calculate_path nodes elapsed_ms scheduled_bytes forced;
       (case found of
          None \<Rightarrow> Some (None, planner)
        | Some edge_ids \<Rightarrow> do {
            nodes' \<leftarrow> reserve nodes edge_ids elapsed_ms scheduled_bytes sample;
            channels \<leftarrow> plan_channels nodes' edge_ids;
            Some (Some channels, planner\<lparr>planner_nodes := nodes'\<rparr>)
          })
     }
   }"

definition note_local_send_failure :: "RoutePlanner \<Rightarrow> ChannelId \<Rightarrow> u64 \<Rightarrow> RoutePlanner run" where
  "note_local_send_failure planner ch elapsed_ms = do {
     let nodes = planner_nodes planner;
     es \<leftarrow> index_run nodes 0;
     edge \<leftarrow> position (\<lambda>e. channel_id e = ch) es;
     nodes' \<leftarrow> update_edge nodes \<lparr>eid_node = 0, eid_edge = edge\<rparr> (\<lambda>e.
       let e1 = (if (case last_observation_at e of None \<Rightarrow> True | Some prev \<Rightarrow> prev \<le> elapsed_ms)
                 then e\<lparr>loss := loss e + (LOSS_ONE - loss e) div 2, last_observation_at := Some elapsed_ms\<rparr>
                 else e)
       in e1\<lparr>cooldown_until := elapsed_ms + retry_delay_ms e1,
             retry_delay_ms := min (retry_delay_ms e1 * 2) LOCAL_COOLDOWN_MAX_MS\<rparr>);
     Some (planner\<lparr>planner_nodes := nodes'\<rparr>)
   }"

record feedback_state =
  fb_nodes :: edge_table
  fb_node :: usize
  fb_first :: "EdgeId option"
  fb_accepted_first :: bool

definition feedback_hop :: "u64 \<Rightarrow> bool \<Rightarrow> ChannelId \<Rightarrow> feedback_state \<Rightarrow> feedback_state run" where
  "feedback_hop observation_at success channel st = do {
     es \<leftarrow> index_run (fb_nodes st) (fb_node st);
     edge \<leftarrow> position (\<lambda>e. channel_id e = channel) es;
     let edge_id = \<lparr>eid_node = fb_node st, eid_edge = edge\<rparr>;
     let is_first = (fb_first st = None);
     let first = (if is_first then Some edge_id else fb_first st);
     e \<leftarrow> edge_at (fb_nodes st) edge_id;
     let st1 = st\<lparr>fb_node := edge_next e, fb_first := first\<rparr>;
     if (case last_observation_at e of None \<Rightarrow> False | Some prev \<Rightarrow> observation_at < prev)
     then Some st1
     else do {
       nodes' \<leftarrow> update_edge (fb_nodes st) edge_id (\<lambda>e. e\<lparr>
          loss := (if success then loss e * 3 div 4 else loss e + (LOSS_ONE - loss e) div 16),
          last_observation_at := Some observation_at\<rparr>);
       Some (st1\<lparr>fb_nodes := nodes', fb_accepted_first := fb_accepted_first st \<or> is_first\<rparr>)
     }
   }"

definition note_feedback :: "RoutePlanner \<Rightarrow> ChannelId list \<Rightarrow> u64 \<Rightarrow> bool \<Rightarrow> RoutePlanner run" where
  "note_feedback planner plan observation_at success = do {
     st \<leftarrow> fold_run (feedback_hop observation_at success) plan
       \<lparr>fb_nodes = planner_nodes planner, fb_node = 0, fb_first = None, fb_accepted_first = False\<rparr>;
     nodes' \<leftarrow> (if success \<and> fb_accepted_first st
        then do {
          first \<leftarrow> fb_first st;
          update_edge (fb_nodes st) first (\<lambda>e. e\<lparr>cooldown_until := 0,
             retry_delay_ms := LOCAL_COOLDOWN_INITIAL_MS\<rparr>)
        }
        else Some (fb_nodes st));
     Some (planner\<lparr>planner_nodes := nodes'\<rparr>)
   }"

end
