(* ===== verification/Kcp.thy ===== *)
theory Kcp
  imports Ray_Prelude
begin

section \<open>The KCP control block (kcp/kcp.rs)\<close>

text \<open>
  The automatic repeat request protocol under a session: fragmentation, retransmission,
  acknowledgement, window probing and reassembly.  A \<open>Kcp\<close> is a record of the fields of the
  struct; every method is a function that returns the updated record, with the result or error
  where the method has one.  Sequence numbers and times are \<open>u32\<close> and compared by the signed
  difference \<open>timediff\<close>; \<open>u16\<close> windows and counters keep their width; byte counts are natural
  numbers.  The cargo feature \<^verbatim>\<open>fastack-conserve\<close> is off, as in the default build.
\<close>

definition KCP_CMD_PUSH :: u8 where [simp]: "KCP_CMD_PUSH = 81"
definition KCP_CMD_ACK :: u8 where [simp]: "KCP_CMD_ACK = 82"
definition KCP_CMD_WASK :: u8 where [simp]: "KCP_CMD_WASK = 83"
definition KCP_CMD_WINS :: u8 where [simp]: "KCP_CMD_WINS = 84"
definition KCP_ASK_SEND :: u32 where [simp]: "KCP_ASK_SEND = 1"
definition KCP_ASK_TELL :: u32 where [simp]: "KCP_ASK_TELL = 2"
definition KCP_OVERHEAD :: usize where [simp]: "KCP_OVERHEAD = 28"
definition KCP_THRESH_INIT :: u16 where [simp]: "KCP_THRESH_INIT = 2"
definition KCP_THRESH_MIN :: u16 where [simp]: "KCP_THRESH_MIN = 2"
definition KCP_RTO_MAX_SCALE :: u32 where [simp]: "KCP_RTO_MAX_SCALE = 6000"
definition KCP_FASTACK_LIMIT :: u32 where [simp]: "KCP_FASTACK_LIMIT = 5"

datatype KcpError = ConvInconsistent | InvalidSegmentSize | InvalidSegmentDataSize | NeedUpdate
  | RecvQueueEmpty | ExpectingFragment | UnsupportedCmd | UserBufTooBig | UserBufTooSmall

record KcpParams =
  kp_mtu :: usize
  kp_send_window :: u16
  kp_receive_window :: u16
  kp_nodelay :: bool
  kp_fast_resend :: "u32 option"
  kp_congestion_control :: bool
  kp_time_scale :: u8

record KcpTiming =
  rto_nodelay :: u32
  rto_normal :: u32
  rto_initial :: u32
  rto_max :: u32
  interval :: u32
  probe_initial :: u32
  probe_max :: u32

record KcpSegment =
  sg_conv :: u64
  sg_cmd :: u8
  sg_frg :: u8
  sg_wnd :: u16
  sg_ts :: u32
  sg_sn :: u32
  sg_una :: u32
  sg_resendts :: u32
  sg_rto :: u32
  sg_fastack :: u32
  sg_xmit :: u32
  sg_data :: bytes

record Kcp =
  kc_conv :: u64
  kc_mtu :: usize
  kc_mss :: usize
  snd_una :: u32
  snd_nxt :: u32
  rcv_nxt :: u32
  ssthresh :: u16
  rx_rttval :: u32
  rx_srtt :: u32
  rx_rto :: u32
  rx_minrto :: u32
  kc_timing :: KcpTiming
  snd_wnd :: u16
  rcv_wnd :: u16
  rmt_wnd :: u16
  cwnd :: u16
  probe :: u32
  current :: u32
  ts_flush :: u32
  nodelay :: bool
  updated :: bool
  ts_probe :: u32
  probe_wait :: u32
  incr :: usize
  snd_queue :: "KcpSegment list"
  rcv_queue :: "KcpSegment list"
  snd_buf :: "KcpSegment list"
  rcv_buf :: "KcpSegment list"
  acklist :: "(u32 \<times> u32) list"
  kc_buf :: bytes
  fastresend :: "u32 option"
  fastlimit :: u32
  congestion_control :: bool
  kc_output :: "bytes list"

definition timing_new :: "u8 \<Rightarrow> KcpTiming" where
  "timing_new time_scale = (let scale = (ucast time_scale :: u32) in
     \<lparr>rto_nodelay = 3 * scale, rto_normal = 10 * scale, rto_initial = 20 * scale,
      rto_max = KCP_RTO_MAX_SCALE * scale, interval = 2 * scale,
      probe_initial = 700 * scale, probe_max = 12000 * scale\<rparr>)"

definition get_conv :: "bytes \<Rightarrow> u64 run" where
  "get_conv buf = map_option from_le_bytes (slice_run buf 0 8)"

definition timediff :: "u32 \<Rightarrow> u32 \<Rightarrow> int" where
  "timediff later earlier = sint (later - earlier)"

subsection \<open>Segments\<close>

definition segment_default :: KcpSegment where
  "segment_default = \<lparr>sg_conv = 0, sg_cmd = 0, sg_frg = 0, sg_wnd = 0, sg_ts = 0, sg_sn = 0, sg_una = 0,
     sg_resendts = 0, sg_rto = 0, sg_fastack = 0, sg_xmit = 0, sg_data = []\<rparr>"

definition new_with_data :: "bytes \<Rightarrow> KcpSegment" where
  "new_with_data data = segment_default\<lparr>sg_data := data\<rparr>"

definition segment_encode :: "KcpSegment \<Rightarrow> bytes" where
  "segment_encode seg = to_le_bytes 8 (sg_conv seg) @ [sg_cmd seg] @ [sg_frg seg] @ to_le_bytes 2 (sg_wnd seg)
     @ to_le_bytes 4 (sg_ts seg) @ to_le_bytes 4 (sg_sn seg) @ to_le_bytes 4 (sg_una seg)
     @ to_le_bytes 4 (word_of_nat (length (sg_data seg)) :: u32) @ sg_data seg"

subsection \<open>Construction and reception\<close>

definition kcp_new :: "u64 \<Rightarrow> KcpParams \<Rightarrow> Kcp" where
  "kcp_new conv params = (let timing = timing_new (kp_time_scale params) in
     \<lparr>kc_conv = conv, kc_mtu = kp_mtu params,
      kc_mss = (if KCP_OVERHEAD \<le> kp_mtu params then kp_mtu params - KCP_OVERHEAD
                else 2 ^ 64 + kp_mtu params - KCP_OVERHEAD),
      snd_una = 0, snd_nxt = 0, rcv_nxt = 0, ssthresh = KCP_THRESH_INIT, rx_rttval = 0, rx_srtt = 0,
      rx_rto = rto_initial timing,
      rx_minrto = (if kp_nodelay params then rto_nodelay timing else rto_normal timing),
      kc_timing = timing, snd_wnd = kp_send_window params, rcv_wnd = kp_receive_window params,
      rmt_wnd = kp_receive_window params, cwnd = 0, probe = 0, current = 0, ts_flush = interval timing,
      nodelay = kp_nodelay params, updated = False, ts_probe = 0, probe_wait = 0, incr = 0,
      snd_queue = [], rcv_queue = [], snd_buf = [], rcv_buf = [], acklist = [], kc_buf = [],
      fastresend = kp_fast_resend params, fastlimit = KCP_FASTACK_LIMIT,
      congestion_control = kp_congestion_control params, kc_output = []\<rparr>)"

fun move_segments :: "u16 \<Rightarrow> KcpSegment list \<Rightarrow> KcpSegment list \<Rightarrow> u32 \<Rightarrow>
    KcpSegment list \<times> KcpSegment list \<times> u32" where
  "move_segments wnd [] queue nxt = ([], queue, nxt)"
| "move_segments wnd (seg # rest) queue nxt =
     (if sg_sn seg = nxt \<and> length queue < unat wnd
      then move_segments wnd rest (queue @ [seg]) (nxt + 1)
      else (seg # rest, queue, nxt))"

definition move_buf :: "Kcp \<Rightarrow> Kcp" where
  "move_buf k = (let (rb, rq, nxt) = move_segments (rcv_wnd k) (rcv_buf k) (rcv_queue k) (rcv_nxt k)
     in k\<lparr>rcv_buf := rb, rcv_queue := rq, rcv_nxt := nxt\<rparr>)"

fun fragments_len :: "KcpSegment list \<Rightarrow> usize" where
  "fragments_len [] = 0"
| "fragments_len (seg # rest) = length (sg_data seg) + (if sg_frg seg = 0 then 0 else fragments_len rest)"

definition peeksize :: "Kcp \<Rightarrow> KcpError + usize" where
  "peeksize k = (case rcv_queue k of
      [] \<Rightarrow> Inl RecvQueueEmpty
    | seg # _ \<Rightarrow>
        if sg_frg seg = 0 then Inr (length (sg_data seg))
        else if length (rcv_queue k) < unat (sg_frg seg + 1) then Inl ExpectingFragment
        else Inr (fragments_len (rcv_queue k)))"

fun merge_fragments :: "KcpSegment list \<Rightarrow> bytes \<Rightarrow> usize \<Rightarrow> (KcpSegment list \<times> bytes \<times> usize) run" where
  "merge_fragments [] buf written = Some ([], buf, written)"
| "merge_fragments (seg # rest) buf written =
     (let fin = written + length (sg_data seg)
      in if length buf < fin then panic
         else let buf' = take written buf @ sg_data seg @ drop fin buf
              in if sg_frg seg = 0 then Some (rest, buf', fin)
                 else merge_fragments rest buf' fin)"

definition kcp_recv :: "Kcp \<Rightarrow> bytes \<Rightarrow> ((KcpError + usize) \<times> bytes \<times> Kcp) run" where
  "kcp_recv k buf =
     (if rcv_queue k = [] then Some (Inl RecvQueueEmpty, buf, k)
      else (case peeksize k of
          Inl e \<Rightarrow> Some (Inl e, buf, k)
        | Inr peeked \<Rightarrow>
            if length buf < peeked then Some (Inl UserBufTooSmall, buf, k)
            else do {
              let recover = (unat (rcv_wnd k) \<le> length (rcv_queue k));
              (rest, buf', written) \<leftarrow> merge_fragments (rcv_queue k) buf 0;
              let k1 = move_buf (k\<lparr>rcv_queue := rest\<rparr>);
              let k2 = (if length (rcv_queue k1) < unat (rcv_wnd k1) \<and> recover
                        then k1\<lparr>probe := probe k1 OR KCP_ASK_TELL\<rparr> else k1);
              Some (Inr written, buf', k2)
            }))"

subsection \<open>Sending\<close>

fun split_fragments :: "usize \<Rightarrow> usize \<Rightarrow> bytes \<Rightarrow> KcpSegment list" where
  "split_fragments mss 0 buf = []"
| "split_fragments mss (Suc n) buf = (let n1 = min mss (length buf) in
     (new_with_data (take n1 buf))\<lparr>sg_frg := word_of_nat n\<rparr> # split_fragments mss n (drop n1 buf))"

definition fragment_count :: "usize \<Rightarrow> usize \<Rightarrow> usize run" where
  "fragment_count mss n = (if mss = 0 then panic
     else Some (max (if n mod mss \<noteq> 0 then n div mss + 1 else n div mss) 1))"

definition kcp_send :: "Kcp \<Rightarrow> bytes \<Rightarrow> ((KcpError + usize) \<times> Kcp) run" where
  "kcp_send k buf = do {
     let sent_size = length buf;
     count_segs \<leftarrow> fragment_count (kc_mss k) (length buf);
     if unat (rcv_wnd k) \<le> count_segs \<or> 256 \<le> count_segs then Some (Inl UserBufTooBig, k)
     else Some (Inr sent_size, k\<lparr>snd_queue := snd_queue k @ split_fragments (kc_mss k) count_segs buf\<rparr>)
   }"

subsection \<open>Acknowledgements\<close>

definition clamp_run :: "u32 \<Rightarrow> u32 \<Rightarrow> u32 \<Rightarrow> u32 run" where
  "clamp_run x lo hi = (if hi < lo then panic else Some (if x < lo then lo else if hi < x then hi else x))"

definition update_ack :: "Kcp \<Rightarrow> u32 \<Rightarrow> Kcp run" where
  "update_ack k rtt = do {
     let (srtt, rttval) = (if rx_srtt k = 0 then (rtt, rtt div 2)
       else let delta = (if rtt < rx_srtt k then rx_srtt k - rtt else rtt - rx_srtt k)
            in (max ((7 * rx_srtt k + rtt) div 8) 1, (3 * rx_rttval k + delta) div 4));
     let rto = srtt + max (interval (kc_timing k)) (4 * rttval);
     clamped \<leftarrow> clamp_run rto (rx_minrto k) (rto_max (kc_timing k));
     Some (k\<lparr>rx_srtt := srtt, rx_rttval := rttval, rx_rto := clamped\<rparr>)
   }"

definition shrink_buf :: "Kcp \<Rightarrow> Kcp" where
  "shrink_buf k = k\<lparr>snd_una := (case snd_buf k of seg # _ \<Rightarrow> sg_sn seg | [] \<Rightarrow> snd_nxt k)\<rparr>"

fun remove_acked :: "u32 \<Rightarrow> KcpSegment list \<Rightarrow> KcpSegment list" where
  "remove_acked sn [] = []"
| "remove_acked sn (seg # rest) =
     (if sn = sg_sn seg then rest
      else if sn < sg_sn seg then seg # rest
      else seg # remove_acked sn rest)"

definition parse_ack :: "Kcp \<Rightarrow> u32 \<Rightarrow> Kcp" where
  "parse_ack k sn =
     (if timediff sn (snd_una k) < 0 \<or> 0 \<le> timediff sn (snd_nxt k) then k
      else k\<lparr>snd_buf := remove_acked sn (snd_buf k)\<rparr>)"

definition parse_una :: "Kcp \<Rightarrow> u32 \<Rightarrow> Kcp" where
  "parse_una k una = k\<lparr>snd_buf := dropWhile (\<lambda>seg. 0 < timediff una (sg_sn seg)) (snd_buf k)\<rparr>"

fun count_fastack :: "u32 \<Rightarrow> u32 \<Rightarrow> KcpSegment list \<Rightarrow> KcpSegment list" where
  "count_fastack sn ts [] = []"
| "count_fastack sn ts (seg # rest) =
     (if timediff sn (sg_sn seg) < 0 then seg # rest
      else if sn \<noteq> sg_sn seg \<and> 0 \<le> timediff ts (sg_ts seg)
      then seg\<lparr>sg_fastack := sg_fastack seg + 1\<rparr> # count_fastack sn ts rest
      else seg # count_fastack sn ts rest)"

definition parse_fastack :: "Kcp \<Rightarrow> u32 \<Rightarrow> u32 \<Rightarrow> Kcp" where
  "parse_fastack k sn ts =
     (if timediff sn (snd_una k) < 0 \<or> 0 \<le> timediff sn (snd_nxt k) then k
      else k\<lparr>snd_buf := count_fastack sn ts (snd_buf k)\<rparr>)"

definition ack_push :: "Kcp \<Rightarrow> u32 \<Rightarrow> u32 \<Rightarrow> Kcp" where
  "ack_push k sn ts = k\<lparr>acklist := acklist k @ [(sn, ts)]\<rparr>"

subsection \<open>Input\<close>

fun scan_back :: "u32 \<Rightarrow> KcpSegment list \<Rightarrow> usize \<Rightarrow> bool \<times> usize" where
  "scan_back sn [] new_index = (False, new_index)"
| "scan_back sn (seg # rest) new_index =
     (if sg_sn seg = sn then (True, new_index)
      else if 0 < timediff sn (sg_sn seg) then (False, new_index)
      else scan_back sn rest (new_index - 1))"

definition parse_data :: "Kcp \<Rightarrow> KcpSegment \<Rightarrow> Kcp" where
  "parse_data k seg =
     (let sn = sg_sn seg
      in if 0 \<le> timediff sn (rcv_nxt k + ucast (rcv_wnd k)) \<or> timediff sn (rcv_nxt k) < 0 then k
         else
           let (repeat, new_index) = scan_back sn (rev (rcv_buf k)) (length (rcv_buf k));
               k1 = (if repeat then k
                     else k\<lparr>rcv_buf := take new_index (rcv_buf k) @ [seg] @ drop new_index (rcv_buf k)\<rparr>)
           in move_buf k1)"

record input_vars =
  iv_flag :: bool
  iv_max_ack :: u32
  iv_latest_ts :: u32

definition input_ack :: "Kcp \<Rightarrow> input_vars \<Rightarrow> u32 \<Rightarrow> u32 \<Rightarrow> (Kcp \<times> input_vars) run" where
  "input_ack k vars sn ts = do {
     let rtt = timediff (current k) ts;
     k1 \<leftarrow> (if 0 \<le> rtt then update_ack k (word_of_int rtt) else Some k);
     let k2 = shrink_buf (parse_ack k1 sn);
     let vars' = (if \<not> iv_flag vars then \<lparr>iv_flag = True, iv_max_ack = sn, iv_latest_ts = ts\<rparr>
        else if 0 < timediff sn (iv_max_ack vars) \<and> 0 < timediff ts (iv_latest_ts vars)
        then vars\<lparr>iv_max_ack := sn, iv_latest_ts := ts\<rparr>
        else vars);
     Some (k2, vars')
   }"

definition input_push :: "Kcp \<Rightarrow> KcpSegment \<Rightarrow> Kcp" where
  "input_push k seg =
     (if timediff (sg_sn seg) (rcv_nxt k + ucast (rcv_wnd k)) < 0
      then let k1 = ack_push k (sg_sn seg) (sg_ts seg)
           in if 0 \<le> timediff (sg_sn seg) (rcv_nxt k1) then parse_data k1 seg else k1
      else k)"

definition segment_header :: "bytes \<Rightarrow> KcpSegment \<times> usize" where
  "segment_header buf =
     (segment_default\<lparr>sg_conv := from_le_bytes (take 8 buf), sg_cmd := buf ! 8, sg_frg := buf ! 9,
        sg_wnd := from_le_bytes (take 2 (drop 10 buf)), sg_ts := from_le_bytes (take 4 (drop 12 buf)),
        sg_sn := from_le_bytes (take 4 (drop 16 buf)), sg_una := from_le_bytes (take 4 (drop 20 buf))\<rparr>,
      unat (from_le_bytes (take 4 (drop 24 buf)) :: u32))"

definition input_segment :: "Kcp \<Rightarrow> input_vars \<Rightarrow> KcpSegment \<Rightarrow> bytes \<Rightarrow> (Kcp \<times> input_vars) run" where
  "input_segment k vars hdr data =
     (let k1 = shrink_buf (parse_una (k\<lparr>rmt_wnd := sg_wnd hdr\<rparr>) (sg_una hdr))
      in if sg_cmd hdr = KCP_CMD_ACK then input_ack k1 vars (sg_sn hdr) (sg_ts hdr)
         else if sg_cmd hdr = KCP_CMD_PUSH then Some (input_push k1 (hdr\<lparr>sg_data := data\<rparr>), vars)
         else if sg_cmd hdr = KCP_CMD_WASK then Some (k1\<lparr>probe := probe k1 OR KCP_ASK_TELL\<rparr>, vars)
         else Some (k1, vars))"

function input_loop :: "Kcp \<Rightarrow> input_vars \<Rightarrow> bytes \<Rightarrow> ((KcpError + input_vars \<times> bytes) \<times> Kcp) run" where
  "input_loop k vars buf =
     (if length buf < KCP_OVERHEAD then Some (Inr (vars, buf), k)
      else
        let (hdr, len) = segment_header buf;
            body = drop KCP_OVERHEAD buf
        in if sg_conv hdr \<noteq> kc_conv k then Some (Inl ConvInconsistent, k)
           else if length body < len then Some (Inl InvalidSegmentDataSize, k)
           else if sg_cmd hdr \<notin> {KCP_CMD_PUSH, KCP_CMD_ACK, KCP_CMD_WASK, KCP_CMD_WINS}
           then Some (Inl UnsupportedCmd, k)
           else do {
             (k', vars') \<leftarrow> input_segment k vars hdr (take len body);
             input_loop k' vars' (drop len body)
           })"
  by pat_completeness auto
termination
  by (relation "measure (\<lambda>(k, vars, buf). length buf)") auto

declare input_loop.simps [simp del]

definition grow_incr :: "Kcp \<Rightarrow> Kcp run" where
  "grow_incr k =
     (let mss = kc_mss k; incr1 = max (incr k) mss; incr2 = incr1 + (mss * mss) div incr1 + mss div 16
      in if cwnd k < ssthresh k then Some (k\<lparr>cwnd := cwnd k + 1, incr := incr k + mss\<rparr>)
         else if incr1 = 0 then panic
         else if (unat (cwnd k) + 1) * mss \<le> incr2
         then if mss = 0 then panic
              else let segs = (if incr2 mod mss \<noteq> 0 then incr2 div mss + 1 else incr2 div mss)
                   in Some (k\<lparr>cwnd := word_of_nat (min segs (unat (rmt_wnd k))), incr := incr2\<rparr>)
         else Some (k\<lparr>incr := incr2\<rparr>))"

definition limit_cwnd :: "Kcp \<Rightarrow> Kcp" where
  "limit_cwnd k = (if rmt_wnd k < cwnd k then k\<lparr>cwnd := rmt_wnd k, incr := unat (rmt_wnd k) * kc_mss k\<rparr> else k)"

definition grow_cwnd :: "Kcp \<Rightarrow> Kcp run" where
  "grow_cwnd k = do { k1 \<leftarrow> grow_incr k; Some (limit_cwnd k1) }"

definition kcp_input :: "Kcp \<Rightarrow> u32 \<Rightarrow> bytes \<Rightarrow> ((KcpError + usize) \<times> Kcp) run" where
  "kcp_input k now buf =
     (if length buf < KCP_OVERHEAD then Some (Inl InvalidSegmentSize, k)
      else do {
        let old_una = snd_una k;
        (r, k1) \<leftarrow> input_loop (k\<lparr>current := now\<rparr>) \<lparr>iv_flag = False, iv_max_ack = 0, iv_latest_ts = 0\<rparr> buf;
        (case r of
           Inl e \<Rightarrow> Some (Inl e, k1)
         | Inr (vars, rest) \<Rightarrow> do {
             let k2 = (if iv_flag vars \<and> fastresend k1 \<noteq> None
                       then parse_fastack k1 (iv_max_ack vars) (iv_latest_ts vars) else k1);
             k3 \<leftarrow> (if 0 < timediff (snd_una k2) old_una \<and> cwnd k2 < rmt_wnd k2 then grow_cwnd k2 else Some k2);
             Some (Inr (length buf - length rest), k3)
           })
      })"

subsection \<open>Timers\<close>

definition wnd_unused :: "Kcp \<Rightarrow> u16" where
  "wnd_unused k = (if length (rcv_queue k) < unat (rcv_wnd k)
     then rcv_wnd k - word_of_nat (length (rcv_queue k)) else 0)"

definition probe_wnd_size :: "Kcp \<Rightarrow> Kcp" where
  "probe_wnd_size k =
     (if rmt_wnd k = 0 then
        if probe_wait k = 0 then
          k\<lparr>probe_wait := probe_initial (kc_timing k), ts_probe := current k + probe_initial (kc_timing k)\<rparr>
        else if 0 \<le> timediff (current k) (ts_probe k) then
          let w1 = max (probe_wait k) (probe_initial (kc_timing k));
              w2 = min (w1 + w1 div 2) (probe_max (kc_timing k))
          in k\<lparr>probe_wait := w2, ts_probe := current k + w2, probe := probe k OR KCP_ASK_SEND\<rparr>
        else k
      else k\<lparr>ts_probe := 0, probe_wait := 0\<rparr>)"

fun check_segments :: "u32 \<Rightarrow> KcpSegment list \<Rightarrow> u32 \<Rightarrow> u32 option" where
  "check_segments now [] tm_packet = Some tm_packet"
| "check_segments now (seg # rest) tm_packet =
     (let diff = timediff (sg_resendts seg) now
      in if diff \<le> 0 then None else check_segments now rest (min tm_packet (word_of_int diff)))"

definition kcp_check :: "Kcp \<Rightarrow> u32 \<Rightarrow> u32" where
  "kcp_check k now =
     (if \<not> updated k then 0
      else
        let tsf = (if 10000 \<le> timediff now (ts_flush k) \<or> timediff now (ts_flush k) < - 10000
                   then now else ts_flush k)
        in if 0 \<le> timediff now tsf then 0
           else
             let tm_flush = (word_of_int (timediff tsf now) :: u32)
             in (case check_segments now (snd_buf k) (- 1) of
                   None \<Rightarrow> 0
                 | Some tm_packet \<Rightarrow> min (min tm_packet tm_flush) (interval (kc_timing k))))"

definition wait_snd :: "Kcp \<Rightarrow> usize" where
  "wait_snd k = length (snd_buf k) + length (snd_queue k)"

subsection \<open>Output\<close>

definition emit_output :: "bytes \<times> bytes list \<Rightarrow> bytes \<times> bytes list" where
  "emit_output io = (case io of (buf, output) \<Rightarrow> if buf \<noteq> [] then ([], output @ [buf]) else io)"

definition append_segment :: "usize \<Rightarrow> usize \<Rightarrow> KcpSegment \<Rightarrow> bytes \<times> bytes list \<Rightarrow> bytes \<times> bytes list" where
  "append_segment mtu need seg io =
     (let (buf, output) = (if mtu < length (fst io) + need then emit_output io else io)
      in (buf @ segment_encode seg, output))"

definition take_output :: "Kcp \<Rightarrow> bytes list \<times> Kcp" where
  "take_output k = (kc_output k, k\<lparr>kc_output := []\<rparr>)"

definition with_io :: "Kcp \<Rightarrow> bytes \<times> bytes list \<Rightarrow> Kcp" where
  "with_io k io = k\<lparr>kc_buf := fst io, kc_output := snd io\<rparr>"

definition flush_ack :: "Kcp \<Rightarrow> KcpSegment \<Rightarrow> Kcp \<times> KcpSegment" where
  "flush_ack k segment =
     (let (io, segment') = fold (\<lambda>(sn, ts) (io, seg).
            let seg' = seg\<lparr>sg_sn := sn, sg_ts := ts\<rparr>
            in (append_segment (kc_mtu k) KCP_OVERHEAD seg' io, seg'))
          (acklist k) ((kc_buf k, kc_output k), segment)
      in (with_io (k\<lparr>acklist := []\<rparr>) io, segment'))"

definition flush_probe_command :: "Kcp \<Rightarrow> u8 \<Rightarrow> KcpSegment \<Rightarrow> Kcp \<times> KcpSegment" where
  "flush_probe_command k cmd segment =
     (let segment' = segment\<lparr>sg_cmd := cmd\<rparr>
      in (with_io k (append_segment (kc_mtu k) KCP_OVERHEAD segment' (kc_buf k, kc_output k)), segment'))"

definition flush_probe_commands :: "Kcp \<Rightarrow> KcpSegment \<Rightarrow> Kcp \<times> KcpSegment" where
  "flush_probe_commands k segment =
     (let (k1, s1) = (if probe k AND KCP_ASK_SEND \<noteq> 0 then flush_probe_command k KCP_CMD_WASK segment
                      else (k, segment));
          (k2, s2) = (if probe k1 AND KCP_ASK_TELL \<noteq> 0 then flush_probe_command k1 KCP_CMD_WINS s1
                      else (k1, s1))
      in (k2\<lparr>probe := 0\<rparr>, s2))"

fun admit_segments :: "Kcp \<Rightarrow> u16 \<Rightarrow> u16 \<Rightarrow> KcpSegment list \<Rightarrow> u32 \<Rightarrow> KcpSegment list \<times> KcpSegment list \<times> u32" where
  "admit_segments k win wnd [] nxt = ([], [], nxt)"
| "admit_segments k win wnd (seg # queue) nxt =
     (if timediff nxt (snd_una k + ucast win) < 0
      then let seg' = seg\<lparr>sg_conv := kc_conv k, sg_cmd := KCP_CMD_PUSH, sg_wnd := wnd, sg_ts := current k,
                 sg_sn := nxt, sg_una := rcv_nxt k, sg_resendts := current k, sg_rto := rx_rto k,
                 sg_fastack := 0, sg_xmit := 0\<rparr>;
               (admitted, left, nxt') = admit_segments k win wnd queue (nxt + 1)
           in (seg' # admitted, left, nxt')
      else ([], seg # queue, nxt))"

record flush_vars =
  fv_io :: "bytes \<times> bytes list"
  fv_lost :: bool
  fv_change :: nat

definition transmit_decision :: "Kcp \<Rightarrow> KcpSegment \<Rightarrow> (KcpSegment \<times> bool \<times> bool) option" where
  "transmit_decision k seg =
     (let rtomin = (if \<not> nodelay k then drop_bit 3 (rx_rto k) else 0);
          limit = rto_max (kc_timing k)
      in if sg_xmit seg = 0 then
           Some (seg\<lparr>sg_xmit := sg_xmit seg + 1, sg_rto := rx_rto k,
                     sg_resendts := current k + (rx_rto k + rtomin)\<rparr>, False, False)
         else if 0 \<le> timediff (current k) (sg_resendts seg) then
           let rto = (if \<not> nodelay k then min (sg_rto seg + max (sg_rto seg) (rx_rto k)) limit
                      else min (sg_rto seg + sg_rto seg div 2) limit)
           in Some (seg\<lparr>sg_xmit := sg_xmit seg + 1, sg_rto := rto, sg_resendts := current k + rto\<rparr>, True, False)
         else if (case fastresend k of None \<Rightarrow> False | Some threshold \<Rightarrow> threshold \<le> sg_fastack seg)
              \<and> (sg_xmit seg \<le> fastlimit k \<or> fastlimit k = 0) then
           Some (seg\<lparr>sg_xmit := sg_xmit seg + 1, sg_fastack := 0, sg_resendts := current k + sg_rto seg\<rparr>, False, True)
         else None)"

definition flush_segment :: "Kcp \<Rightarrow> u16 \<Rightarrow> KcpSegment \<Rightarrow> flush_vars \<Rightarrow> KcpSegment \<times> flush_vars" where
  "flush_segment k wnd seg vars =
     (case transmit_decision k seg of
        None \<Rightarrow> (seg, vars)
      | Some (seg1, timed_out, fast) \<Rightarrow>
          let seg2 = seg1\<lparr>sg_ts := current k, sg_wnd := wnd, sg_una := rcv_nxt k\<rparr>;
              io = append_segment (kc_mtu k) (KCP_OVERHEAD + length (sg_data seg2)) seg2 (fv_io vars)
          in (seg2, \<lparr>fv_io = io, fv_lost = fv_lost vars \<or> timed_out,
                     fv_change = (if fast then fv_change vars + 1 else fv_change vars)\<rparr>))"

fun flush_segments :: "Kcp \<Rightarrow> u16 \<Rightarrow> KcpSegment list \<Rightarrow> flush_vars \<Rightarrow> KcpSegment list \<times> flush_vars" where
  "flush_segments k wnd [] vars = ([], vars)"
| "flush_segments k wnd (seg # rest) vars =
     (let (seg', vars1) = flush_segment k wnd seg vars;
          (rest', vars2) = flush_segments k wnd rest vars1
      in (seg' # rest', vars2))"

definition flush_window :: "Kcp \<Rightarrow> u16" where
  "flush_window k = (let w = min (snd_wnd k) (rmt_wnd k) in if congestion_control k then min w (cwnd k) else w)"

definition flush_congestion :: "Kcp \<Rightarrow> u16 \<Rightarrow> bool \<Rightarrow> nat \<Rightarrow> Kcp run" where
  "flush_congestion k win lost change = do {
     k1 \<leftarrow> (if 0 < change then do {
         resent \<leftarrow> fastresend k;
         let inflight = snd_nxt k - snd_una k;
         let thresh = max ((ucast inflight :: u16) div 2) KCP_THRESH_MIN;
         let w = (word_of_nat (min (min (unat thresh + unat resent) (2 ^ 32 - 1)) 65535) :: u16);
         Some (k\<lparr>ssthresh := thresh, cwnd := w, incr := unat w * kc_mss k\<rparr>)
       } else Some k);
     let k2 = (if lost then k1\<lparr>ssthresh := max (win div 2) KCP_THRESH_MIN, cwnd := 1, incr := kc_mss k1\<rparr> else k1);
     Some (if cwnd k2 < 1 then k2\<lparr>cwnd := 1, incr := kc_mss k2\<rparr> else k2)
   }"

definition kcp_flush :: "Kcp \<Rightarrow> ((KcpError + unit) \<times> Kcp) run" where
  "kcp_flush k =
     (if \<not> updated k then Some (Inl NeedUpdate, k)
      else do {
        let segment = segment_default\<lparr>sg_conv := kc_conv k, sg_cmd := KCP_CMD_ACK, sg_wnd := wnd_unused k,
                                      sg_una := rcv_nxt k\<rparr>;
        let (k1, s1) = flush_ack k segment;
        let (k2, s2) = flush_probe_commands (probe_wnd_size k1) s1;
        let win = flush_window k2;
        let (admitted, left, nxt) = admit_segments k2 win (sg_wnd s2) (snd_queue k2) (snd_nxt k2);
        let k3 = k2\<lparr>snd_queue := left, snd_buf := snd_buf k2 @ admitted, snd_nxt := nxt\<rparr>;
        let (segs, vars) = flush_segments k3 (sg_wnd s2) (snd_buf k3)
              \<lparr>fv_io = (kc_buf k3, kc_output k3), fv_lost = False, fv_change = 0\<rparr>;
        let k4 = with_io (k3\<lparr>snd_buf := segs\<rparr>) (emit_output (fv_io vars));
        k5 \<leftarrow> flush_congestion k4 win (fv_lost vars) (fv_change vars);
        Some (Inr (), k5)
      })"

definition kcp_update :: "Kcp \<Rightarrow> u32 \<Rightarrow> ((KcpError + unit) \<times> Kcp) run" where
  "kcp_update k now =
     (let k0 = k\<lparr>current := now\<rparr>;
          k1 = (if \<not> updated k0 then k0\<lparr>updated := True, ts_flush := now\<rparr> else k0);
          slap = timediff now (ts_flush k1);
          (k2, slap2) = (if slap < - 10000 \<or> 10000 \<le> slap then (k1\<lparr>ts_flush := now\<rparr>, 0) else (k1, slap))
      in if 0 \<le> slap2
         then let t1 = ts_flush k2 + interval (kc_timing k2);
                  t2 = (if 0 \<le> timediff now t1 then now + interval (kc_timing k2) else t1)
              in kcp_flush (k2\<lparr>ts_flush := t2\<rparr>)
         else Some (Inr (), k2))"

end
