(* ===== verification/Kcp_Segments.thy ===== *)
theory Kcp_Segments
  imports Kcp
begin

section \<open>KCP segments and messages\<close>

text \<open>
  What one segment and one message look like on either side of the wire.  A segment decodes to the
  fields that were encoded (the interpretation \<open>seg\<close> of \<open>wire_codec\<close>); the fragments \<open>kcp_send\<close>
  queues for a message are exactly what \<open>kcp_recv\<close> needs in front of its queue to give the message
  back.
\<close>

subsection \<open>Definitions\<close>

definition payload :: "KcpSegment \<Rightarrow> u8 \<times> bytes" where
  "payload seg = (sg_frg seg, sg_data seg)"

definition wire_part :: "KcpSegment \<Rightarrow> KcpSegment" where
  "wire_part seg = segment_default\<lparr>sg_conv := sg_conv seg, sg_cmd := sg_cmd seg, sg_frg := sg_frg seg,
     sg_wnd := sg_wnd seg, sg_ts := sg_ts seg, sg_sn := sg_sn seg, sg_una := sg_una seg\<rparr>"

definition segment_decode :: "bytes \<Rightarrow> KcpSegment run" where
  "segment_decode bs =
     (if length bs < KCP_OVERHEAD then None
      else let (hdr, len) = segment_header bs
           in if length (drop KCP_OVERHEAD bs) < len then None
              else Some (hdr\<lparr>sg_data := take len (drop KCP_OVERHEAD bs)\<rparr>))"

definition segment_wf :: "KcpSegment \<Rightarrow> bool" where
  "segment_wf seg \<longleftrightarrow> length (sg_data seg) < 2 ^ 32 \<and> seg = (wire_part seg)\<lparr>sg_data := sg_data seg\<rparr>"

definition fragments :: "usize \<Rightarrow> bytes \<Rightarrow> (u8 \<times> bytes) list" where
  "fragments mss m = map payload (split_fragments mss (the (fragment_count mss (length m))) m)"

definition queue_front :: "KcpSegment list \<Rightarrow> usize \<Rightarrow> bytes \<Rightarrow> KcpSegment list \<Rightarrow> bool" where
  "queue_front queue mss m rest \<longleftrightarrow> (\<exists>segs n. queue = segs @ rest \<and> n < 255 \<and> length m \<le> Suc n * mss \<and>
     map payload segs = map payload (split_fragments mss (Suc n) m))"

subsection \<open>Encoding, fragmentation and reassembly\<close>

lemma length_segment_encode [simp]: "length (segment_encode seg) = 28 + length (sg_data seg)"
  by (simp add: segment_encode_def)

lemma segment_header_encode:
  assumes "length (sg_data seg) < 2 ^ 32"
  shows "segment_header (segment_encode seg @ rest) = (wire_part seg, length (sg_data seg))"
proof -
  have "unat (word_of_nat (length (sg_data seg)) :: u32) = length (sg_data seg)"
    using assms by (simp add: unsigned_of_nat take_bit_nat_eq_self)
  then show ?thesis
    by (simp add: segment_header_def segment_encode_def wire_part_def from_to_le_bytes_full nth_append)
qed

interpretation seg: wire_codec segment_encode segment_decode segment_wf
proof
  fix seg assume wf: "segment_wf seg"
  have "segment_header (segment_encode seg) = (wire_part seg, length (sg_data seg))"
    using segment_header_encode [of seg "[]"] wf by (simp add: segment_wf_def)
  moreover have "drop 28 (segment_encode seg) = sg_data seg"
    by (simp add: segment_encode_def)
  ultimately show "segment_decode (segment_encode seg) = Some seg"
    using wf by (simp add: segment_decode_def segment_wf_def)
qed

lemma length_split_fragments [simp]: "length (split_fragments mss n m) = n"
  by (induction n arbitrary: m) (auto simp: Let_def)

lemma payload_new [simp]: "payload ((new_with_data d)\<lparr>sg_frg := f\<rparr>) = (f, d)"
  by (simp add: payload_def new_with_data_def)

lemma split_fragments_data:
  "concat (map sg_data (split_fragments mss n m)) = take (n * mss) m"
proof (induction n arbitrary: m)
  case (Suc n)
  have "take (min mss (length m)) m = take mss m" "drop (min mss (length m)) m = drop mss m"
    by (auto simp: min_def)
  with Suc [of "drop mss m"] show ?case
    by (simp add: Let_def new_with_data_def take_add)
qed simp

lemma split_fragments_size: "seg \<in> set (split_fragments mss n m) \<Longrightarrow> length (sg_data seg) \<le> mss"
  by (induction n arbitrary: m) (auto simp: Let_def new_with_data_def)

lemma fragment_count_covers:
  assumes "0 < mss"
  shows "\<exists>n. fragment_count mss (length m) = Some n \<and> 0 < n \<and> length m \<le> n * mss"
proof -
  let ?q = "length m div mss"
  have "length m = ?q * mss + length m mod mss" by simp
  moreover have "length m mod mss < mss" using assms by simp
  ultimately have "length m \<le> Suc ?q * mss" "length m mod mss = 0 \<Longrightarrow> length m \<le> ?q * mss"
    unfolding mult_Suc by linarith+
  moreover have "?q = 0 \<Longrightarrow> length m \<le> 1 * mss" using assms by (simp add: div_eq_0_iff)
  ultimately show ?thesis
    using assms by (auto simp: fragment_count_def max_def)
qed

declare split_fragments.simps(2) [simp del]

lemma take_min_len: "take (min (length m) n) m = take n m"
  by (simp add: min_def)

text \<open>One message in front of a queue: reading off its fragments gives the message back.\<close>

lemma map_payload_split_Suc:
  "map payload (split_fragments mss (Suc n) m) =
     (word_of_nat n, take mss m) # map payload (split_fragments mss n (drop mss m))"
proof -
  have "take (min mss (length m)) m = take mss m" "drop (min mss (length m)) m = drop mss m"
    by (auto simp: min_def)
  then show ?thesis by (simp add: split_fragments.simps(2) Let_def)
qed

lemma word8_of_nat_zero: "n < 256 \<Longrightarrow> (word_of_nat n :: u8) = 0 \<longleftrightarrow> n = 0"
  by (simp add: word_unat_eq_iff unsigned_of_nat take_bit_nat_eq_self)

lemma fragments_len_message:
  assumes "map payload segs = map payload (split_fragments mss (Suc n) m)" and "n < 256" and "length m \<le> Suc n * mss"
  shows "fragments_len (segs @ rest) = length m"
  using assms
proof (induction n arbitrary: segs m)
  case 0
  then obtain s where "segs = [s]" "payload s = (0, take mss m)"
    unfolding map_payload_split_Suc by auto
  with 0 show ?case by (simp add: payload_def)
next
  case (Suc n)
  from Suc.prems(1) obtain s segs' where s: "segs = s # segs'" "payload s = (word_of_nat (Suc n), take mss m)"
    "map payload segs' = map payload (split_fragments mss (Suc n) (drop mss m))"
    unfolding map_payload_split_Suc [of mss "Suc n"] by auto
  then have "sg_frg s \<noteq> 0" using word8_of_nat_zero [of "Suc n"] Suc.prems(2) by (simp add: payload_def)
  with Suc.IH [OF s(3)] Suc.prems s(1,2) show ?case by (simp add: payload_def)
qed

lemma merge_message:
  assumes "map payload segs = map payload (split_fragments mss (Suc n) m)" and "n < 256" and "length m \<le> Suc n * mss"
    and "w + length m \<le> length buf"
  shows "merge_fragments (segs @ rest) buf w =
    Some (rest, take w buf @ m @ drop (w + length m) buf, w + length m)"
  using assms
proof (induction n arbitrary: segs m w buf)
  case 0
  then obtain s where "segs = [s]" "payload s = (0, m)"
    unfolding map_payload_split_Suc by auto
  with 0 show ?case by (simp add: payload_def Let_def)
next
  case (Suc n)
  from Suc.prems(1) obtain s segs' where s: "segs = s # segs'" "payload s = (word_of_nat (Suc n), take mss m)"
    "map payload segs' = map payload (split_fragments mss (Suc n) (drop mss m))"
    unfolding map_payload_split_Suc [of mss "Suc n"] by auto
  then have f: "sg_frg s \<noteq> 0" using word8_of_nat_zero [of "Suc n"] Suc.prems(2) by (simp add: payload_def)
  let ?l = "length (take mss m)" and ?buf = "take w buf @ take mss m @ drop (w + length (take mss m)) buf"
  have len: "w + ?l + length (drop mss m) = w + length m" "length ?buf = length buf" using Suc.prems(4) by auto
  have m: "merge_fragments (segs' @ rest) ?buf (w + ?l) =
      Some (rest, take (w + ?l) ?buf @ drop mss m @ drop (w + ?l + length (drop mss m)) ?buf,
        w + ?l + length (drop mss m))"
    by (rule Suc.IH [OF s(3)]) (use Suc.prems len in auto)
  have "take (w + ?l) ?buf = take w buf @ take mss m" using Suc.prems(4) by (simp add: take_min_len)
  moreover have "drop (w + length m) ?buf = drop (w + length m) buf"
    using Suc.prems(4) by (simp add: add.commute)
  ultimately have "merge_fragments (segs' @ rest) ?buf (w + ?l) =
      Some (rest, (take w buf @ take mss m) @ drop mss m @ drop (w + length m) buf, w + length m)"
    using m unfolding len(1) by (simp only:)
  with f s(1,2) Suc.prems(4) show ?case by (simp add: payload_def Let_def)
qed

lemma kcp_send_spec:
  assumes "0 < kc_mss k"
  shows "\<exists>n. fragment_count (kc_mss k) (length m) = Some n \<and> kcp_send k m =
    (if unat (rcv_wnd k) \<le> n \<or> 256 \<le> n then Some (Inl UserBufTooBig, k)
     else Some (Inr (length m), k\<lparr>snd_queue := snd_queue k @ split_fragments (kc_mss k) n m\<rparr>))"
  using fragment_count_covers [OF assms, of m] by (auto simp: kcp_send_def)

lemma peeksize_message:
  assumes "queue_front (rcv_queue k) mss m rest"
  shows "peeksize k = Inr (length m)"
proof -
  from assms obtain segs n where q: "rcv_queue k = segs @ rest" "n < 255" "length m \<le> Suc n * mss"
    "map payload segs = map payload (split_fragments mss (Suc n) m)" by (auto simp: queue_front_def)
  have len: "length segs = Suc n" using arg_cong [where f = length, OF q(4)] by simp
  from q(4) obtain s segs' where s: "segs = s # segs'" "payload s = (word_of_nat n, take mss m)"
    unfolding map_payload_split_Suc by auto
  have f: "fragments_len (rcv_queue k) = length m"
    using fragments_len_message [OF q(4) _ q(3), of rest] q(1,2) by simp
  have "unat (sg_frg s + 1) = Suc n"
    using s(2) q(2) by (simp add: payload_def unat_word_ariths unsigned_of_nat take_bit_nat_eq_self)
  with f q(1) s len show ?thesis by (auto simp: peeksize_def split: if_splits)
qed

lemma kcp_recv_message:
  assumes "queue_front (rcv_queue k) mss m rest" and "length m \<le> length buf"
  shows "\<exists>k'. kcp_recv k buf = Some (Inr (length m), m @ drop (length m) buf, k') \<and>
    (k' = move_buf (k\<lparr>rcv_queue := rest\<rparr>) \<or>
     k' = (move_buf (k\<lparr>rcv_queue := rest\<rparr>))\<lparr>probe := probe k OR KCP_ASK_TELL\<rparr>)"
proof -
  from assms(1) obtain segs n where q: "rcv_queue k = segs @ rest" "n < 255" "length m \<le> Suc n * mss"
    "map payload segs = map payload (split_fragments mss (Suc n) m)" by (auto simp: queue_front_def)
  have ne: "rcv_queue k \<noteq> []" using q(1) arg_cong [where f = length, OF q(4)] by auto
  have "merge_fragments (rcv_queue k) buf 0 = Some (rest, m @ drop (length m) buf, length m)"
    using merge_message [OF q(4) _ q(3), of 0 buf rest] q(1,2) assms(2) by simp
  moreover have "probe (move_buf (k\<lparr>rcv_queue := rest\<rparr>)) = probe k"
    by (simp add: move_buf_def split: prod.splits)
  ultimately show ?thesis
    using ne peeksize_message [OF assms(1)] assms(2) by (simp add: kcp_recv_def Let_def)
qed

lemma merge_fragments_shorter:
  "merge_fragments queue buf w = Some (rest, buf', w') \<Longrightarrow> queue \<noteq> [] \<Longrightarrow> length rest < length queue"
proof (induction queue buf w rule: merge_fragments.induct)
  case (2 seg queue buf w)
  then show ?case by (cases "queue = []") (force simp: Let_def split: if_splits)+
qed simp

lemma move_segments_length:
  "move_segments w segs queue nxt = (segs', queue', nxt') \<Longrightarrow> length segs' + length queue' = length segs + length queue"
  by (induction w segs queue nxt rule: move_segments.induct) (auto split: if_splits)

lemma move_buf_length: "length (rcv_queue (move_buf k)) + length (rcv_buf (move_buf k)) = length (rcv_queue k) + length (rcv_buf k)"
  by (auto simp: move_buf_def split: prod.splits dest: move_segments_length)

text \<open>Every successful receive consumes a segment, so reading all messages out of a control block ends.\<close>

lemma kcp_recv_decreases:
  assumes "kcp_recv k buf = Some (Inr w, buf', k')"
  shows "length (rcv_queue k') + length (rcv_buf k') < length (rcv_queue k) + length (rcv_buf k)"
proof -
  from assms have ne: "rcv_queue k \<noteq> []" by (auto simp: kcp_recv_def split: if_splits)
  with assms obtain rest wr where m: "merge_fragments (rcv_queue k) buf 0 = Some (rest, buf', wr)"
    and k': "rcv_queue k' = rcv_queue (move_buf (k\<lparr>rcv_queue := rest\<rparr>))" "rcv_buf k' = rcv_buf (move_buf (k\<lparr>rcv_queue := rest\<rparr>))"
    by (auto simp: kcp_recv_def Let_def split: if_splits sum.splits Option.bind_splits)
  have "length rest < length (rcv_queue k)" by (rule merge_fragments_shorter [OF m ne])
  with move_buf_length [of "k\<lparr>rcv_queue := rest\<rparr>"] show ?thesis unfolding k' by simp
qed

text \<open>Segment headers round-trip: from the encoding of a segment, followed by anything, the input
  loop reads back every header field, the length of the data and the data itself.\<close>

lemma kcp_segment_roundtrip:
  assumes "length (sg_data seg) < 2 ^ 32"
  shows "\<exists>hdr. segment_header (segment_encode seg @ rest) = (hdr, length (sg_data seg)) \<and>
    sg_conv hdr = sg_conv seg \<and> sg_cmd hdr = sg_cmd seg \<and> sg_frg hdr = sg_frg seg \<and> sg_wnd hdr = sg_wnd seg \<and>
    sg_ts hdr = sg_ts seg \<and> sg_sn hdr = sg_sn seg \<and> sg_una hdr = sg_una seg \<and>
    drop KCP_OVERHEAD (segment_encode seg @ rest) = sg_data seg @ rest"
  using segment_header_encode [OF assms, of rest] by (simp add: wire_part_def segment_encode_def)

end
