(* ===== verification/Ordered_Map.thy ===== *)
theory Ordered_Map
  imports Main
begin

section \<open>Ordered maps (std::collections::BTreeMap)\<close>

text \<open>
  A \<^verbatim>\<open>BTreeMap<K, V>\<close> is the association list of its entries in ascending key order, the order in
  which the program iterates.  The locale \<open>ordered_map\<close> is the contract the endpoint core relies
  on; it is interpreted on \<open>map_of\<close>, \<open>bt_insert\<close> and \<open>bt_remove\<close>.
\<close>

fun bt_insert :: "'k::linorder \<Rightarrow> 'v \<Rightarrow> ('k \<times> 'v) list \<Rightarrow> ('k \<times> 'v) list" where
  "bt_insert k v [] = [(k, v)]"
| "bt_insert k v ((k', v') # m) =
     (if k < k' then (k, v) # (k', v') # m
      else if k = k' then (k, v) # m
      else (k', v') # bt_insert k v m)"

definition bt_remove :: "'k \<Rightarrow> ('k \<times> 'v) list \<Rightarrow> ('k \<times> 'v) list" where
  "bt_remove k m = filter (\<lambda>(k', v). k' \<noteq> k) m"

definition bt_keys :: "('k \<times> 'v) list \<Rightarrow> 'k list" where
  "bt_keys m = map fst m"

definition bt_ordered :: "('k::linorder \<times> 'v) list \<Rightarrow> bool" where
  "bt_ordered m \<longleftrightarrow> sorted_wrt (<) (bt_keys m)"

locale ordered_map =
  fixes get :: "'m \<Rightarrow> 'k::linorder \<Rightarrow> 'v option"
    and insert :: "'k \<Rightarrow> 'v \<Rightarrow> 'm \<Rightarrow> 'm"
    and remove :: "'k \<Rightarrow> 'm \<Rightarrow> 'm"
    and keys :: "'m \<Rightarrow> 'k list"
    and ordered :: "'m \<Rightarrow> bool"
  assumes get_insert: "get (insert k v m) k' = (if k' = k then Some v else get m k')"
    and get_remove: "get (remove k m) k' = (if k' = k then None else get m k')"
    and keys_get: "k \<in> set (keys m) \<longleftrightarrow> get m k \<noteq> None"
    and ordered_insert: "ordered m \<Longrightarrow> ordered (insert k v m)"
    and ordered_remove: "ordered m \<Longrightarrow> ordered (remove k m)"
    and ordered_keys: "ordered m \<Longrightarrow> sorted_wrt (<) (keys m)"
begin

lemma keys_insert: "set (keys (insert k v m)) = Set.insert k (set (keys m))"
  by (auto simp: keys_get get_insert split: if_splits)

lemma keys_remove: "set (keys (remove k m)) = set (keys m) - {k}"
  by (auto simp: keys_get get_remove split: if_splits)

lemma insert_all:
  assumes "\<And>k' x. get m k' = Some x \<Longrightarrow> P k' x" "P k v"
  shows "get (insert k v m) k' = Some x \<Longrightarrow> P k' x"
  using assms by (auto simp: get_insert split: if_splits)

lemma remove_all:
  assumes "\<And>k' x. get m k' = Some x \<Longrightarrow> P k' x"
  shows "get (remove k m) k' = Some x \<Longrightarrow> P k' x"
  using assms by (auto simp: get_remove split: if_splits)

lemma distinct_keys: "ordered m \<Longrightarrow> distinct (keys m)"
  using ordered_keys by (simp add: strict_sorted_iff)

end

lemma bt_keys_simps [simp]: "bt_keys [] = []" "bt_keys (p # m) = fst p # bt_keys m"
  by (simp_all add: bt_keys_def)

lemma map_of_bt_insert: "map_of (bt_insert k v m) k' = (if k' = k then Some v else map_of m k')"
  by (induction m) auto

lemma keys_bt_insert: "set (bt_keys (bt_insert k v m)) = Set.insert k (set (bt_keys m))"
proof (induction m)
  case (Cons p m)
  then show ?case by (cases p) (simp add: insert_commute)
qed simp

lemma map_of_bt_remove: "map_of (bt_remove k m) k' = (if k' = k then None else map_of m k')"
  by (induction m) (auto simp: bt_remove_def)

lemma bt_ordered_insert: "bt_ordered m \<Longrightarrow> bt_ordered (bt_insert k v m)"
proof (induction m)
  case (Cons p m)
  obtain k' v' where p: "p = (k', v')" by fastforce
  have "\<forall>x \<in> set (bt_keys m). k' < x" "bt_ordered m" using Cons.prems p by (simp_all add: bt_ordered_def)
  with Cons p show ?case
    using keys_bt_insert [of k v m] by (auto simp: bt_ordered_def intro: less_trans)
qed (simp add: bt_ordered_def)

lemma bt_ordered_remove: "bt_ordered m \<Longrightarrow> bt_ordered (bt_remove k m)"
proof (induction m)
  case (Cons p m)
  have "set (bt_keys (bt_remove k m)) \<subseteq> set (bt_keys m)" by (auto simp: bt_keys_def bt_remove_def)
  with Cons show ?case by (auto simp: bt_ordered_def bt_remove_def)
qed (simp add: bt_remove_def)

interpretation bt: ordered_map map_of bt_insert bt_remove bt_keys bt_ordered
proof
  show "k \<in> set (bt_keys m) \<longleftrightarrow> map_of m k \<noteq> None" for k :: 'a and m :: "('a \<times> 'b) list"
    by (simp add: bt_keys_def map_of_eq_None_iff)
qed (simp_all add: map_of_bt_insert map_of_bt_remove bt_ordered_insert bt_ordered_remove, simp add: bt_ordered_def)

end
