(* ===== verification/Endpoint.thy ===== *)
theory Endpoint
  imports Machine Routing Kcp_Segments Ordered_Map
begin

section \<open>The endpoint core (endpoint.rs)\<close>

text \<open>
  The endpoint multiplexes sessions over routed, sealed envelopes: each session is a KCP control
  block with a life cycle (\<open>SessionPhase\<close>), outgoing KCP packets are sealed under a fresh stamp and
  sent along a planned route, route feedback is sampled and answered, and closed sessions leave a
  tombstone behind.  Every method of \<^verbatim>\<open>EndpointCore\<close> and \<^verbatim>\<open>EndpointSession\<close> is a function of the
  core record that returns the updated record and the list of actions with the new actions
  appended; \<open>None\<close> is a panic.  The \<^verbatim>\<open>BTreeMap\<close>s are ordered association lists; the iteration order
  of the sequence table is the parameter \<open>hash_iter\<close>; the crypto crates are the record \<open>cr\<close>.
  Subtractions of \<open>usize\<close> that the source does not guard wrap (\<open>usize_sub\<close>).
\<close>

definition SEQUENCE_MASK :: u64 where "SEQUENCE_MASK = push_bit 48 1 - 1"
definition SEQUENCE_SOFT_CAP :: usize where [simp]: "SEQUENCE_SOFT_CAP = 1"

definition usize_sub :: "usize \<Rightarrow> usize \<Rightarrow> usize" where
  "usize_sub a b = (if b \<le> a then a - b else 2 ^ 64 + a - b)"

record KcpConfig =
  kcf_send_window :: u16
  kcf_receive_window :: u16
  kcf_time_scale :: u8
  kcf_fast_resend :: u32

definition kcp_config_default :: KcpConfig where
  "kcp_config_default = \<lparr>kcf_send_window = 128, kcf_receive_window = 128, kcf_time_scale = 10, kcf_fast_resend = 32\<rparr>"

record EndpointConfig =
  ec_envelope_key :: bytes
  ec_message_key :: bytes
  ec_random_seed :: bytes
  ec_boot_time_ms :: u64
  ec_kcp :: KcpConfig
  ec_route :: RouteConfig
  ec_local_channels :: "ChannelId list"
  ec_padding_reserve :: u8
  ec_keepalive_interval_ms :: u32

datatype SessionPhase = PendingRemote | Open | ClosingLocal | ClosingRemote

datatype PacketId = PacketId (pid_seq_id: u64) (pid_seq_no: u64)

instantiation PacketId :: linorder
begin

definition less_eq_PacketId :: "PacketId \<Rightarrow> PacketId \<Rightarrow> bool" where
  "less_eq_PacketId a b \<longleftrightarrow> pid_seq_id a < pid_seq_id b \<or> pid_seq_id a = pid_seq_id b \<and> pid_seq_no a \<le> pid_seq_no b"

definition less_PacketId :: "PacketId \<Rightarrow> PacketId \<Rightarrow> bool" where
  "less_PacketId a b \<longleftrightarrow> pid_seq_id a < pid_seq_id b \<or> pid_seq_id a = pid_seq_id b \<and> pid_seq_no a < pid_seq_no b"

instance
  by standard (auto simp: less_eq_PacketId_def less_PacketId_def PacketId.expand)

end

record FeedbackSample =
  fs_route_plan :: RoutePlan
  fs_sent_at :: u64
  fs_deadline :: u64

record EndpointSession =
  ss_kcp :: Kcp
  ss_phase :: SessionPhase
  ss_peer_seq :: "u64 option"
  ss_pending_close :: "CloseReason option"
  ss_close_queued :: bool
  ss_close_deadline_at :: "u64 option"

record EndpointCore =
  ep_config :: EndpointConfig
  ep_kcp_params :: KcpParams
  ep_scheduled_packet_overhead :: usize
  ep_close_deadline_ms :: u64
  ep_route_planner :: RoutePlanner
  ep_random :: RandomStream
  ep_sequence_filter :: SequenceFilter
  ep_seq_id :: u64
  ep_next_seq_no :: u64
  ep_next_feedback_at :: u64
  ep_outstanding :: "(PacketId \<times> FeedbackSample) list"
  ep_next_keepalive_at :: u64
  ep_sessions :: "(ConvId \<times> EndpointSession) list"
  ep_tombstones :: "(ConvId \<times> u64) list"
  ep_next_conv_id :: ConvId
  ep_metrics :: CoreMetrics

subsection \<open>Sessions\<close>

definition session_new :: "ConvId \<Rightarrow> KcpParams \<Rightarrow> SessionPhase \<Rightarrow> EndpointSession" where
  "session_new conv_id params phase = \<lparr>ss_kcp = kcp_new conv_id params, ss_phase = phase, ss_peer_seq = None,
     ss_pending_close = None, ss_close_queued = False, ss_close_deadline_at = None\<rparr>"

definition unwrap :: "('e + 'a) \<Rightarrow> 'a run" where
  "unwrap r = (case r of Inl e \<Rightarrow> panic | Inr x \<Rightarrow> Some x)"

definition session_poll :: "EndpointSession \<Rightarrow> u64 \<Rightarrow> (bytes list \<times> EndpointSession) run" where
  "session_poll s elapsed_ms = do {
     (r, k) \<leftarrow> kcp_update (ss_kcp s) (ucast elapsed_ms);
     _ \<leftarrow> unwrap r;
     let (out, k') = take_output k;
     Some (out, s\<lparr>ss_kcp := k'\<rparr>)
   }"

definition session_flush_now :: "EndpointSession \<Rightarrow> u64 \<Rightarrow> (bytes list \<times> EndpointSession) run" where
  "session_flush_now s elapsed_ms = do {
     (r1, k1) \<leftarrow> kcp_update (ss_kcp s) (ucast elapsed_ms);
     _ \<leftarrow> unwrap r1;
     (r2, k2) \<leftarrow> kcp_flush k1;
     _ \<leftarrow> unwrap r2;
     let (out, k') = take_output k2;
     Some (out, s\<lparr>ss_kcp := k'\<rparr>)
   }"

definition session_send_message :: "EndpointSession \<Rightarrow> u64 \<Rightarrow> SessionMessage \<Rightarrow> (bytes list \<times> EndpointSession) run" where
  "session_send_message s elapsed_ms message = do {
     (r, k) \<leftarrow> kcp_send (ss_kcp s) (session_message_encode message);
     _ \<leftarrow> unwrap r;
     session_flush_now (s\<lparr>ss_kcp := k\<rparr>) elapsed_ms
   }"

function recv_messages :: "Kcp \<Rightarrow> (SessionMessage list \<times> Kcp) run" where
  "recv_messages k =
     (case peeksize k of
        Inl e \<Rightarrow> if e = RecvQueueEmpty \<or> e = ExpectingFragment then Some ([], k) else panic
      | Inr len \<Rightarrow>
          (case kcp_recv k (replicate len 0) of
             None \<Rightarrow> panic
           | Some (Inl e, data, k') \<Rightarrow> panic
           | Some (Inr written, data, k') \<Rightarrow> do {
               message \<leftarrow> session_message_decode data;
               (messages, k'') \<leftarrow> recv_messages k';
               Some (message # messages, k'')
             }))"
  by pat_completeness auto
termination
  by (relation "measure (\<lambda>k. length (rcv_queue k) + length (rcv_buf k))") (auto dest: kcp_recv_decreases)

definition session_input_packet :: "EndpointSession \<Rightarrow> u64 \<Rightarrow> bytes \<Rightarrow>
    (SessionMessage list \<times> bytes list \<times> EndpointSession) run" where
  "session_input_packet s elapsed_ms packet = do {
     (r, k) \<leftarrow> kcp_input (ss_kcp s) (ucast elapsed_ms) packet;
     _ \<leftarrow> unwrap r;
     (packets, s1) \<leftarrow> session_flush_now (s\<lparr>ss_kcp := k\<rparr>) elapsed_ms;
     (messages, k') \<leftarrow> recv_messages (ss_kcp s1);
     Some (messages, packets, s1\<lparr>ss_kcp := k'\<rparr>)
   }"

definition session_next_deadline :: "EndpointSession \<Rightarrow> u64 \<Rightarrow> u64" where
  "session_next_deadline s elapsed_ms =
     (let d1 = (if wait_snd (ss_kcp s) \<noteq> 0
                then min (- 1) (elapsed_ms + ucast (kcp_check (ss_kcp s) (ucast elapsed_ms))) else - 1)
      in (case ss_close_deadline_at s of None \<Rightarrow> d1 | Some close_deadline \<Rightarrow> min d1 close_deadline))"

subsection \<open>Construction\<close>

definition longest_edge :: "RouteNode list \<Rightarrow> usize \<Rightarrow> RouteEdge \<Rightarrow> usize list \<Rightarrow> usize list run" where
  "longest_edge nodes node_index edge longest = do {
     further \<leftarrow> index_run longest (unat (re_next edge));
     update_run longest node_index (\<lambda>here. max here (further + 1))
   }"

definition longest_node :: "RouteNode list \<Rightarrow> usize \<Rightarrow> usize list \<Rightarrow> usize list run" where
  "longest_node nodes node_index longest = do {
     node \<leftarrow> index_run nodes node_index;
     fold_run (longest_edge nodes node_index) (rn_edges node) longest
   }"

definition scheduled_packet_overhead :: "EndpointConfig \<Rightarrow> usize run" where
  "scheduled_packet_overhead config =
     (let nodes = rg_nodes (rcf_graph (ec_route config))
      in if nodes = [] then panic
         else do {
           let destination = length nodes - 1;
           longest \<leftarrow> fold_run (longest_node nodes) (rev [0..<destination]) (replicate (length nodes) 0);
           hops \<leftarrow> index_run longest 0;
           Some ((TRANSPORT_PACKET_OVERHEAD + ENVELOPE_FIXED_OVERHEAD + unat (ec_padding_reserve config)
              + usize_sub hops 1 * CHANNEL_ID_SIZE) mod 2 ^ 64)
         })"

definition kcp_defaults :: "KcpConfig \<Rightarrow> KcpConfig" where
  "kcp_defaults c =
     \<lparr>kcf_send_window = (if kcf_send_window c = 0 then kcf_send_window kcp_config_default else kcf_send_window c),
      kcf_receive_window = (if kcf_receive_window c = 0 then kcf_receive_window kcp_config_default else kcf_receive_window c),
      kcf_time_scale = (if kcf_time_scale c = 0 then kcf_time_scale kcp_config_default else kcf_time_scale c),
      kcf_fast_resend = kcf_fast_resend c\<rparr>"

definition endpoint_new :: "crypto \<Rightarrow> EndpointConfig \<Rightarrow> EndpointCore run" where
  "endpoint_new cr config0 = do {
     let config = config0\<lparr>ec_kcp := kcp_defaults (ec_kcp config0)\<rparr>;
     overhead \<leftarrow> scheduled_packet_overhead config;
     let mtu = usize_sub (usize_sub (effective_transport_mtu (rcf_min_mtu (ec_route config))) overhead)
                 ENDPOINT_MESSAGE_OVERHEAD;
     let kcp = ec_kcp config;
     let fast_resend = (if kcf_fast_resend kcp = 0 then None else Some (kcf_fast_resend kcp));
     let kcp_params = \<lparr>kp_mtu = mtu, kp_send_window = kcf_send_window kcp, kp_receive_window = kcf_receive_window kcp,
           kp_nodelay = True, kp_fast_resend = fast_resend, kp_congestion_control = False,
           kp_time_scale = kcf_time_scale kcp\<rparr>;
     let (next_conv_id, random1) = random_u64 cr (random_new cr (ec_random_seed config));
     let (r, random2) = random_u64 cr random1;
     Some \<lparr>ep_config = config, ep_kcp_params = kcp_params, ep_scheduled_packet_overhead = overhead,
       ep_close_deadline_ms = 3 * 6000 * ucast (kcf_time_scale kcp), ep_route_planner = planner_new (ec_route config),
       ep_random = random2, ep_sequence_filter = filter_default, ep_seq_id = r AND SEQUENCE_MASK, ep_next_seq_no = 0,
       ep_next_feedback_at = 0, ep_outstanding = [], ep_next_keepalive_at = ucast (ec_keepalive_interval_ms config),
       ep_sessions = [], ep_tombstones = [], ep_next_conv_id = next_conv_id, ep_metrics = metrics_default\<rparr>
   }"

definition endpoint_metrics :: "EndpointCore \<Rightarrow> CoreMetrics" where
  "endpoint_metrics core = (ep_metrics core)\<lparr>active_sessions := length (ep_sessions core),
     active_sequences := filter_len (ep_sequence_filter core)\<rparr>"

subsection \<open>Stamps, sealing and sending\<close>

definition endpoint_time :: "EndpointCore \<Rightarrow> u64 \<Rightarrow> u32" where
  "endpoint_time core elapsed_ms = current_tick (ec_boot_time_ms (ep_config core)) elapsed_ms AND TIME_MASK"

definition feedback_due :: "EndpointCore \<Rightarrow> u64 \<Rightarrow> bool" where
  "feedback_due core elapsed_ms \<longleftrightarrow> ep_next_feedback_at core \<le> elapsed_ms"

definition next_sequence :: "crypto \<Rightarrow> EndpointCore \<Rightarrow> (u64 \<times> u64) \<times> EndpointCore" where
  "next_sequence cr core =
     (let core1 = (if SEQUENCE_MASK < ep_next_seq_no core
                   then let (r, random) = random_u64 cr (ep_random core)
                        in core\<lparr>ep_random := random, ep_seq_id := r AND SEQUENCE_MASK, ep_next_seq_no := 0\<rparr>
                   else core);
          seq_no = ep_next_seq_no core1
      in ((ep_seq_id core1, seq_no), core1\<lparr>ep_next_seq_no := seq_no + 1\<rparr>))"

definition seal_endpoint_message :: "crypto \<Rightarrow> EndpointCore \<Rightarrow> EnvelopeStamp \<Rightarrow> EndpointMessage \<Rightarrow> bytes" where
  "seal_endpoint_message cr core stamp message =
     (let out = endpoint_message_encode_with_prefix message 16;
          (body, tag) = aegis_encrypt cr (ec_message_key (ep_config core)) (endpoint_nonce stamp) (drop 16 out) []
      in tag @ body)"

definition open_endpoint_message :: "crypto \<Rightarrow> EndpointCore \<Rightarrow> EnvelopeStamp \<Rightarrow> bytes \<Rightarrow> EndpointMessage option run" where
  "open_endpoint_message cr core stamp packet =
     (if length packet < 16 then Some None
      else
        (case aegis_decrypt cr (ec_message_key (ep_config core)) (endpoint_nonce stamp) (drop 16 packet) (take 16 packet) [] of
           None \<Rightarrow> Some None
         | Some plain \<Rightarrow> map_option Some (endpoint_message_decode plain)))"

definition note_sample :: "crypto \<Rightarrow> EndpointCore \<Rightarrow> u64 \<Rightarrow> EnvelopeStamp \<Rightarrow> RoutePlan \<Rightarrow> EndpointCore run" where
  "note_sample cr core elapsed_ms stamp full_plan =
     (let route = ec_route (ep_config core);
          packet_id = PacketId (es_seq_id stamp) (es_seq_no stamp);
          sample = \<lparr>fs_route_plan = full_plan, fs_sent_at = elapsed_ms,
             fs_deadline = elapsed_ms + ucast (rcf_feedback_timeout_ms route)\<rparr>;
          gap = (ucast (rcf_feedback_interval_ms route) :: u64);
          (r, random) = random_u64 cr (ep_random core)
      in if gap = 0 then panic
         else Some (core\<lparr>ep_outstanding := bt_insert packet_id sample (ep_outstanding core), ep_random := random,
                ep_next_feedback_at := elapsed_ms + gap + r mod gap\<rparr>))"

definition count_sent :: "EndpointCore \<Rightarrow> u64 \<Rightarrow> RandomStream \<Rightarrow> EndpointCore" where
  "count_sent core elapsed_ms random =
     (let m = ep_metrics core; keepalive = ec_keepalive_interval_ms (ep_config core)
      in core\<lparr>ep_random := random, ep_metrics := m\<lparr>packets_sent := packets_sent m + 1\<rparr>,
           ep_next_keepalive_at := (if keepalive \<noteq> 0 then elapsed_ms + ucast keepalive else ep_next_keepalive_at core)\<rparr>)"

definition planned_envelope :: "EnvelopeStamp \<Rightarrow> RoutePlan \<Rightarrow> bytes \<Rightarrow> u8 \<Rightarrow> Envelope" where
  "planned_envelope stamp full_plan message_bytes padding_len =
     \<lparr>env_time = es_time stamp, env_seq_id = es_seq_id stamp, env_seq_no = es_seq_no stamp,
      env_route_plan = drop 1 full_plan, env_payload = message_bytes, env_padding_len = padding_len\<rparr>"

definition emit_envelope :: "crypto \<Rightarrow> EndpointCore \<Rightarrow> u64 \<Rightarrow> EnvelopeStamp \<Rightarrow> bytes \<Rightarrow> bool \<Rightarrow> RoutePlan \<Rightarrow> CoreAction list \<Rightarrow>
    (EndpointCore \<times> CoreAction list) run" where
  "emit_envelope cr core elapsed_ms stamp message_bytes sample full_plan actions = do {
     channel \<leftarrow> index_run full_plan 0;
     let unpadded_len = TRANSPORT_PACKET_OVERHEAD + ENVELOPE_FIXED_OVERHEAD
           + (length full_plan - 1) * CHANNEL_ID_SIZE + length message_bytes;
     let available = min (usize_sub (effective_transport_mtu (rcf_min_mtu (ec_route (ep_config core)))) unpadded_len) 255;
     let (r, random1) = random_u64 cr (ep_random core);
     padding_len \<leftarrow> (if available = 0 then panic else Some (word_of_nat (1 + unat r mod available)));
     let (bs, random2) = encode_transport_packet cr (ec_envelope_key (ep_config core)) random1
           (planned_envelope stamp full_plan message_bytes padding_len);
     let core1 = count_sent core elapsed_ms random2;
     core2 \<leftarrow> (if sample then note_sample cr core1 elapsed_ms stamp full_plan else Some core1);
     Some (core2, actions @ [SendTransportPacket channel bs])
   }"

definition send_envelope :: "crypto \<Rightarrow> EndpointCore \<Rightarrow> u64 \<Rightarrow> EnvelopeStamp \<Rightarrow> bytes \<Rightarrow> bool \<Rightarrow> CoreAction list \<Rightarrow>
    (EndpointCore \<times> CoreAction list) run" where
  "send_envelope cr core elapsed_ms stamp message_bytes sample actions = do {
     let scheduled_bytes = length message_bytes + ep_scheduled_packet_overhead core;
     (plan, planner) \<leftarrow> build_route_plan (ep_route_planner core) elapsed_ms scheduled_bytes sample;
     let core1 = core\<lparr>ep_route_planner := planner\<rparr>;
     (case plan of
        None \<Rightarrow> Some (core1, actions)
      | Some full_plan \<Rightarrow> emit_envelope cr core1 elapsed_ms stamp message_bytes sample full_plan actions)
   }"

definition send_endpoint_message :: "crypto \<Rightarrow> EndpointCore \<Rightarrow> u64 \<Rightarrow> EndpointMessage \<Rightarrow> bool \<Rightarrow> CoreAction list \<Rightarrow>
    (EndpointCore \<times> CoreAction list) run" where
  "send_endpoint_message cr core elapsed_ms message sample actions =
     (let ((seq_id, seq_no), core1) = next_sequence cr core;
          stamp = \<lparr>es_time = endpoint_time core1 elapsed_ms, es_seq_id = seq_id, es_seq_no = seq_no\<rparr>
      in send_envelope cr core1 elapsed_ms stamp (seal_endpoint_message cr core1 stamp message) sample actions)"

definition send_kcp_packet :: "crypto \<Rightarrow> u64 \<Rightarrow> bytes \<Rightarrow> EndpointCore \<times> CoreAction list \<Rightarrow> (EndpointCore \<times> CoreAction list) run" where
  "send_kcp_packet cr elapsed_ms packet st =
     (let (core, actions) = st; sample = feedback_due core elapsed_ms
      in send_endpoint_message cr core elapsed_ms (KcpPacket (if sample then 1 else 0) packet) sample actions)"

definition send_kcp_packets :: "crypto \<Rightarrow> EndpointCore \<Rightarrow> u64 \<Rightarrow> bytes list \<Rightarrow> CoreAction list \<Rightarrow>
    (EndpointCore \<times> CoreAction list) run" where
  "send_kcp_packets cr core elapsed_ms packets actions =
     fold_run (send_kcp_packet cr elapsed_ms) packets (core, actions)"

subsection \<open>The life cycle of a session\<close>

definition set_session :: "ConvId \<Rightarrow> EndpointSession \<Rightarrow> EndpointCore \<Rightarrow> EndpointCore" where
  "set_session conv_id s core = core\<lparr>ep_sessions := bt_insert conv_id s (ep_sessions core)\<rparr>"

definition drop_session :: "ConvId \<Rightarrow> EndpointCore \<Rightarrow> EndpointCore" where
  "drop_session conv_id core = core\<lparr>ep_sessions := bt_remove conv_id (ep_sessions core)\<rparr>"

definition count_dropped :: "EndpointCore \<Rightarrow> EndpointCore" where
  "count_dropped core = core\<lparr>ep_metrics := (ep_metrics core)\<lparr>packets_dropped := packets_dropped (ep_metrics core) + 1\<rparr>\<rparr>"

definition bury_session :: "ConvId \<Rightarrow> u64 \<Rightarrow> EndpointCore \<Rightarrow> EndpointCore" where
  "bury_session conv_id elapsed_ms core =
     core\<lparr>ep_tombstones := bt_insert conv_id (elapsed_ms + SESSION_TOMBSTONE_MS) (ep_tombstones core)\<rparr>"

definition deadline_hit :: "EndpointSession \<Rightarrow> u64 \<Rightarrow> bool" where
  "deadline_hit s elapsed_ms = (case ss_close_deadline_at s of None \<Rightarrow> False | Some deadline \<Rightarrow> deadline \<le> elapsed_ms)"

definition session_done :: "EndpointSession \<Rightarrow> u64 \<Rightarrow> bool" where
  "session_done s elapsed_ms = (case ss_phase s of
      PendingRemote \<Rightarrow> deadline_hit s elapsed_ms
    | ClosingLocal \<Rightarrow> wait_snd (ss_kcp s) = 0 \<or> deadline_hit s elapsed_ms
    | ClosingRemote \<Rightarrow> deadline_hit s elapsed_ms
    | Open \<Rightarrow> False)"

definition finish_closed_session :: "EndpointCore \<Rightarrow> u64 \<Rightarrow> ConvId \<Rightarrow> CoreAction list \<Rightarrow> (EndpointCore \<times> CoreAction list) run" where
  "finish_closed_session core elapsed_ms conv_id actions =
     (case map_of (ep_sessions core) conv_id of
        None \<Rightarrow> Some (core, actions)
      | Some s \<Rightarrow>
          if \<not> session_done s elapsed_ms then Some (core, actions)
          else
            let core1 = drop_session conv_id core
            in if ss_phase s = PendingRemote then Some (count_dropped core1, actions)
               else do {
                 actions' \<leftarrow> (if ss_phase s = ClosingLocal
                   then do { reason \<leftarrow> ss_pending_close s; Some (actions @ [CloseSession conv_id reason]) }
                   else Some actions);
                 Some (bury_session conv_id elapsed_ms core1, actions')
               })"

definition send_session_message :: "crypto \<Rightarrow> EndpointCore \<Rightarrow> u64 \<Rightarrow> ConvId \<Rightarrow> SessionMessage \<Rightarrow> CoreAction list \<Rightarrow>
    (EndpointCore \<times> CoreAction list) run" where
  "send_session_message cr core elapsed_ms conv_id message actions = do {
     s \<leftarrow> map_of (ep_sessions core) conv_id;
     (packets, s') \<leftarrow> session_send_message s elapsed_ms message;
     (core1, actions1) \<leftarrow> send_kcp_packets cr (set_session conv_id s' core) elapsed_ms packets actions;
     finish_closed_session core1 elapsed_ms conv_id actions1
   }"

definition queue_local_close :: "crypto \<Rightarrow> EndpointCore \<Rightarrow> u64 \<Rightarrow> ConvId \<Rightarrow> CoreAction list \<Rightarrow> (EndpointCore \<times> CoreAction list) run" where
  "queue_local_close cr core elapsed_ms conv_id actions =
     (case map_of (ep_sessions core) conv_id of
        None \<Rightarrow> Some (core, actions)
      | Some s \<Rightarrow>
          if ss_phase s \<noteq> ClosingLocal \<or> ss_close_queued s then Some (core, actions)
          else do {
            deadline \<leftarrow> ss_close_deadline_at s;
            if deadline \<le> elapsed_ms \<or> unat (kcf_send_window (ec_kcp (ep_config core))) \<le> wait_snd (ss_kcp s)
            then Some (core, actions)
            else do {
              reason \<leftarrow> ss_pending_close s;
              send_session_message cr (set_session conv_id (s\<lparr>ss_close_queued := True\<rparr>) core) elapsed_ms conv_id
                (SessionMessage_Close reason) actions
            }
          })"

definition handle_session_message :: "u64 \<Rightarrow> ConvId \<Rightarrow> SessionMessage \<Rightarrow> EndpointCore \<times> CoreAction list \<Rightarrow>
    EndpointCore \<times> CoreAction list" where
  "handle_session_message elapsed_ms conv_id message st =
     (let (core, actions) = st
      in case map_of (ep_sessions core) conv_id of
           None \<Rightarrow> (core, actions)
         | Some s \<Rightarrow>
             (case message of
                SessionMessage_Open \<Rightarrow>
                  (case ss_phase s of
                     PendingRemote \<Rightarrow> (set_session conv_id (s\<lparr>ss_phase := Open, ss_close_deadline_at := None\<rparr>) core,
                        actions @ [OpenSession conv_id])
                   | Open \<Rightarrow> (core, actions)
                   | _ \<Rightarrow> (count_dropped core, actions))
              | SessionMessage_Data bs \<Rightarrow>
                  (case ss_phase s of
                     Open \<Rightarrow> (core, actions @ [WriteSession conv_id bs])
                   | PendingRemote \<Rightarrow> (count_dropped (drop_session conv_id core), actions)
                   | _ \<Rightarrow> (count_dropped core, actions))
              | SessionMessage_Close reason \<Rightarrow>
                  (case ss_phase s of
                     PendingRemote \<Rightarrow> (count_dropped (drop_session conv_id core), actions)
                   | Open \<Rightarrow> (set_session conv_id (s\<lparr>ss_phase := ClosingRemote,
                        ss_close_deadline_at := Some (elapsed_ms + ep_close_deadline_ms core)\<rparr>) core,
                        actions @ [CloseSession conv_id reason])
                   | _ \<Rightarrow> (core, actions))))"

subsection \<open>Incoming packets\<close>

definition pending_session :: "EndpointCore \<Rightarrow> u64 \<Rightarrow> ConvId \<Rightarrow> u64 \<Rightarrow> EndpointSession" where
  "pending_session core elapsed_ms conv_id peer_seq =
     (session_new conv_id (ep_kcp_params core) PendingRemote)\<lparr>ss_peer_seq := Some peer_seq,
       ss_close_deadline_at := Some (elapsed_ms + ep_close_deadline_ms core)\<rparr>"

definition wrong_peer :: "EndpointSession \<Rightarrow> u64 \<Rightarrow> bool" where
  "wrong_peer s peer_seq = (case ss_peer_seq s of None \<Rightarrow> False | Some bound \<Rightarrow> bound \<noteq> peer_seq)"

definition input_session :: "crypto \<Rightarrow> EndpointCore \<Rightarrow> u64 \<Rightarrow> ConvId \<Rightarrow> u64 \<Rightarrow> bytes \<Rightarrow> CoreAction list \<Rightarrow>
    (EndpointCore \<times> CoreAction list) run" where
  "input_session cr core elapsed_ms conv_id peer_seq kcp_packet actions = do {
     s \<leftarrow> map_of (ep_sessions core) conv_id;
     if wrong_peer s peer_seq then Some (count_dropped core, actions)
     else do {
       (messages, packets, s') \<leftarrow> session_input_packet (s\<lparr>ss_peer_seq := Some peer_seq\<rparr>) elapsed_ms kcp_packet;
       (core1, actions1) \<leftarrow> send_kcp_packets cr (set_session conv_id s' core) elapsed_ms packets actions;
       let (core2, actions2) = fold (handle_session_message elapsed_ms conv_id) messages (core1, actions1);
       (core3, actions3) \<leftarrow> queue_local_close cr core2 elapsed_ms conv_id actions2;
       finish_closed_session core3 elapsed_ms conv_id actions3
     }
   }"

definition handle_kcp_packet :: "crypto \<Rightarrow> EndpointCore \<Rightarrow> u64 \<Rightarrow> u64 \<Rightarrow> bytes \<Rightarrow> CoreAction list \<Rightarrow>
    (EndpointCore \<times> CoreAction list) run" where
  "handle_kcp_packet cr core elapsed_ms peer_seq kcp_packet actions = do {
     conv_id \<leftarrow> get_conv kcp_packet;
     if map_of (ep_tombstones core) conv_id \<noteq> None then Some (count_dropped core, actions)
     else if map_of (ep_sessions core) conv_id = None
     then input_session cr (set_session conv_id (pending_session core elapsed_ms conv_id peer_seq) core)
            elapsed_ms conv_id peer_seq kcp_packet actions
     else input_session cr core elapsed_ms conv_id peer_seq kcp_packet actions
   }"

fun reply_depth_of :: "EndpointMessage \<Rightarrow> u8" where
  "reply_depth_of (KcpPacket reply_depth packet) = reply_depth"
| "reply_depth_of (KeepAlive reply_depth) = reply_depth"
| "reply_depth_of (RouteReply reply_depth seq_id seq_no) = reply_depth"

fun dispatch_message :: "crypto \<Rightarrow> EndpointCore \<Rightarrow> u64 \<Rightarrow> u64 \<Rightarrow> EndpointMessage \<Rightarrow> CoreAction list \<Rightarrow>
    (EndpointCore \<times> CoreAction list) run" where
  "dispatch_message cr core elapsed_ms peer_seq (KcpPacket reply_depth packet) actions =
     handle_kcp_packet cr core elapsed_ms peer_seq packet actions"
| "dispatch_message cr core elapsed_ms peer_seq (KeepAlive reply_depth) actions = Some (core, actions)"
| "dispatch_message cr core elapsed_ms peer_seq (RouteReply reply_depth seq_id seq_no) actions =
     (case map_of (ep_outstanding core) (PacketId seq_id seq_no) of
        None \<Rightarrow> Some (core, actions)
      | Some sample \<Rightarrow> do {
          planner \<leftarrow> note_feedback (ep_route_planner core) (fs_route_plan sample) (fs_sent_at sample) True;
          Some (core\<lparr>ep_outstanding := bt_remove (PacketId seq_id seq_no) (ep_outstanding core),
                     ep_route_planner := planner\<rparr>, actions)
        })"

definition send_reply :: "crypto \<Rightarrow> EndpointCore \<Rightarrow> u64 \<Rightarrow> EnvelopeStamp \<Rightarrow> u8 \<Rightarrow> CoreAction list \<Rightarrow>
    (EndpointCore \<times> CoreAction list) run" where
  "send_reply cr core elapsed_ms stamp reply_depth actions =
     (if reply_depth = 0 then Some (core, actions)
      else
        let sample = reply_depth < 3 \<and> feedback_due core elapsed_ms
        in send_endpoint_message cr core elapsed_ms
             (RouteReply (if sample then reply_depth + 1 else 0) (es_seq_id stamp) (es_seq_no stamp)) sample actions)"

definition handle_transport_packet :: "crypto \<Rightarrow> EndpointCore \<Rightarrow> u64 \<Rightarrow> bytes \<Rightarrow> CoreAction list \<Rightarrow>
    (EndpointCore \<times> CoreAction list) run" where
  "handle_transport_packet cr core elapsed_ms bs actions = do {
     let current_time = endpoint_time core elapsed_ms;
     let first_sequence = (filter_len (ep_sequence_filter core) = 0);
     (received, m1) \<leftarrow> receive_transport_packet cr (ec_envelope_key (ep_config core)) (ep_metrics core) bs;
     let core = core\<lparr>ep_metrics := m1\<rparr>;
     (case received of
        None \<Rightarrow> Some (core, actions)
      | Some envelope \<Rightarrow>
          if env_route_plan envelope \<noteq> [] then Some (count_dropped core, actions)
          else do {
            let stamp = envelope_stamp envelope;
            decrypted \<leftarrow> open_endpoint_message cr core stamp (env_payload envelope);
            (case decrypted of
               None \<Rightarrow> Some (core\<lparr>ep_metrics := m1\<lparr>authentication_failures := authentication_failures m1 + 1\<rparr>\<rparr>, actions)
             | Some message \<Rightarrow> do {
                 (ok, f1, m2) \<leftarrow> check_sequence (ep_sequence_filter core) m1 current_time stamp;
                 let core = core\<lparr>ep_sequence_filter := f1, ep_metrics := m2\<rparr>;
                 if \<not> ok then Some (core, actions)
                 else do {
                   let m3 = note_latest_sequence m2 (ec_boot_time_ms (ep_config core)) elapsed_ms (es_time stamp) first_sequence;
                   (core1, actions1) \<leftarrow> dispatch_message cr (core\<lparr>ep_metrics := m3\<rparr>) elapsed_ms (es_seq_id stamp) message actions;
                   send_reply cr core1 elapsed_ms stamp (reply_depth_of message) actions1
                 }
               })
          })
   }"

subsection \<open>Timers\<close>

definition expire_sample :: "u64 \<Rightarrow> PacketId \<times> FeedbackSample \<Rightarrow> RoutePlanner \<Rightarrow> RoutePlanner run" where
  "expire_sample elapsed_ms entry planner =
     (let sample = snd entry
      in if elapsed_ms < fs_deadline sample then Some planner
         else note_feedback planner (fs_route_plan sample) (fs_sent_at sample) False)"

definition expire_feedback :: "EndpointCore \<Rightarrow> u64 \<Rightarrow> EndpointCore run" where
  "expire_feedback core elapsed_ms = do {
     planner \<leftarrow> fold_run (expire_sample elapsed_ms) (ep_outstanding core) (ep_route_planner core);
     Some (core\<lparr>ep_route_planner := planner,
       ep_outstanding := filter (\<lambda>(_, sample). elapsed_ms < fs_deadline sample) (ep_outstanding core)\<rparr>)
   }"

definition reset_session :: "u64 \<Rightarrow> ConvId \<Rightarrow> EndpointCore \<times> CoreAction list \<Rightarrow> (EndpointCore \<times> CoreAction list) run" where
  "reset_session elapsed_ms conv_id st = do {
     let (core, actions) = st;
     s \<leftarrow> map_of (ep_sessions core) conv_id;
     let actions' = (if ss_phase s \<noteq> PendingRemote then actions @ [CloseSession conv_id Reset] else actions);
     Some (bury_session conv_id elapsed_ms (drop_session conv_id core), actions')
   }"

definition expire_sequence :: "u64 \<Rightarrow> u64 \<Rightarrow> EndpointCore \<times> CoreAction list \<Rightarrow> (EndpointCore \<times> CoreAction list) run" where
  "expire_sequence elapsed_ms seq_id st =
     fold_run (reset_session elapsed_ms)
       (map fst (filter (\<lambda>(_, s). ss_peer_seq s = Some seq_id) (ep_sessions (fst st)))) st"

definition expire_sequences :: "(window_table \<Rightarrow> window_table) \<Rightarrow> EndpointCore \<Rightarrow> u64 \<Rightarrow> CoreAction list \<Rightarrow>
    (EndpointCore \<times> CoreAction list) run" where
  "expire_sequences hash_iter core elapsed_ms actions =
     (let (expired, f) = remove_expired hash_iter (ep_sequence_filter core) (endpoint_time core elapsed_ms) SEQUENCE_SOFT_CAP
      in fold_run (expire_sequence elapsed_ms) expired (core\<lparr>ep_sequence_filter := f\<rparr>, actions))"

definition poll_session :: "crypto \<Rightarrow> u64 \<Rightarrow> ConvId \<Rightarrow> EndpointCore \<times> CoreAction list \<Rightarrow> (EndpointCore \<times> CoreAction list) run" where
  "poll_session cr elapsed_ms conv_id st = do {
     let (core, actions) = st;
     (core1, actions1) \<leftarrow> queue_local_close cr core elapsed_ms conv_id actions;
     s \<leftarrow> map_of (ep_sessions core1) conv_id;
     (packets, s') \<leftarrow> session_poll s elapsed_ms;
     (core2, actions2) \<leftarrow> send_kcp_packets cr (set_session conv_id s' core1) elapsed_ms packets actions1;
     finish_closed_session core2 elapsed_ms conv_id actions2
   }"

definition poll_keepalive :: "crypto \<Rightarrow> EndpointCore \<Rightarrow> u64 \<Rightarrow> CoreAction list \<Rightarrow> (EndpointCore \<times> CoreAction list) run" where
  "poll_keepalive cr core elapsed_ms actions =
     (let keepalive = ec_keepalive_interval_ms (ep_config core)
      in if keepalive \<noteq> 0 \<and> ep_next_keepalive_at core \<le> elapsed_ms
         then do {
           let sample = feedback_due core elapsed_ms;
           (core1, actions1) \<leftarrow> send_endpoint_message cr core elapsed_ms (KeepAlive (if sample then 1 else 0)) sample actions;
           Some (core1\<lparr>ep_next_keepalive_at := elapsed_ms + ucast keepalive\<rparr>, actions1)
         }
         else Some (core, actions))"

definition endpoint_poll :: "crypto \<Rightarrow> (window_table \<Rightarrow> window_table) \<Rightarrow> EndpointCore \<Rightarrow> u64 \<Rightarrow> CoreAction list \<Rightarrow>
    (EndpointCore \<times> CoreAction list) run" where
  "endpoint_poll cr hash_iter core elapsed_ms actions = do {
     core1 \<leftarrow> expire_feedback core elapsed_ms;
     (core2, actions2) \<leftarrow> expire_sequences hash_iter core1 elapsed_ms actions;
     let core3 = core2\<lparr>ep_tombstones := filter (\<lambda>(_, expire_at). elapsed_ms < expire_at) (ep_tombstones core2)\<rparr>;
     (core4, actions4) \<leftarrow> fold_run (poll_session cr elapsed_ms) (bt_keys (ep_sessions core3)) (core3, actions2);
     poll_keepalive cr core4 elapsed_ms actions4
   }"

definition endpoint_next_deadline :: "EndpointCore \<Rightarrow> u64 \<Rightarrow> u64" where
  "endpoint_next_deadline core elapsed_ms =
     (let d1 = fold (\<lambda>(_, s) d. min d (session_next_deadline s elapsed_ms)) (ep_sessions core) (- 1);
          d2 = fold (\<lambda>(_, expire_at) d. min d expire_at) (ep_tombstones core) d1;
          d3 = fold (\<lambda>(_, sample) d. min d (fs_deadline sample)) (ep_outstanding core) d2;
          d4 = (if ec_keepalive_interval_ms (ep_config core) \<noteq> 0 then min d3 (ep_next_keepalive_at core) else d3)
      in (case next_expiry_delay_ms (ep_sequence_filter core) (endpoint_time core elapsed_ms) SEQUENCE_SOFT_CAP of
            None \<Rightarrow> d4
          | Some delay \<Rightarrow>
              let tick_offset = (ec_boot_time_ms (ep_config core) + elapsed_ms) AND (push_bit TS_SHIFT 1 - 1)
              in min d4 (elapsed_ms + (if tick_offset \<le> delay then delay - tick_offset else 0))))"

subsection \<open>Events\<close>

definition session_open :: "crypto \<Rightarrow> EndpointCore \<Rightarrow> u64 \<Rightarrow> CoreAction list \<Rightarrow> (EndpointCore \<times> CoreAction list \<times> CoreEventResult) run" where
  "session_open cr core elapsed_ms actions = do {
     let conv_id = ep_next_conv_id core;
     let core1 = set_session conv_id (session_new conv_id (ep_kcp_params core) Open) (core\<lparr>ep_next_conv_id := conv_id + 1\<rparr>);
     (core2, actions2) \<leftarrow> send_session_message cr core1 elapsed_ms conv_id SessionMessage_Open actions;
     Some (core2, actions2, SessionCreated conv_id)
   }"

definition session_write :: "crypto \<Rightarrow> EndpointCore \<Rightarrow> u64 \<Rightarrow> ConvId \<Rightarrow> bytes \<Rightarrow> CoreAction list \<Rightarrow>
    (EndpointCore \<times> CoreAction list \<times> CoreEventResult) run" where
  "session_write cr core elapsed_ms conv_id bs actions = do {
     s \<leftarrow> map_of (ep_sessions core) conv_id;
     let mss = usize_sub (kp_mtu (ep_kcp_params core)) KCP_OVERHEAD;
     let message_len = 1 + length bs;
     count \<leftarrow> (if mss = 0 then panic else Some (if message_len mod mss \<noteq> 0 then message_len div mss + 1 else message_len div mss));
     if unat (kcf_send_window (ec_kcp (ep_config core))) < wait_snd (ss_kcp s) + count
     then Some (core, actions, SessionWriteBlocked)
     else do {
       (core', actions') \<leftarrow> send_session_message cr core elapsed_ms conv_id (SessionMessage_Data bs) actions;
       Some (core', actions', EventNone)
     }
   }"

definition session_close :: "crypto \<Rightarrow> EndpointCore \<Rightarrow> u64 \<Rightarrow> ConvId \<Rightarrow> CloseReason \<Rightarrow> CoreAction list \<Rightarrow>
    (EndpointCore \<times> CoreAction list \<times> CoreEventResult) run" where
  "session_close cr core elapsed_ms conv_id reason actions = do {
     s \<leftarrow> map_of (ep_sessions core) conv_id;
     let s' = s\<lparr>ss_phase := ClosingLocal, ss_close_deadline_at := Some (elapsed_ms + ep_close_deadline_ms core),
                ss_pending_close := Some reason\<rparr>;
     (core', actions') \<leftarrow> queue_local_close cr (set_session conv_id s' core) elapsed_ms conv_id actions;
     Some (core', actions', EventNone)
   }"

definition retry_failed_send :: "crypto \<Rightarrow> EndpointCore \<Rightarrow> u64 \<Rightarrow> ChannelId \<Rightarrow> bytes \<Rightarrow> CoreAction list \<Rightarrow>
    (EndpointCore \<times> CoreAction list) run" where
  "retry_failed_send cr core elapsed_ms channel bs actions = do {
     let m = ep_metrics core;
     planner \<leftarrow> note_local_send_failure (ep_route_planner core) channel elapsed_ms;
     let core = core\<lparr>ep_metrics := m\<lparr>send_failures := send_failures m + 1\<rparr>, ep_route_planner := planner\<rparr>;
     decoded \<leftarrow> decode_transport_packet cr (ec_envelope_key (ep_config core)) bs;
     envelope \<leftarrow> unwrap decoded;
     let stamp = envelope_stamp envelope;
     let packet_id = PacketId (es_seq_id stamp) (es_seq_no stamp);
     let was_sample = (map_of (ep_outstanding core) packet_id \<noteq> None);
     let core = core\<lparr>ep_outstanding := bt_remove packet_id (ep_outstanding core),
           ep_next_feedback_at := (if was_sample then elapsed_ms else ep_next_feedback_at core)\<rparr>;
     decrypted \<leftarrow> open_endpoint_message cr core stamp (env_payload envelope);
     message \<leftarrow> decrypted;
     (case message of
        KcpPacket reply_depth packet \<Rightarrow> send_envelope cr core elapsed_ms stamp (env_payload envelope) was_sample actions
      | _ \<Rightarrow> Some (core, actions))
   }"

fun endpoint_handle_event :: "crypto \<Rightarrow> EndpointCore \<Rightarrow> u64 \<Rightarrow> CoreEvent \<Rightarrow> CoreAction list \<Rightarrow>
    (EndpointCore \<times> CoreAction list \<times> CoreEventResult) run" where
  "endpoint_handle_event cr core elapsed_ms SessionOpen actions = session_open cr core elapsed_ms actions"
| "endpoint_handle_event cr core elapsed_ms (SessionWrite conv_id bs) actions = session_write cr core elapsed_ms conv_id bs actions"
| "endpoint_handle_event cr core elapsed_ms (SessionClose conv_id reason) actions = session_close cr core elapsed_ms conv_id reason actions"
| "endpoint_handle_event cr core elapsed_ms (TransportPacketSendFailed channel bs) actions = do {
     (core', actions') \<leftarrow> retry_failed_send cr core elapsed_ms channel bs actions;
     Some (core', actions', EventNone)
   }"
| "endpoint_handle_event cr core elapsed_ms (TransportPacketReceived channel bs) actions = do {
     let m = ep_metrics core;
     (core', actions') \<leftarrow> handle_transport_packet cr (core\<lparr>ep_metrics := m\<lparr>packets_received := packets_received m + 1\<rparr>\<rparr>) elapsed_ms bs actions;
     Some (core', actions', EventNone)
   }"

end
