(* ===== verification/Test_Shell.thy ===== *)
theory Test_Shell
  imports Relay Endpoint "HOL-Library.Product_Lexorder"
begin

section \<open>The simulated network (raynet-test-shell)\<close>

text \<open>
  \<^verbatim>\<open>TestShell\<close> drives endpoint and relay cores over simulated links with latency, bandwidth, loss and
  outages.  It is the program's composition of its cores: it hands events to them and carries out the
  actions they emit.

  The methods that carry out actions call each other: \<^verbatim>\<open>handle_actions\<close> sends packets and writes to
  sessions, a failed send and an echoed write give the core another event, and the actions of that
  event are carried out before the remaining ones.  All these calls are in tail position of the loop
  body, so the model keeps the pending actions of all active loops as one list, with the actions of the
  innermost call in front (\<open>shell_work\<close>); \<open>perform_action\<close> is one turn of the loop and \<open>handle_actions\<close>
  iterates it.  \<open>None\<close> is a panic (or, for \<open>handle_actions\<close>, a run that does not end, which
  \<^verbatim>\<open>Test_Shell_Correct\<close> excludes).  Word arithmetic wraps where the source does not saturate, as in
  the other theories; \<open>hash_iter\<close> is the iteration order of the sequence tables.
\<close>

type_synonym SimNodeId = u64

datatype LossModel = NoLoss | Every u64 | Bernoulli u32 u64

record DownWindow =
  start_ms :: u64
  end_ms :: u64

record SimLink =
  lk_from_node :: SimNodeId
  lk_from_channel_id :: ChannelId
  lk_to_node :: SimNodeId
  lk_to_channel_id :: ChannelId
  lk_latency_ms :: u64
  lk_bandwidth_bytes_per_ms :: u64
  lk_loss :: LossModel
  lk_extra_delay_ms :: u64
  lk_down_windows :: "DownWindow list"

record TestMetrics =
  sent_packets :: u64
  delivered_packets :: u64
  dropped_packets :: u64
  delivered_local_bytes :: u64
  last_delivery_ms :: u64

record EndpointNode =
  en_core :: EndpointCore
  en_config :: EndpointConfig
  en_started_at_sim_ms :: u64
  en_sessions :: "(ConvId \<times> bytes) list"
  en_echo_exit :: bool
  en_blocked_writes :: "(ConvId \<times> bytes) list"

record RelayNode =
  rn_core :: RelayCore
  rn_config :: RelayConfig
  rn_started_at_sim_ms :: u64

datatype SimNode = SimEndpoint EndpointNode | SimRelay RelayNode

record ScheduledPacket =
  sp_due_ms :: u64
  sp_from_node :: SimNodeId
  sp_from_channel_id :: ChannelId
  sp_to_node :: SimNodeId
  sp_to_channel_id :: ChannelId
  sp_bytes :: bytes

record TestShell =
  ts_now_ms :: u64
  ts_nodes :: "(SimNodeId \<times> SimNode) list"
  ts_links :: "SimLink list"
  ts_link_attempts :: "u64 list"
  ts_packets :: "ScheduledPacket list"
  ts_captured_packets :: "((SimNodeId \<times> ChannelId) \<times> ScheduledPacket) list"
  ts_link_next_tx :: "((SimNodeId \<times> ChannelId) \<times> u64) list"
  ts_metrics :: TestMetrics
  ts_delivered_by_outbound_channel :: "((SimNodeId \<times> ChannelId) \<times> u64) list"

type_synonym shell_work = "(SimNodeId \<times> CoreAction) list"

subsection \<open>Links\<close>

definition saturating_add :: "u64 \<Rightarrow> u64 \<Rightarrow> u64" where
  "saturating_add a b = (if a + b < a then - 1 else a + b)"

definition saturating_sub :: "u64 \<Rightarrow> u64 \<Rightarrow> u64" where
  "saturating_sub a b = (if b \<le> a then a - b else 0)"

definition div_ceil :: "u64 \<Rightarrow> u64 \<Rightarrow> u64" where
  "div_ceil a b = (if a mod b \<noteq> 0 then a div b + 1 else a div b)"

definition splitmix64 :: "u64 \<Rightarrow> u64" where
  "splitmix64 v =
     (let v1 = v + 0x9e3779b97f4a7c15;
          v2 = (v1 XOR drop_bit 30 v1) * 0xbf58476d1ce4e5b9;
          v3 = (v2 XOR drop_bit 27 v2) * 0x94d049bb133111eb
      in v3 XOR drop_bit 31 v3)"

definition is_down :: "SimLink \<Rightarrow> u64 \<Rightarrow> bool" where
  "is_down link now_ms = list_ex (\<lambda>w. start_ms w \<le> now_ms \<and> now_ms < end_ms w) (lk_down_windows link)"

definition should_drop :: "SimLink \<Rightarrow> u64 \<Rightarrow> bool run" where
  "should_drop link sent = (case lk_loss link of
      NoLoss \<Rightarrow> Some False
    | Every packets \<Rightarrow> Some (if packets = 0 then sent = 0 else sent mod packets = 0)
    | Bernoulli loss_ppm seed \<Rightarrow>
        if 1000000 < loss_ppm then panic
        else
          let random = splitmix64 (seed + sent);
              sample = (ucast (drop_bit 64 ((ucast random :: 128 word) * 1000000)) :: u32)
          in Some (sample < loss_ppm))"

definition link_position :: "TestShell \<Rightarrow> SimNodeId \<Rightarrow> ChannelId \<Rightarrow> usize option" where
  "link_position shell node ch = position (\<lambda>link. lk_from_node link = node \<and> lk_from_channel_id link = ch) (ts_links shell)"

definition due_time :: "SimLink \<Rightarrow> u64 \<Rightarrow> u64 \<Rightarrow> u64" where
  "due_time link starts_at transmit_ms =
     saturating_add (saturating_add (saturating_add starts_at transmit_ms) (lk_latency_ms link)) (lk_extra_delay_ms link)"

subsection \<open>Construction\<close>

definition test_metrics_default :: TestMetrics where
  "test_metrics_default = \<lparr>sent_packets = 0, delivered_packets = 0, dropped_packets = 0, delivered_local_bytes = 0, last_delivery_ms = 0\<rparr>"

definition shell_new :: TestShell where
  "shell_new = \<lparr>ts_now_ms = 0, ts_nodes = [], ts_links = [], ts_link_attempts = [], ts_packets = [], ts_captured_packets = [],
     ts_link_next_tx = [], ts_metrics = test_metrics_default, ts_delivered_by_outbound_channel = []\<rparr>"

definition set_node :: "SimNodeId \<Rightarrow> SimNode \<Rightarrow> TestShell \<Rightarrow> TestShell" where
  "set_node node n shell = shell\<lparr>ts_nodes := bt_insert node n (ts_nodes shell)\<rparr>"

definition add_endpoint :: "crypto \<Rightarrow> TestShell \<Rightarrow> SimNodeId \<Rightarrow> EndpointConfig \<Rightarrow> bool \<Rightarrow> TestShell run" where
  "add_endpoint cr shell node config echo_exit = do {
     core \<leftarrow> endpoint_new cr config;
     Some (set_node node (SimEndpoint \<lparr>en_core = core, en_config = config, en_started_at_sim_ms = ts_now_ms shell,
       en_sessions = [], en_echo_exit = echo_exit, en_blocked_writes = []\<rparr>) shell)
   }"

definition add_relay :: "crypto \<Rightarrow> TestShell \<Rightarrow> SimNodeId \<Rightarrow> RelayConfig \<Rightarrow> TestShell" where
  "add_relay cr shell node config =
     set_node node (SimRelay \<lparr>rn_core = relay_new cr config, rn_config = config, rn_started_at_sim_ms = ts_now_ms shell\<rparr>) shell"

fun advance_seed :: "bytes \<Rightarrow> bytes run" where
  "advance_seed [] = panic"
| "advance_seed (b # seed) = (if b + 1 \<noteq> 0 then Some ((b + 1) # seed) else do { rest \<leftarrow> advance_seed seed; Some (0 # rest) })"

definition restart_node :: "crypto \<Rightarrow> TestShell \<Rightarrow> SimNodeId \<Rightarrow> TestShell run" where
  "restart_node cr shell node = (case map_of (ts_nodes shell) node of
      None \<Rightarrow> Some shell
    | Some (SimEndpoint e) \<Rightarrow> do {
        let uptime_ms = ts_now_ms shell - en_started_at_sim_ms e;
        seed \<leftarrow> advance_seed (ec_random_seed (en_config e));
        let config = (en_config e)\<lparr>ec_boot_time_ms := saturating_add (ec_boot_time_ms (en_config e)) uptime_ms, ec_random_seed := seed\<rparr>;
        core \<leftarrow> endpoint_new cr config;
        Some (set_node node (SimEndpoint (e\<lparr>en_core := core, en_config := config, en_started_at_sim_ms := ts_now_ms shell,
          en_sessions := [], en_blocked_writes := []\<rparr>)) shell)
      }
    | Some (SimRelay r) \<Rightarrow> do {
        let uptime_ms = ts_now_ms shell - rn_started_at_sim_ms r;
        seed \<leftarrow> advance_seed (rc_random_seed (rn_config r));
        let config = (rn_config r)\<lparr>rc_boot_time_ms := saturating_add (rc_boot_time_ms (rn_config r)) uptime_ms, rc_random_seed := seed\<rparr>;
        Some (set_node node (SimRelay (r\<lparr>rn_core := relay_new cr config, rn_config := config,
          rn_started_at_sim_ms := ts_now_ms shell\<rparr>)) shell)
      })"

definition add_link :: "TestShell \<Rightarrow> SimLink \<Rightarrow> TestShell" where
  "add_link shell link = shell\<lparr>ts_links := ts_links shell @ [link], ts_link_attempts := ts_link_attempts shell @ [0]\<rparr>"

subsection \<open>Events and actions\<close>

fun node_started :: "SimNode \<Rightarrow> u64" where
  "node_started (SimEndpoint e) = en_started_at_sim_ms e"
| "node_started (SimRelay r) = rn_started_at_sim_ms r"

definition shell_elapsed :: "TestShell \<Rightarrow> SimNodeId \<Rightarrow> u64" where
  "shell_elapsed shell node = (case map_of (ts_nodes shell) node of
      None \<Rightarrow> 0
    | Some n \<Rightarrow> saturating_sub (ts_now_ms shell) (node_started n))"

definition node_actions :: "SimNodeId \<Rightarrow> CoreAction list \<Rightarrow> shell_work" where
  "node_actions node actions = map (Pair node) actions"

definition begin_event :: "crypto \<Rightarrow> (window_table \<Rightarrow> window_table) \<Rightarrow> TestShell \<Rightarrow> SimNodeId \<Rightarrow> CoreEvent \<Rightarrow>
    (TestShell \<times> shell_work) run" where
  "begin_event cr hash_iter shell node event =
     (let elapsed_ms = shell_elapsed shell node
      in case map_of (ts_nodes shell) node of
           None \<Rightarrow> Some (shell, [])
         | Some (SimEndpoint e) \<Rightarrow> do {
             (core, actions, r) \<leftarrow> endpoint_handle_event cr (en_core e) elapsed_ms event [];
             Some (set_node node (SimEndpoint (e\<lparr>en_core := core\<rparr>)) shell, node_actions node actions)
           }
         | Some (SimRelay r) \<Rightarrow> do {
             (core, actions, res) \<leftarrow> relay_handle_event cr hash_iter (rn_core r) elapsed_ms event [];
             Some (set_node node (SimRelay (r\<lparr>rn_core := core\<rparr>)) shell, node_actions node actions)
           })"

definition begin_session_write :: "crypto \<Rightarrow> TestShell \<Rightarrow> SimNodeId \<Rightarrow> ConvId \<Rightarrow> bytes \<Rightarrow> (bool \<times> TestShell \<times> shell_work) run" where
  "begin_session_write cr shell node conv_id bs =
     (let elapsed_ms = shell_elapsed shell node
      in case map_of (ts_nodes shell) node of
           Some (SimEndpoint e) \<Rightarrow> do {
             (core, actions, r) \<leftarrow> endpoint_handle_event cr (en_core e) elapsed_ms (SessionWrite conv_id bs) [];
             let blocked = (if r = SessionWriteBlocked then bt_insert conv_id bs (en_blocked_writes e)
                            else bt_remove conv_id (en_blocked_writes e));
             if r \<noteq> EventNone \<and> r \<noteq> SessionWriteBlocked then panic
             else Some (r = EventNone, set_node node (SimEndpoint (e\<lparr>en_core := core, en_blocked_writes := blocked\<rparr>)) shell,
                    node_actions node actions)
           }
         | _ \<Rightarrow> panic)"

definition store_bytes :: "TestShell \<Rightarrow> SimNodeId \<Rightarrow> ConvId \<Rightarrow> bytes \<Rightarrow> bool \<times> TestShell" where
  "store_bytes shell node conv_id bs = (case map_of (ts_nodes shell) node of
      Some (SimEndpoint e) \<Rightarrow>
        let old = (case map_of (en_sessions e) conv_id of None \<Rightarrow> [] | Some old \<Rightarrow> old)
        in (en_echo_exit e, set_node node (SimEndpoint (e\<lparr>en_sessions := bt_insert conv_id (old @ bs) (en_sessions e)\<rparr>)) shell)
    | _ \<Rightarrow> (False, shell))"

definition write_session :: "crypto \<Rightarrow> TestShell \<Rightarrow> SimNodeId \<Rightarrow> ConvId \<Rightarrow> bytes \<Rightarrow> (TestShell \<times> shell_work) run" where
  "write_session cr shell node conv_id bs =
     (let (echo_exit, shell1) = store_bytes shell node conv_id bs
      in if echo_exit then do { (ok, shell2, work) \<leftarrow> begin_session_write cr shell1 node conv_id bs; Some (shell2, work) }
         else
           let m = ts_metrics shell1
           in Some (shell1\<lparr>ts_metrics := m\<lparr>delivered_local_bytes := saturating_add (delivered_local_bytes m) (word_of_nat (length bs)),
                      last_delivery_ms := ts_now_ms shell1\<rparr>\<rparr>, []))"

definition count_dropped_packets :: "u64 \<Rightarrow> TestShell \<Rightarrow> TestShell" where
  "count_dropped_packets n shell = (let m = ts_metrics shell
     in shell\<lparr>ts_metrics := m\<lparr>dropped_packets := saturating_add (dropped_packets m) n\<rparr>\<rparr>)"

definition transport_send_failed :: "crypto \<Rightarrow> (window_table \<Rightarrow> window_table) \<Rightarrow> TestShell \<Rightarrow> SimNodeId \<Rightarrow> ChannelId \<Rightarrow> bytes \<Rightarrow>
    (TestShell \<times> shell_work) run" where
  "transport_send_failed cr hash_iter shell node ch bs =
     begin_event cr hash_iter (count_dropped_packets 1 shell) node (TransportPacketSendFailed ch bs)"

definition schedule_packet :: "TestShell \<Rightarrow> SimLink \<Rightarrow> SimNodeId \<Rightarrow> ChannelId \<Rightarrow> bytes \<Rightarrow> TestShell" where
  "schedule_packet shell link node ch bs =
     (let nxt = (case map_of (ts_link_next_tx shell) (node, ch) of None \<Rightarrow> ts_now_ms shell | Some t \<Rightarrow> t);
          starts_at = max nxt (ts_now_ms shell);
          transmit_ms = (if lk_bandwidth_bytes_per_ms link = 0 then 0
                         else div_ceil (word_of_nat (length bs)) (lk_bandwidth_bytes_per_ms link));
          packet = \<lparr>sp_due_ms = due_time link starts_at transmit_ms, sp_from_node = node, sp_from_channel_id = ch,
             sp_to_node = lk_to_node link, sp_to_channel_id = lk_to_channel_id link, sp_bytes = bs\<rparr>
      in shell\<lparr>ts_link_next_tx := bt_insert (node, ch) (saturating_add starts_at transmit_ms) (ts_link_next_tx shell),
           ts_captured_packets := bt_insert (node, ch) packet (ts_captured_packets shell),
           ts_packets := ts_packets shell @ [packet]\<rparr>)"

definition count_sent_packet :: "TestShell \<Rightarrow> TestShell" where
  "count_sent_packet shell = (let m = ts_metrics shell
     in shell\<lparr>ts_metrics := m\<lparr>sent_packets := saturating_add (sent_packets m) 1\<rparr>\<rparr>)"

definition send_transport :: "crypto \<Rightarrow> (window_table \<Rightarrow> window_table) \<Rightarrow> TestShell \<Rightarrow> SimNodeId \<Rightarrow> ChannelId \<Rightarrow> bytes \<Rightarrow>
    (TestShell \<times> shell_work) run" where
  "send_transport cr hash_iter shell0 node ch bs =
     (let shell = count_sent_packet shell0
      in case link_position shell node ch of
           None \<Rightarrow> transport_send_failed cr hash_iter shell node ch bs
         | Some i \<Rightarrow> do {
             link \<leftarrow> index_run (ts_links shell) i;
             attempts \<leftarrow> update_run (ts_link_attempts shell) i (\<lambda>n. saturating_add n 1);
             let shell = shell\<lparr>ts_link_attempts := attempts\<rparr>;
             if is_down link (ts_now_ms shell) then transport_send_failed cr hash_iter shell node ch bs
             else do {
               attempt \<leftarrow> index_run attempts i;
               lost \<leftarrow> should_drop link attempt;
               if lost then Some (count_dropped_packets 1 shell, [])
               else Some (schedule_packet shell link node ch bs, [])
             }
           })"

definition open_entry :: "TestShell \<Rightarrow> SimNodeId \<Rightarrow> ConvId \<Rightarrow> TestShell" where
  "open_entry shell node conv_id = (case map_of (ts_nodes shell) node of
      Some (SimEndpoint e) \<Rightarrow>
        (case map_of (en_sessions e) conv_id of
           None \<Rightarrow> set_node node (SimEndpoint (e\<lparr>en_sessions := bt_insert conv_id [] (en_sessions e)\<rparr>)) shell
         | Some _ \<Rightarrow> shell)
    | _ \<Rightarrow> shell)"

definition close_entry :: "TestShell \<Rightarrow> SimNodeId \<Rightarrow> ConvId \<Rightarrow> TestShell" where
  "close_entry shell node conv_id = (case map_of (ts_nodes shell) node of
      Some (SimEndpoint e) \<Rightarrow> set_node node (SimEndpoint (e\<lparr>en_sessions := bt_remove conv_id (en_sessions e),
        en_blocked_writes := bt_remove conv_id (en_blocked_writes e)\<rparr>)) shell
    | _ \<Rightarrow> shell)"

fun perform_action :: "crypto \<Rightarrow> (window_table \<Rightarrow> window_table) \<Rightarrow> TestShell \<Rightarrow> SimNodeId \<times> CoreAction \<Rightarrow>
    (TestShell \<times> shell_work) run" where
  "perform_action cr hash_iter shell (node, SendTransportPacket ch bs) = send_transport cr hash_iter shell node ch bs"
| "perform_action cr hash_iter shell (node, OpenSession conv_id) = Some (open_entry shell node conv_id, [])"
| "perform_action cr hash_iter shell (node, WriteSession conv_id bs) = write_session cr shell node conv_id bs"
| "perform_action cr hash_iter shell (node, CloseSession conv_id reason) = Some (close_entry shell node conv_id, [])"

partial_function (option) handle_actions :: "crypto \<Rightarrow> (window_table \<Rightarrow> window_table) \<Rightarrow> TestShell \<Rightarrow> shell_work \<Rightarrow> TestShell run" where
  "handle_actions cr hash_iter shell work =
     (if work = [] then Some shell
      else do {
        r \<leftarrow> perform_action cr hash_iter shell (hd work);
        handle_actions cr hash_iter (fst r) (snd r @ tl work)
      })"

definition shell_handle_event :: "crypto \<Rightarrow> (window_table \<Rightarrow> window_table) \<Rightarrow> TestShell \<Rightarrow> SimNodeId \<Rightarrow> CoreEvent \<Rightarrow> TestShell run" where
  "shell_handle_event cr hash_iter shell node event = do {
     (shell', work) \<leftarrow> begin_event cr hash_iter shell node event;
     handle_actions cr hash_iter shell' work
   }"

definition open_session :: "crypto \<Rightarrow> (window_table \<Rightarrow> window_table) \<Rightarrow> TestShell \<Rightarrow> SimNodeId \<Rightarrow> (ConvId \<times> TestShell) run" where
  "open_session cr hash_iter shell node =
     (let elapsed_ms = shell_elapsed shell node
      in case map_of (ts_nodes shell) node of
           Some (SimEndpoint e) \<Rightarrow> do {
             (core, actions, r) \<leftarrow> endpoint_handle_event cr (en_core e) elapsed_ms SessionOpen [];
             (case r of
                SessionCreated conv_id \<Rightarrow> do {
                  shell' \<leftarrow> handle_actions cr hash_iter (open_entry (set_node node (SimEndpoint (e\<lparr>en_core := core\<rparr>)) shell) node conv_id)
                    (node_actions node actions);
                  Some (conv_id, shell')
                }
              | _ \<Rightarrow> panic)
           }
         | _ \<Rightarrow> panic)"

definition send_session_bytes :: "crypto \<Rightarrow> (window_table \<Rightarrow> window_table) \<Rightarrow> TestShell \<Rightarrow> SimNodeId \<Rightarrow> ConvId \<Rightarrow> bytes \<Rightarrow>
    (bool \<times> TestShell) run" where
  "send_session_bytes cr hash_iter shell node conv_id bs = do {
     (ok, shell1, work) \<leftarrow> begin_session_write cr shell node conv_id bs;
     shell2 \<leftarrow> handle_actions cr hash_iter shell1 work;
     Some (ok, shell2)
   }"

definition shell_close_session :: "crypto \<Rightarrow> (window_table \<Rightarrow> window_table) \<Rightarrow> TestShell \<Rightarrow> SimNodeId \<Rightarrow> ConvId \<Rightarrow> CloseReason \<Rightarrow>
    TestShell run" where
  "shell_close_session cr hash_iter shell node conv_id reason = shell_handle_event cr hash_iter shell node (SessionClose conv_id reason)"

definition has_session :: "TestShell \<Rightarrow> SimNodeId \<Rightarrow> ConvId \<Rightarrow> bool" where
  "has_session shell node conv_id = (case map_of (ts_nodes shell) node of
      Some (SimEndpoint e) \<Rightarrow> map_of (en_sessions e) conv_id \<noteq> None
    | _ \<Rightarrow> False)"

definition shell_active_sessions :: "TestShell \<Rightarrow> SimNodeId \<Rightarrow> usize" where
  "shell_active_sessions shell node = (case map_of (ts_nodes shell) node of
      Some (SimEndpoint e) \<Rightarrow> active_sessions (endpoint_metrics (en_core e))
    | _ \<Rightarrow> 0)"

definition drop_queued_from :: "TestShell \<Rightarrow> SimNodeId \<Rightarrow> ChannelId \<Rightarrow> usize \<times> TestShell" where
  "drop_queued_from shell from_node ch =
     (let kept = filter (\<lambda>p. \<not> (sp_from_node p = from_node \<and> sp_from_channel_id p = ch)) (ts_packets shell);
          dropped = length (ts_packets shell) - length kept
      in (dropped, count_dropped_packets (word_of_nat dropped) (shell\<lparr>ts_packets := kept\<rparr>)))"

definition session_bytes :: "TestShell \<Rightarrow> SimNodeId \<Rightarrow> ConvId \<Rightarrow> bytes option" where
  "session_bytes shell node conv_id = (case map_of (ts_nodes shell) node of
      Some (SimEndpoint e) \<Rightarrow> map_of (en_sessions e) conv_id
    | _ \<Rightarrow> None)"

definition delivered_on :: "TestShell \<Rightarrow> SimNodeId \<Rightarrow> ChannelId \<Rightarrow> u64" where
  "delivered_on shell node ch = (case map_of (ts_delivered_by_outbound_channel shell) (node, ch) of None \<Rightarrow> 0 | Some n \<Rightarrow> n)"

definition attempted_on :: "TestShell \<Rightarrow> SimNodeId \<Rightarrow> ChannelId \<Rightarrow> u64 run" where
  "attempted_on shell node ch = (case link_position shell node ch of None \<Rightarrow> Some 0 | Some i \<Rightarrow> index_run (ts_link_attempts shell) i)"

definition replay_last_packet :: "TestShell \<Rightarrow> SimNodeId \<Rightarrow> ChannelId \<Rightarrow> bool \<times> TestShell" where
  "replay_last_packet shell from_node ch = (case map_of (ts_captured_packets shell) (from_node, ch) of
      None \<Rightarrow> (False, shell)
    | Some packet \<Rightarrow> (True, shell\<lparr>ts_packets := ts_packets shell @ [packet\<lparr>sp_due_ms := ts_now_ms shell\<rparr>]\<rparr>))"

subsection \<open>The event loop\<close>

definition blocked_retries :: "TestShell \<Rightarrow> (SimNodeId \<times> ConvId \<times> bytes) list" where
  "blocked_retries shell = concat (map (\<lambda>(node, n). case n of
      SimEndpoint e \<Rightarrow> map (\<lambda>(conv_id, bs). (node, conv_id, bs)) (en_blocked_writes e)
    | SimRelay r \<Rightarrow> []) (ts_nodes shell))"

definition retry_write :: "crypto \<Rightarrow> (window_table \<Rightarrow> window_table) \<Rightarrow> SimNodeId \<times> ConvId \<times> bytes \<Rightarrow> TestShell \<Rightarrow> TestShell run" where
  "retry_write cr hash_iter w shell = (case w of (node, conv_id, bs) \<Rightarrow> do {
     (ok, shell') \<leftarrow> send_session_bytes cr hash_iter shell node conv_id bs;
     Some shell'
   })"

definition retry_blocked_writes :: "crypto \<Rightarrow> (window_table \<Rightarrow> window_table) \<Rightarrow> TestShell \<Rightarrow> TestShell run" where
  "retry_blocked_writes cr hash_iter shell = fold_run (retry_write cr hash_iter) (blocked_retries shell) shell"

definition next_packet_index :: "TestShell \<Rightarrow> usize option" where
  "next_packet_index shell =
     (if ts_packets shell = [] then None
      else Some (arg_min_list (\<lambda>i. sp_due_ms (ts_packets shell ! i)) [0..<length (ts_packets shell)]))"

fun node_deadline :: "u64 \<Rightarrow> SimNode \<Rightarrow> u64" where
  "node_deadline elapsed_ms (SimEndpoint e) = endpoint_next_deadline (en_core e) elapsed_ms"
| "node_deadline elapsed_ms (SimRelay r) = relay_next_deadline (rn_core r) elapsed_ms"

definition poll_deadlines :: "TestShell \<Rightarrow> (SimNodeId \<times> u64) list" where
  "poll_deadlines shell = map (\<lambda>(node, n). (node, saturating_add (node_deadline (shell_elapsed shell node) n) (node_started n)))
     (filter (\<lambda>(node, n). node_deadline (shell_elapsed shell node) n \<noteq> - 1) (ts_nodes shell))"

definition next_poll_deadline :: "TestShell \<Rightarrow> (SimNodeId \<times> u64) option" where
  "next_poll_deadline shell =
     (if poll_deadlines shell = [] then None else Some (arg_min_list snd (poll_deadlines shell)))"

definition begin_poll :: "crypto \<Rightarrow> (window_table \<Rightarrow> window_table) \<Rightarrow> TestShell \<Rightarrow> SimNodeId \<Rightarrow> (TestShell \<times> shell_work) option run" where
  "begin_poll cr hash_iter shell node =
     (let elapsed_ms = shell_elapsed shell node
      in case map_of (ts_nodes shell) node of
           None \<Rightarrow> Some None
         | Some (SimEndpoint e) \<Rightarrow> do {
             (core, actions) \<leftarrow> endpoint_poll cr hash_iter (en_core e) elapsed_ms [];
             Some (Some (set_node node (SimEndpoint (e\<lparr>en_core := core\<rparr>)) shell, node_actions node actions))
           }
         | Some (SimRelay r) \<Rightarrow>
             let (core, actions) = relay_poll (rn_core r) elapsed_ms []
             in Some (Some (set_node node (SimRelay (r\<lparr>rn_core := core\<rparr>)) shell, node_actions node actions)))"

definition poll_node :: "crypto \<Rightarrow> (window_table \<Rightarrow> window_table) \<Rightarrow> TestShell \<Rightarrow> SimNodeId \<Rightarrow> TestShell run" where
  "poll_node cr hash_iter shell node = do {
     started \<leftarrow> begin_poll cr hash_iter shell node;
     (case started of
        None \<Rightarrow> Some shell
      | Some (shell1, work) \<Rightarrow> do {
          shell2 \<leftarrow> handle_actions cr hash_iter shell1 work;
          retry_blocked_writes cr hash_iter shell2
        })
   }"

definition advance_to_poll :: "TestShell \<Rightarrow> u64 \<Rightarrow> TestShell" where
  "advance_to_poll shell due =
     shell\<lparr>ts_now_ms := (if due \<le> ts_now_ms shell then saturating_add (ts_now_ms shell) 1 else due)\<rparr>"

definition take_packet :: "TestShell \<Rightarrow> usize \<Rightarrow> (ScheduledPacket \<times> TestShell) run" where
  "take_packet shell i = do {
     packet \<leftarrow> index_run (ts_packets shell) i;
     let m = ts_metrics shell;
     let key = (sp_from_node packet, sp_from_channel_id packet);
     let count = (case map_of (ts_delivered_by_outbound_channel shell) key of None \<Rightarrow> 0 | Some n \<Rightarrow> n);
     Some (packet, shell\<lparr>ts_packets := take i (ts_packets shell) @ drop (i + 1) (ts_packets shell), ts_now_ms := sp_due_ms packet,
       ts_metrics := m\<lparr>delivered_packets := saturating_add (delivered_packets m) 1\<rparr>,
       ts_delivered_by_outbound_channel := bt_insert key (count + 1) (ts_delivered_by_outbound_channel shell)\<rparr>)
   }"

definition deliver_packet :: "crypto \<Rightarrow> (window_table \<Rightarrow> window_table) \<Rightarrow> TestShell \<Rightarrow> usize \<Rightarrow> TestShell run" where
  "deliver_packet cr hash_iter shell i = do {
     (packet, shell') \<leftarrow> take_packet shell i;
     shell_handle_event cr hash_iter shell' (sp_to_node packet) (TransportPacketReceived (sp_to_channel_id packet) (sp_bytes packet))
   }"

fun run_until_idle :: "crypto \<Rightarrow> (window_table \<Rightarrow> window_table) \<Rightarrow> usize \<Rightarrow> TestShell \<Rightarrow> TestShell run" where
  "run_until_idle cr hash_iter 0 shell = Some shell"
| "run_until_idle cr hash_iter (Suc max_steps) shell0 = do {
     shell \<leftarrow> retry_blocked_writes cr hash_iter shell0;
     (case next_packet_index shell of
        None \<Rightarrow>
          (case next_poll_deadline shell of
             None \<Rightarrow> Some shell
           | Some (node, due) \<Rightarrow> do {
               shell' \<leftarrow> poll_node cr hash_iter (advance_to_poll shell due) node;
               run_until_idle cr hash_iter max_steps shell'
             })
      | Some i \<Rightarrow> do {
          packet \<leftarrow> index_run (ts_packets shell) i;
          shell' \<leftarrow> (case next_poll_deadline shell of
              None \<Rightarrow> deliver_packet cr hash_iter shell i
            | Some (node, poll_due) \<Rightarrow>
                if poll_due < sp_due_ms packet then poll_node cr hash_iter (advance_to_poll shell poll_due) node
                else deliver_packet cr hash_iter shell i);
          run_until_idle cr hash_iter max_steps shell'
        })
   }"

subsection \<open>Configurations\<close>

definition route_edge :: "ChannelId \<Rightarrow> u32 \<Rightarrow> RouteEdge" where
  "route_edge ch nxt = \<lparr>re_channel_id = ch, re_next = nxt, re_capacity_hint_kbps = 0, re_latency_hint_ms = 0\<rparr>"

definition route_graph :: "RouteEdge list list \<Rightarrow> RouteGraph" where
  "route_graph nodes = \<lparr>rg_nodes = map (\<lambda>edges. \<lparr>rn_edges = edges\<rparr>) nodes\<rparr>"

definition kcp_config :: KcpConfig where
  "kcp_config = kcp_config_default"

definition endpoint_config :: "bytes \<Rightarrow> bytes \<Rightarrow> bytes \<Rightarrow> u64 \<Rightarrow> ChannelId list \<Rightarrow> RouteGraph \<Rightarrow> KcpConfig \<Rightarrow> EndpointConfig" where
  "endpoint_config envelope_key message_key random_seed boot_time_ms local_channels graph kcp =
     \<lparr>ec_envelope_key = envelope_key, ec_message_key = message_key, ec_random_seed = random_seed, ec_boot_time_ms = boot_time_ms,
      ec_kcp = kcp, ec_route = \<lparr>rcf_graph = graph, rcf_min_mtu = 1200, rcf_feedback_interval_ms = 1000, rcf_feedback_timeout_ms = 5000\<rparr>,
      ec_local_channels = local_channels, ec_padding_reserve = 128, ec_keepalive_interval_ms = 0\<rparr>"

definition relay_config :: "bytes \<Rightarrow> bytes \<Rightarrow> u64 \<Rightarrow> ChannelId list \<Rightarrow> RelayConfig" where
  "relay_config envelope_key random_seed boot_time_ms local_channels =
     \<lparr>rc_envelope_key = envelope_key, rc_random_seed = random_seed, rc_boot_time_ms = boot_time_ms,
      rc_local_channels = local_channels, rc_local_min_mtu = 1200\<rparr>"

end
