(* ===== verification/Routing_Correct.thy ===== *)
theory Routing_Correct
  imports Routing
begin

section \<open>Correctness of the route planner\<close>

text \<open>
  The vocabulary of the specification (well-formed tables, paths of allowed edges, arrival times in
  unbounded arithmetic, the states a planner reaches) and the proofs about \<open>Routing\<close>.

  The double loop of \<open>calculate_path\<close> keeps two facts: every finite arrival is linked to an earlier
  one by the edge its predecessor entry names (\<open>dp_sound\<close>), and every edge already scanned is
  relaxed (\<open>dp_done\<close>).  The first makes the backward walk end in a path of that arrival, the second
  makes the arrival minimal.  \<open>sample_inv\<close> is the invariant of the search for the edge to sample.
  \<open>keeps_edges\<close> collects what every mutating operation preserves.
\<close>

subsection \<open>Specification vocabulary\<close>

definition get_edge :: "edge_table \<Rightarrow> EdgeId \<Rightarrow> Edge" where
  "get_edge nodes eid = nodes ! eid_node eid ! eid_edge eid"

definition valid_edge :: "edge_table \<Rightarrow> EdgeId \<Rightarrow> bool" where
  "valid_edge nodes eid \<longleftrightarrow> eid_node eid < length nodes \<and> eid_edge eid < length (nodes ! eid_node eid)"

definition allowed_edge :: "edge_table \<Rightarrow> u64 \<Rightarrow> EdgeId \<Rightarrow> bool" where
  "allowed_edge nodes now eid \<longleftrightarrow> valid_edge nodes eid \<and> cooldown_until (get_edge nodes eid) \<le> now"

definition edge_wf :: "nat \<Rightarrow> nat \<Rightarrow> Edge \<Rightarrow> bool" where
  "edge_wf n m e \<longleftrightarrow> m < edge_next e \<and> edge_next e < n \<and> loss e \<le> LOSS_ONE \<and>
     LOCAL_COOLDOWN_INITIAL_MS \<le> retry_delay_ms e \<and> retry_delay_ms e \<le> LOCAL_COOLDOWN_MAX_MS"

definition table_wf :: "edge_table \<Rightarrow> bool" where
  "table_wf nodes \<longleftrightarrow> nodes \<noteq> [] \<and>
     (\<forall>m < length nodes. \<forall>e \<in> set (nodes ! m). edge_wf (length nodes) m e)"

definition edge_ser :: "Edge \<Rightarrow> nat \<Rightarrow> u64" where
  "edge_ser e n =
     (let l = (ucast (loss e) :: u64);
          penalty = FIXED_ONE + 15 * l * l * FIXED_ONE div (ucast LOSS_ONE) ^ 2;
          c = max (ucast (capacity_kbps e) * FIXED_ONE div penalty) 1;
          a = word_of_nat n * 8 * FIXED_ONE
      in if a mod c \<noteq> 0 then a div c + 1 else a div c)"

definition edge_lat :: "Edge \<Rightarrow> u64" where
  "edge_lat e = ucast (latency_ms e) * FIXED_ONE"

definition edge_cost :: "nat \<Rightarrow> Edge \<Rightarrow> u64 \<Rightarrow> u64" where
  "edge_cost n e a = max a (virtual_free_at e) + edge_ser e n + edge_lat e"

fun path_from :: "edge_table \<Rightarrow> u64 \<Rightarrow> nat \<Rightarrow> EdgeId list \<Rightarrow> nat \<Rightarrow> bool" where
  "path_from nodes now n [] m \<longleftrightarrow> n = m"
| "path_from nodes now n (eid # path) m \<longleftrightarrow> allowed_edge nodes now eid \<and> eid_node eid = n \<and>
     path_from nodes now (edge_next (get_edge nodes eid)) path m"

definition path_arrival :: "edge_table \<Rightarrow> nat \<Rightarrow> EdgeId list \<Rightarrow> u64 \<Rightarrow> u64" where
  "path_arrival nodes n path a = fold (\<lambda>eid. edge_cost n (get_edge nodes eid)) path a"

definition path_state :: "EdgeId option \<Rightarrow> EdgeId list \<Rightarrow> nat" where
  "path_state forced path = (if \<exists>f. forced = Some f \<and> f \<in> set path then 1 else 0)"

definition next_state :: "EdgeId option \<Rightarrow> nat \<Rightarrow> EdgeId \<Rightarrow> nat" where
  "next_state forced s eid = (if forced = Some eid then 1 else s)"

definition dp_shape :: "edge_table \<Rightarrow> dp_state \<Rightarrow> bool" where
  "dp_shape nodes = (\<lambda>(arr, pred). length arr = length nodes \<and> length pred = length nodes \<and>
     (\<forall>m < length nodes. length (arr ! m) = 2 \<and> length (pred ! m) = 2))"

definition dp_link :: "edge_table \<Rightarrow> u64 \<Rightarrow> nat \<Rightarrow> EdgeId option \<Rightarrow> nat \<Rightarrow> u64 list list \<Rightarrow> nat \<Rightarrow> nat \<Rightarrow> nat \<Rightarrow> EdgeId \<Rightarrow> bool" where
  "dp_link nodes now n forced k arr m s s0 eid \<longleftrightarrow> s0 < 2 \<and> eid_node eid \<le> k \<and>
     allowed_edge nodes now eid \<and> edge_next (get_edge nodes eid) = m \<and>
     s = next_state forced s0 eid \<and> arr ! eid_node eid ! s0 \<noteq> - 1 \<and>
     arr ! m ! s = edge_cost n (get_edge nodes eid) (arr ! eid_node eid ! s0)"

definition dp_sound :: "edge_table \<Rightarrow> u64 \<Rightarrow> nat \<Rightarrow> EdgeId option \<Rightarrow> nat \<Rightarrow> dp_state \<Rightarrow> bool" where
  "dp_sound nodes now n forced k dp \<longleftrightarrow> fst dp ! 0 = [now * FIXED_ONE, - 1] \<and>
     (forced = None \<longrightarrow> (\<forall>m < length nodes. fst dp ! m ! 1 = - 1)) \<and>
     (\<forall>m u. m < length nodes \<longrightarrow> u < 2 \<longrightarrow> 0 < m \<longrightarrow> fst dp ! m ! u \<noteq> - 1 \<longrightarrow>
        (\<exists>s0 eid. snd dp ! m ! u = Some (s0, eid) \<and> dp_link nodes now n forced k (fst dp) m u s0 eid))"

definition dp_done :: "edge_table \<Rightarrow> u64 \<Rightarrow> nat \<Rightarrow> EdgeId option \<Rightarrow> EdgeId \<Rightarrow> nat \<Rightarrow> dp_state \<Rightarrow> bool" where
  "dp_done nodes now n forced eid s dp \<longleftrightarrow>
     (allowed_edge nodes now eid \<and> fst dp ! eid_node eid ! s \<noteq> - 1 \<longrightarrow>
       fst dp ! edge_next (get_edge nodes eid) ! next_state forced s eid
         \<le> edge_cost n (get_edge nodes eid) (fst dp ! eid_node eid ! s))"

definition dp_set :: "dp_state \<Rightarrow> nat \<Rightarrow> nat \<Rightarrow> u64 \<Rightarrow> nat \<times> EdgeId \<Rightarrow> dp_state" where
  "dp_set dp q t c p = (case dp of (arr, pred) \<Rightarrow> (arr[q := (arr ! q)[t := c]], pred[q := (pred ! q)[t := Some p]]))"

definition dp_grows :: "edge_table \<Rightarrow> u64 \<Rightarrow> nat \<Rightarrow> EdgeId option \<Rightarrow> nat \<Rightarrow> dp_state \<Rightarrow> dp_state \<Rightarrow> bool" where
  "dp_grows nodes now n forced k dp dp' \<longleftrightarrow> dp_shape nodes dp' \<and> dp_sound nodes now n forced k dp' \<and>
     (\<forall>m \<le> k. fst dp' ! m = fst dp ! m) \<and>
     (\<forall>e' t. eid_node e' \<le> k \<longrightarrow> dp_done nodes now n forced e' t dp \<longrightarrow> dp_done nodes now n forced e' t dp')"

definition dp_start :: "edge_table \<Rightarrow> u64 \<Rightarrow> dp_state" where
  "dp_start nodes now = ((replicate (length nodes) [- 1, - 1])[0 := [now * FIXED_ONE, - 1]],
     replicate (length nodes) [None, None])"

definition edge_time :: "nat \<Rightarrow> Edge \<Rightarrow> nat \<Rightarrow> nat" where
  "edge_time n e a = max a (unat (virtual_free_at e)) + unat (edge_ser e n) + unat (edge_lat e)"

definition path_time :: "edge_table \<Rightarrow> nat \<Rightarrow> EdgeId list \<Rightarrow> nat \<Rightarrow> nat" where
  "path_time nodes n path a = fold (\<lambda>eid. edge_time n (get_edge nodes eid)) path a"

definition times_bounded :: "edge_table \<Rightarrow> u64 \<Rightarrow> nat \<Rightarrow> nat \<Rightarrow> nat \<Rightarrow> bool" where
  "times_bounded nodes now n V B \<longleftrightarrow> unat now * 65536 \<le> V \<and> V + length nodes * B < 2 ^ 64 - 1 \<and>
     (\<forall>es \<in> set nodes. \<forall>e \<in> set es. unat (virtual_free_at e) \<le> V \<and> unat (edge_ser e n) + unat (edge_lat e) \<le> B)"

definition uses_forced :: "EdgeId option \<Rightarrow> EdgeId list \<Rightarrow> bool" where
  "uses_forced forced path = (case forced of None \<Rightarrow> True | Some f \<Rightarrow> f \<in> set path)"

definition edge_static :: "Edge \<Rightarrow> ChannelId \<times> usize \<times> u32 \<times> u32" where
  "edge_static e = (channel_id e, edge_next e, capacity_kbps e, latency_ms e)"

definition topology :: "edge_table \<Rightarrow> (ChannelId \<times> usize \<times> u32 \<times> u32) list list" where
  "topology nodes = map (map edge_static) nodes"

definition channels_distinct :: "edge_table \<Rightarrow> bool" where
  "channels_distinct nodes \<longleftrightarrow> (\<forall>es \<in> set nodes. distinct (map channel_id es))"

definition local_cooldowns :: "edge_table \<Rightarrow> bool" where
  "local_cooldowns nodes \<longleftrightarrow> (\<forall>m < length nodes. 0 < m \<longrightarrow> (\<forall>e \<in> set (nodes ! m). cooldown_until e = 0))"

definition keeps_edges :: "edge_table \<Rightarrow> edge_table \<Rightarrow> bool" where
  "keeps_edges nodes nodes' \<longleftrightarrow> topology nodes' = topology nodes \<and> (table_wf nodes \<longrightarrow> table_wf nodes') \<and>
     (local_cooldowns nodes \<longrightarrow> local_cooldowns nodes')"

definition sample_inv :: "edge_table \<Rightarrow> u64 \<Rightarrow> (EdgeId \<Rightarrow> bool) \<Rightarrow> bool list \<times> EdgeId option \<Rightarrow> bool" where
  "sample_inv nodes now seen st \<longleftrightarrow> length (fst st) = length nodes \<and> fst st ! 0 \<and>
     (\<forall>m < length nodes. fst st ! m \<longrightarrow> (\<exists>path. path_from nodes now 0 path m)) \<and>
     (\<forall>eid. snd st = Some eid \<longrightarrow> allowed_edge nodes now eid \<and> fst st ! eid_node eid) \<and>
     (\<forall>eid. seen eid \<and> allowed_edge nodes now eid \<and> fst st ! eid_node eid \<longrightarrow>
        fst st ! edge_next (get_edge nodes eid) \<and>
        (\<exists>best. snd st = Some best \<and>
           \<not> option_less (last_sampled (get_edge nodes eid)) (last_sampled (get_edge nodes best))))"

definition sample_pick :: "edge_table \<Rightarrow> EdgeId \<Rightarrow> EdgeId option \<Rightarrow> EdgeId option" where
  "sample_pick nodes eid selected = (case selected of None \<Rightarrow> Some eid
     | Some b \<Rightarrow> if option_less (last_sampled (get_edge nodes eid)) (last_sampled (get_edge nodes b))
                then Some eid else selected)"

definition reachable_edge :: "edge_table \<Rightarrow> u64 \<Rightarrow> EdgeId \<Rightarrow> bool" where
  "reachable_edge nodes now eid \<longleftrightarrow> allowed_edge nodes now eid \<and> (\<exists>path. path_from nodes now 0 path (eid_node eid))"

inductive planner_reach :: "RouteConfig \<Rightarrow> RoutePlanner \<Rightarrow> bool" for config where
  planner_start: "planner_reach config (planner_new config)"
| planner_plan: "planner_reach config p \<Longrightarrow> build_route_plan p now n sample = Some (r, p') \<Longrightarrow> planner_reach config p'"
| planner_failure: "planner_reach config p \<Longrightarrow> note_local_send_failure p ch now = Some p' \<Longrightarrow> planner_reach config p'"
| planner_feedback: "planner_reach config p \<Longrightarrow> note_feedback p plan t success = Some p' \<Longrightarrow> planner_reach config p'"

definition plan_built :: "RouteConfig \<Rightarrow> ChannelId list \<Rightarrow> bool" where
  "plan_built config plan \<longleftrightarrow> (\<exists>p now n sample p'. planner_reach config p \<and> build_route_plan p now n sample = Some (Some plan, p'))"

definition graph_ordered :: "RouteGraph \<Rightarrow> bool" where
  "graph_ordered g \<longleftrightarrow> rg_nodes g \<noteq> [] \<and>
     (\<forall>m < length (rg_nodes g). \<forall>e \<in> set (rn_edges (rg_nodes g ! m)).
        m < unat (re_next e) \<and> unat (re_next e) < length (rg_nodes g))"

definition single_sink :: "edge_table \<Rightarrow> bool" where
  "single_sink nodes \<longleftrightarrow> (\<forall>m < length nodes - 1. nodes ! m \<noteq> [])"

definition local_edge_free :: "edge_table \<Rightarrow> u64 \<Rightarrow> bool" where
  "local_edge_free nodes now \<longleftrightarrow> (\<exists>e \<in> set (nodes ! 0). cooldown_until e \<le> now)"

definition diamond_config :: RouteConfig where
  "diamond_config = \<lparr>rcf_graph = \<lparr>rg_nodes = [
      \<lparr>rn_edges = [\<lparr>re_channel_id = 2, re_next = 1, re_capacity_hint_kbps = 1000, re_latency_hint_ms = 1\<rparr>,
                 \<lparr>re_channel_id = 1, re_next = 2, re_capacity_hint_kbps = 0, re_latency_hint_ms = 0\<rparr>]\<rparr>,
      \<lparr>rn_edges = [\<lparr>re_channel_id = 5, re_next = 2, re_capacity_hint_kbps = 100000, re_latency_hint_ms = 10\<rparr>]\<rparr>,
      \<lparr>rn_edges = []\<rparr>]\<rparr>,
    rcf_min_mtu = 1200, rcf_feedback_interval_ms = 1000, rcf_feedback_timeout_ms = 5000\<rparr>"

subsection \<open>Edges\<close>

lemma edge_at_valid [run_simps]: "valid_edge nodes eid \<Longrightarrow> edge_at nodes eid = Some (get_edge nodes eid)"
  by (simp add: edge_at_def valid_edge_def get_edge_def run_simps)

lemma edge_allowed_valid [run_simps]:
  "valid_edge nodes eid \<Longrightarrow> edge_allowed nodes eid now = Some (allowed_edge nodes now eid)"
  by (simp add: edge_allowed_def allowed_edge_def run_simps)

lemma latency_valid [run_simps]: "valid_edge nodes eid \<Longrightarrow> latency nodes eid = Some (edge_lat (get_edge nodes eid))"
  by (simp add: latency_def edge_lat_def run_simps)

lemma table_wf_edge:
  "table_wf nodes \<Longrightarrow> valid_edge nodes eid \<Longrightarrow> edge_wf (length nodes) (eid_node eid) (get_edge nodes eid)"
  by (simp add: table_wf_def valid_edge_def get_edge_def)

lemma FIXED_ONE_val: "FIXED_ONE = 65536"
  by (simp add: FIXED_ONE_def)

lemma penalty_nonzero:
  "FIXED_ONE + 15 * l * l * FIXED_ONE div (ucast LOSS_ONE) ^ 2 \<noteq> (0 :: u64)"
proof -
  let ?d = "15 * l * l * FIXED_ONE div (ucast LOSS_ONE) ^ 2"
  have "unat (ucast LOSS_ONE ^ 2 :: u64) = 4294836225" by (simp add: LOSS_ONE_def)
  then have "unat ?d = unat (15 * l * l * FIXED_ONE) div 4294836225"
    by (simp add: unat_div)
  also have "\<dots> \<le> 2 ^ 64 div 4294836225"
    using unsigned_less [of "15 * l * l * FIXED_ONE", where ?'a = nat] by (intro div_le_mono) simp
  finally have "unat ?d \<le> 4295098371" by simp
  then have "unat (FIXED_ONE + ?d) = 65536 + unat ?d"
    by (subst unat_word_ariths) (simp add: FIXED_ONE_val)
  then show ?thesis by auto
qed

lemma serialization_time_valid [run_simps]:
  assumes "valid_edge nodes eid"
  shows "serialization_time nodes eid n = Some (edge_ser (get_edge nodes eid) n)"
proof -
  have "max x 1 \<noteq> (0 :: u64)" for x by (auto simp: max_def word_le_nat_alt)
  then show ?thesis
    using assms penalty_nonzero
    by (simp add: serialization_time_def run_simps edge_ser_def div_ceil_def Let_def)
qed

subsection \<open>One relaxation\<close>

lemma or_one_state: "s < 2 \<Longrightarrow> s OR Suc 0 = 1"
  by (cases s) auto

lemma dp_set_shape: "dp_shape nodes dp \<Longrightarrow> dp_shape nodes (dp_set dp q t c p)"
  by (auto simp: dp_shape_def dp_set_def nth_update_if split: prod.splits)

lemma dp_set_new:
  "dp_shape nodes dp \<Longrightarrow> q < length nodes \<Longrightarrow> t < 2 \<Longrightarrow>
     fst (dp_set dp q t c p) ! q ! t = c \<and> snd (dp_set dp q t c p) ! q ! t = Some p"
  by (auto simp: dp_shape_def dp_set_def split: prod.splits)

lemma dp_set_old:
  "(m, u) \<noteq> (q, t) \<Longrightarrow> fst (dp_set dp q t c p) ! m ! u = fst dp ! m ! u \<and>
     snd (dp_set dp q t c p) ! m ! u = snd dp ! m ! u"
  by (auto simp: dp_set_def nth_update_if split: prod.splits)

lemma dp_set_row: "m \<noteq> q \<Longrightarrow> fst (dp_set dp q t c p) ! m = fst dp ! m"
  by (auto simp: dp_set_def split: prod.splits)

lemma dp_set_le:
  assumes "dp_shape nodes dp" and "q < length nodes" and "t < 2" and "c \<le> fst dp ! q ! t"
  shows "fst (dp_set dp q t c p) ! m ! u \<le> fst dp ! m ! u"
  using assms dp_set_new [of nodes dp q t c p] dp_set_old [of m u q t dp c p]
  by (cases "(m, u) = (q, t)") auto

lemma dp_sound_set:
  assumes sound: "dp_sound nodes now n forced k dp" and shape: "dp_shape nodes dp"
    and q: "k < q" "q < length nodes" and t: "t < 2" and none: "forced = None \<Longrightarrow> t = 0"
    and link: "dp_link nodes now n forced k (fst (dp_set dp q t c (s, eid))) q t s eid"
  shows "dp_sound nodes now n forced k (dp_set dp q t c (s, eid))"
  unfolding dp_sound_def Let_def
proof (intro conjI allI impI)
  let ?dp = "dp_set dp q t c (s, eid)"
  show "fst ?dp ! 0 = [now * FIXED_ONE, - 1]"
    using sound q(1) dp_set_row [of 0 q dp] by (simp add: dp_sound_def)
  show "fst ?dp ! m ! 1 = - 1" if "forced = None" "m < length nodes" for m
    using that sound none dp_set_old [of m 1 q t dp] by (simp add: dp_sound_def)
  fix m u assume m: "m < length nodes" "u < (2 :: nat)" "0 < m" "fst ?dp ! m ! u \<noteq> - 1"
  show "\<exists>s0 eid'. snd ?dp ! m ! u = Some (s0, eid') \<and> dp_link nodes now n forced k (fst ?dp) m u s0 eid'"
  proof (cases "(m, u) = (q, t)")
    case True
    with link dp_set_new [OF shape q(2) t] show ?thesis by auto
  next
    case False
    with m dp_set_old [of m u q t dp c "(s, eid)"] have "fst dp ! m ! u \<noteq> - 1" by auto
    with m sound obtain s0 eid' where l: "snd dp ! m ! u = Some (s0, eid')"
      "dp_link nodes now n forced k (fst dp) m u s0 eid'"
      unfolding dp_sound_def by blast
    have "eid_node eid' \<noteq> q" using l(2) q(1) by (auto simp: dp_link_def)
    with l dp_set_old [OF False] dp_set_row [of "eid_node eid'" q dp t c "(s, eid)"]
    show ?thesis by (auto simp: dp_link_def)
  qed
qed

lemma dp_done_set:
  assumes "dp_done nodes now n forced e' t' dp" and "dp_shape nodes dp" and "q < length nodes" and "t < 2"
    and "c \<le> fst dp ! q ! t" and "eid_node e' \<noteq> q"
  shows "dp_done nodes now n forced e' t' (dp_set dp q t c p)"
  using assms(1) unfolding dp_done_def dp_set_row [OF assms(6)]
  by (blast intro: order_trans [OF dp_set_le [OF assms(2-5)]])

lemma relax_edge_step:
  assumes wf: "table_wf nodes" and val: "valid_edge nodes eid" and s: "s < 2"
    and shape: "dp_shape nodes dp" and sound: "dp_sound nodes now n forced (eid_node eid) dp"
    and fin: "fst dp ! eid_node eid ! s \<noteq> - 1"
  shows "\<exists>dp'. relax_edge nodes now n forced (eid_node eid) s (fst dp ! eid_node eid ! s) (eid_edge eid) dp
      = Some dp' \<and> dp_shape nodes dp' \<and> dp_sound nodes now n forced (eid_node eid) dp' \<and>
    dp_done nodes now n forced eid s dp' \<and>
    (\<forall>m \<le> eid_node eid. fst dp' ! m = fst dp ! m) \<and>
    (\<forall>e' t. eid_node e' \<le> eid_node eid \<longrightarrow>
      dp_done nodes now n forced e' t dp \<longrightarrow> dp_done nodes now n forced e' t dp')"
proof -
  let ?e = "get_edge nodes eid" and ?k = "eid_node eid"
  let ?q = "edge_next ?e" and ?t = "next_state forced s eid"
  let ?c = "edge_cost n ?e (fst dp ! ?k ! s)"
  have ew: "?k < ?q" "?q < length nodes" using table_wf_edge [OF wf val] by (simp_all add: edge_wf_def)
  have eid: "\<lparr>eid_node = ?k, eid_edge = eid_edge eid\<rparr> = eid" by simp
  have t: "?t < 2" using s by (simp add: next_state_def)
  have st: "(if forced = Some eid then s OR 1 else s) = ?t" using s by (simp add: next_state_def or_one_state)
  obtain arr pred where dp: "dp = (arr, pred)" by fastforce
  have len: "length arr = length nodes" "length pred = length nodes" "length (arr ! ?q) = 2" "length (pred ! ?q) = 2"
    using shape ew by (auto simp: dp_shape_def dp)
  have run: "relax_edge nodes now n forced ?k s (arr ! ?k ! s) (eid_edge eid) dp =
      Some (if allowed_edge nodes now eid \<and> ?c < arr ! ?q ! ?t then dp_set dp ?q ?t ?c (s, eid) else dp)"
    using val ew t len unfolding relax_edge_def Let_def eid st dp dp_set_def
    by (auto simp: run_simps edge_cost_def)
  show ?thesis
  proof (cases "allowed_edge nodes now eid \<and> ?c < arr ! ?q ! ?t")
    case False
    then have "dp_done nodes now n forced eid s dp"
      unfolding dp_done_def by (auto simp: dp)
    with False run shape sound show ?thesis by (auto simp: dp)
  next
    case True
    let ?dp = "dp_set dp ?q ?t ?c (s, eid)"
    note row = dp_set_row [of _ ?q dp ?t ?c "(s, eid)"]
    have link: "dp_link nodes now n forced ?k (fst ?dp) ?q ?t s eid"
      using True s fin row [of ?k] ew dp_set_new [OF shape ew(2) t, of ?c "(s, eid)"] by (simp add: dp_link_def)
    have none: "forced = None \<Longrightarrow> ?t = 0"
      using fin s sound ew by (cases "s = 1") (auto simp: dp_sound_def next_state_def)
    have "dp_sound nodes now n forced ?k ?dp"
      by (rule dp_sound_set [OF sound shape ew t none link])
    moreover have "dp_done nodes now n forced eid s ?dp"
      using dp_set_new [OF shape ew(2) t, of ?c "(s, eid)"] row [of ?k] ew by (simp add: dp_done_def)
    moreover have "dp_done nodes now n forced e' t' ?dp"
      if "eid_node e' \<le> ?k" "dp_done nodes now n forced e' t' dp" for e' t'
      using that True ew by (intro dp_done_set [OF that(2) shape ew(2) t]) (auto simp: dp)
    moreover have "fst ?dp ! m = fst dp ! m" if "m \<le> ?k" for m using that ew row [of m] by simp
    ultimately show ?thesis
      using run True dp_set_shape [OF shape] by (auto simp: dp)
  qed
qed

subsection \<open>The loops of the dynamic program\<close>

lemma dp_grows_refl:
  "dp_shape nodes dp \<Longrightarrow> dp_sound nodes now n forced k dp \<Longrightarrow> dp_grows nodes now n forced k dp dp"
  by (simp add: dp_grows_def)

lemma dp_grows_trans:
  "dp_grows nodes now n forced k a b \<Longrightarrow> dp_grows nodes now n forced k b c \<Longrightarrow> dp_grows nodes now n forced k a c"
  unfolding dp_grows_def by (metis (no_types, lifting))

lemma relax_state_step:
  assumes wf: "table_wf nodes" and k: "k < length nodes" and s: "s < 2"
    and shape: "dp_shape nodes dp" and sound: "dp_sound nodes now n forced k dp"
  shows "\<exists>dp'. relax_state nodes now n forced k s dp = Some dp' \<and> dp_grows nodes now n forced k dp dp' \<and>
    (\<forall>i < length (nodes ! k). dp_done nodes now n forced \<lparr>eid_node = k, eid_edge = i\<rparr> s dp')"
proof -
  have len: "k < length (fst dp)" "s < length (fst dp ! k)"
    using shape k s by (auto simp: dp_shape_def split: prod.splits)
  show ?thesis
  proof (cases "fst dp ! k ! s = - 1")
    case True
    with len dp_grows_refl [OF shape sound] show ?thesis
      by (simp add: relax_state_def run_simps dp_done_def)
  next
    case False
    let ?f = "relax_edge nodes now n forced k s (fst dp ! k ! s)"
    define I where "I i dp' \<longleftrightarrow> dp_grows nodes now n forced k dp dp' \<and>
        (\<forall>j < i. dp_done nodes now n forced \<lparr>eid_node = k, eid_edge = j\<rparr> s dp')" for i dp'
    have "\<exists>dp'. fold_run ?f [0..<length (nodes ! k)] dp = Some dp' \<and> I (length (nodes ! k)) dp'"
    proof (rule fold_run_upt)
      show "I 0 dp" using dp_grows_refl [OF shape sound] by (simp add: I_def)
    next
      fix i dp1 assume i: "i < length (nodes ! k)" and I: "I i dp1"
      let ?eid = "\<lparr>eid_node = k, eid_edge = i\<rparr>"
      have g: "dp_grows nodes now n forced k dp dp1" using I by (simp add: I_def)
      then have "fst dp1 ! k = fst dp ! k" "dp_shape nodes dp1" "dp_sound nodes now n forced k dp1"
        by (simp_all add: dp_grows_def)
      with relax_edge_step [OF wf, of ?eid s dp1 now n forced] i k s False
      obtain dp' where dp': "?f i dp1 = Some dp'" "dp_grows nodes now n forced k dp1 dp'"
        "dp_done nodes now n forced ?eid s dp'"
        by (auto simp: valid_edge_def dp_grows_def)
      have "\<forall>j < i. dp_done nodes now n forced \<lparr>eid_node = k, eid_edge = j\<rparr> s dp'"
        using I dp'(2) by (auto simp: I_def dp_grows_def)
      with dp' dp_grows_trans [OF g dp'(2)] show "\<exists>dp'. ?f i dp1 = Some dp' \<and> I (Suc i) dp'"
        by (auto simp: I_def less_Suc_eq)
    qed
    with False len k show ?thesis by (auto simp: relax_state_def run_simps I_def)
  qed
qed

lemma relax_node_step:
  assumes wf: "table_wf nodes" and k: "k < length nodes"
    and shape: "dp_shape nodes dp" and sound: "dp_sound nodes now n forced k dp"
  shows "\<exists>dp'. relax_node nodes now n forced k dp = Some dp' \<and> dp_grows nodes now n forced k dp dp' \<and>
    (\<forall>i s. i < length (nodes ! k) \<longrightarrow> s < 2 \<longrightarrow> dp_done nodes now n forced \<lparr>eid_node = k, eid_edge = i\<rparr> s dp')"
proof -
  let ?S = "if forced = None then 1 else 2 :: nat"
  define I where "I t dp' \<longleftrightarrow> dp_grows nodes now n forced k dp dp' \<and>
      (\<forall>i s. i < length (nodes ! k) \<longrightarrow> s < t \<longrightarrow> dp_done nodes now n forced \<lparr>eid_node = k, eid_edge = i\<rparr> s dp')" for t dp'
  have "\<exists>dp'. fold_run (relax_state nodes now n forced k) [0..<?S] dp = Some dp' \<and> I ?S dp'"
  proof (rule fold_run_upt)
    show "I 0 dp" using dp_grows_refl [OF shape sound] by (simp add: I_def)
  next
    fix t dp1 assume t: "t < ?S" and I: "I t dp1"
    have g: "dp_grows nodes now n forced k dp dp1" using I by (simp add: I_def)
    then have "dp_shape nodes dp1" "dp_sound nodes now n forced k dp1" by (simp_all add: dp_grows_def)
    with relax_state_step [OF wf k, of t dp1 now n forced] t
    obtain dp' where dp': "relax_state nodes now n forced k t dp1 = Some dp'"
      "dp_grows nodes now n forced k dp1 dp'"
      "\<forall>i < length (nodes ! k). dp_done nodes now n forced \<lparr>eid_node = k, eid_edge = i\<rparr> t dp'"
      by (auto split: if_splits)
    with I dp_grows_trans [OF g dp'(2)]
    show "\<exists>dp'. relax_state nodes now n forced k t dp1 = Some dp' \<and> I (Suc t) dp'"
      by (auto simp: I_def less_Suc_eq dp_grows_def)
  qed
  then obtain dp' where dp': "relax_node nodes now n forced k dp = Some dp'" "I ?S dp'"
    by (auto simp: relax_node_def)
  have "dp_done nodes now n forced \<lparr>eid_node = k, eid_edge = i\<rparr> s dp'"
    if "i < length (nodes ! k)" "s < 2" for i s
  proof (cases "forced = None \<and> s = 1")
    case True
    then have "fst dp' ! k ! s = - 1" using dp'(2) k by (auto simp: I_def dp_grows_def dp_sound_def)
    then show ?thesis by (simp add: dp_done_def)
  next
    case False
    then have "s < ?S" using that by auto
    with that dp'(2) show ?thesis by (simp add: I_def)
  qed
  with dp' show ?thesis by (auto simp: I_def)
qed

lemma dp_start_ok:
  assumes "nodes \<noteq> []"
  shows "dp_shape nodes (dp_start nodes now)" "dp_sound nodes now n forced 0 (dp_start nodes now)"
proof -
  have "fst (dp_start nodes now) ! m ! u = - 1" if "m < length nodes" "0 < m" "u < 2" for m u
    using that by (auto simp: dp_start_def nth_update_if less_Suc_eq numeral_2_eq_2)
  moreover have "fst (dp_start nodes now) ! 0 = [now * FIXED_ONE, - 1]"
    using assms by (simp add: dp_start_def)
  ultimately show "dp_sound nodes now n forced 0 (dp_start nodes now)"
    unfolding dp_sound_def by (metis One_nat_def nth_Cons_0 nth_Cons_Suc lessI numeral_2_eq_2 neq0_conv)
  show "dp_shape nodes (dp_start nodes now)"
    by (auto simp: dp_shape_def dp_start_def nth_update_if)
qed

lemma dp_loop:
  assumes wf: "table_wf nodes"
  obtains dp where "fold_run (relax_node nodes now n forced) [0..<length nodes - 1] (dp_start nodes now) = Some dp"
    "dp_shape nodes dp" "dp_sound nodes now n forced (length nodes) dp"
    "\<And>eid s. s < 2 \<Longrightarrow> dp_done nodes now n forced eid s dp"
proof -
  have ne: "nodes \<noteq> []" using wf by (simp add: table_wf_def)
  define I where "I k dp \<longleftrightarrow> dp_shape nodes dp \<and> dp_sound nodes now n forced k dp \<and>
      (\<forall>eid s. eid_node eid < k \<longrightarrow> s < 2 \<longrightarrow> dp_done nodes now n forced eid s dp)" for k dp
  have mono: "dp_sound nodes now n forced k dp \<Longrightarrow> k \<le> k' \<Longrightarrow> dp_sound nodes now n forced k' dp" for k k' dp
    unfolding dp_sound_def dp_link_def by (meson order_trans)
  have "\<exists>dp. fold_run (relax_node nodes now n forced) [0..<length nodes - 1] (dp_start nodes now) = Some dp
      \<and> I (length nodes - 1) dp"
  proof (rule fold_run_upt)
    show "I 0 (dp_start nodes now)" using dp_start_ok [OF ne] by (simp add: I_def)
  next
    fix k dp assume k: "k < length nodes - 1" and I: "I k dp"
    from k have k': "k < length nodes" by simp
    from I obtain dp' where dp': "relax_node nodes now n forced k dp = Some dp'" "dp_grows nodes now n forced k dp dp'"
      "\<And>i s. i < length (nodes ! k) \<Longrightarrow> s < 2 \<Longrightarrow> dp_done nodes now n forced \<lparr>eid_node = k, eid_edge = i\<rparr> s dp'"
      using relax_node_step [OF wf k', of dp now n forced] by (auto simp: I_def)
    have "dp_done nodes now n forced eid s dp'" if "eid_node eid < Suc k" "s < 2" for eid s
    proof (cases "eid_node eid < k")
      case True
      with I that dp'(2) show ?thesis by (simp add: I_def dp_grows_def)
    next
      case False
      with that dp'(3) [of "eid_edge eid" s] show ?thesis
        by (cases eid; cases "allowed_edge nodes now eid")
           (auto simp: allowed_edge_def valid_edge_def dp_done_def less_Suc_eq)
    qed
    with dp' mono [of k dp' "Suc k"] show "\<exists>dp'. relax_node nodes now n forced k dp = Some dp' \<and> I (Suc k) dp'"
      by (auto simp: I_def dp_grows_def)
  qed
  then obtain dp where dp: "fold_run (relax_node nodes now n forced) [0..<length nodes - 1] (dp_start nodes now) = Some dp"
    "I (length nodes - 1) dp" by blast
  have "dp_done nodes now n forced eid s dp" if "s < 2" for eid s
  proof (cases "allowed_edge nodes now eid")
    case True
    then have "eid_node eid < length nodes - 1"
      using table_wf_edge [OF wf, of eid] by (auto simp: allowed_edge_def edge_wf_def)
    with dp(2) that show ?thesis by (simp add: I_def)
  qed (simp add: dp_done_def)
  with dp that mono [of "length nodes - 1" dp "length nodes"] show thesis by (simp add: I_def)
qed

subsection \<open>The backward walk\<close>

lemma calculate_path_dp:
  assumes "table_wf nodes"
    and "fold_run (relax_node nodes now n forced) [0..<length nodes - 1] (dp_start nodes now) = Some dp"
    and "dp_shape nodes dp"
  shows "calculate_path nodes now n forced =
    (let s = (if forced = None then 0 else 1) in
     if fst dp ! (length nodes - 1) ! s = - 1 then Some None
     else backtrack (snd dp) (length nodes - 1) s [])"
proof -
  have ne: "0 < length nodes" using assms(1) by (simp add: table_wf_def)
  then have start: "update_run (replicate (length nodes) [- 1, - 1]) 0 (\<lambda>row. row[0 := now * FIXED_ONE]) =
      Some (fst (dp_start nodes now))"
    by (simp add: run_simps dp_start_def)
  have len: "length nodes - 1 < length (fst dp)" "length (fst dp ! (length nodes - 1)) = 2"
    using assms(3) ne by (auto simp: dp_shape_def split: prod.splits)
  have eta: "(fst (dp_start nodes now), replicate (length nodes) [None, None]) = dp_start nodes now"
    by (simp add: dp_start_def)
  show ?thesis
    unfolding calculate_path_def Let_def start Option.bind.simps eta assms(2)
    using len by (simp add: run_simps split_def Let_def)
qed

lemma path_from_snoc:
  "path_from nodes now a (path @ [eid]) b \<longleftrightarrow>
     path_from nodes now a path (eid_node eid) \<and> allowed_edge nodes now eid \<and> edge_next (get_edge nodes eid) = b"
  by (induction path arbitrary: a) auto

lemma path_arrival_snoc:
  "path_arrival nodes n (path @ [eid]) a = edge_cost n (get_edge nodes eid) (path_arrival nodes n path a)"
  by (simp add: path_arrival_def)

lemma path_state_snoc: "path_state forced (path @ [eid]) = next_state forced (path_state forced path) eid"
  by (auto simp: path_state_def next_state_def)

lemma backtrack_path:
  assumes wf: "table_wf nodes" and shape: "dp_shape nodes dp" and sound: "dp_sound nodes now n forced k dp"
    and "m < length nodes" and "s < 2" and "fst dp ! m ! s \<noteq> - 1"
  shows "\<exists>path. (\<forall>acc. backtrack (snd dp) m s acc = Some (Some (path @ rev acc))) \<and>
    path_from nodes now 0 path m \<and> path_state forced path = s \<and>
    path_arrival nodes n path (now * FIXED_ONE) = fst dp ! m ! s"
  using assms(4-6)
proof (induction m arbitrary: s rule: less_induct)
  case (less m)
  show ?case
  proof (cases "m = 0")
    case True
    with less.prems sound have "s = 0" "fst dp ! m ! s = now * FIXED_ONE"
      by (auto simp: dp_sound_def less_Suc_eq numeral_2_eq_2)
    with True show ?thesis
      by (intro exI [of _ "[]"]) (simp add: backtrack.simps path_state_def path_arrival_def)
  next
    case False
    with less.prems sound obtain s0 eid where l: "snd dp ! m ! s = Some (s0, eid)"
      "dp_link nodes now n forced k (fst dp) m s s0 eid"
      unfolding dp_sound_def by blast
    have e: "s0 < 2" "allowed_edge nodes now eid" "edge_next (get_edge nodes eid) = m"
      "s = next_state forced s0 eid" "fst dp ! eid_node eid ! s0 \<noteq> - 1"
      "fst dp ! m ! s = edge_cost n (get_edge nodes eid) (fst dp ! eid_node eid ! s0)"
      using l(2) unfolding dp_link_def by blast+
    then have lt: "eid_node eid < m"
      using table_wf_edge [OF wf, of eid] by (auto simp: allowed_edge_def edge_wf_def)
    with less.IH [of "eid_node eid" s0] e less.prems obtain path where p:
      "\<And>acc. backtrack (snd dp) (eid_node eid) s0 acc = Some (Some (path @ rev acc))"
      "path_from nodes now 0 path (eid_node eid)" "path_state forced path = s0"
      "path_arrival nodes n path (now * FIXED_ONE) = fst dp ! eid_node eid ! s0"
      by auto
    have len: "m < length (snd dp)" "s < length (snd dp ! m)"
      using shape less.prems by (auto simp: dp_shape_def split: prod.splits)
    have "backtrack (snd dp) m s acc = Some (Some ((path @ [eid]) @ rev acc))" for acc
      using False len l(1) p(1) [of "acc @ [eid]"] by (simp add: backtrack.simps [of "snd dp" m] run_simps)
    with p e show ?thesis
      by (intro exI [of _ "path @ [eid]"]) (simp add: path_from_snoc path_arrival_snoc path_state_snoc)
  qed
qed

subsection \<open>Optimality\<close>

lemma path_state_uses: "path_state forced path = (if forced = None then 0 else 1) \<longleftrightarrow> uses_forced forced path"
  by (auto simp: path_state_def uses_forced_def split: option.splits)

lemma unat_u64_max: "unat (- 1 :: u64) = 2 ^ 64 - 1"
  by (simp add: unsigned_minus_1_eq_mask mask_eq_exp_minus_1)

lemma edge_time_bound:
  assumes "times_bounded nodes now n V B" and "valid_edge nodes eid" and "a \<le> V + m * B"
  shows "edge_time n (get_edge nodes eid) a \<le> V + Suc m * B"
proof -
  have "nodes ! eid_node eid \<in> set nodes" "get_edge nodes eid \<in> set (nodes ! eid_node eid)"
    using assms(2) by (auto simp: valid_edge_def get_edge_def)
  then have "unat (virtual_free_at (get_edge nodes eid)) \<le> V"
    "unat (edge_ser (get_edge nodes eid) n) + unat (edge_lat (get_edge nodes eid)) \<le> B"
    using assms(1) by (auto simp: times_bounded_def)
  with assms(3) show ?thesis by (auto simp: edge_time_def)
qed

lemma unat_edge_cost:
  assumes "edge_time n e (unat a) < 2 ^ 64"
  shows "unat (edge_cost n e a) = edge_time n e (unat a)"
proof -
  have m: "unat (max a (virtual_free_at e)) = max (unat a) (unat (virtual_free_at e))"
    by (simp add: max_def word_le_nat_alt)
  then have s: "unat (max a (virtual_free_at e) + edge_ser e n) =
      max (unat a) (unat (virtual_free_at e)) + unat (edge_ser e n)"
    using assms by (subst unat_word_ariths) (simp add: edge_time_def)
  show ?thesis
    unfolding edge_cost_def using assms s by (subst unat_word_ariths) (simp add: edge_time_def)
qed

lemma edge_time_mono: "a \<le> b \<Longrightarrow> edge_time n e a \<le> edge_time n e b"
  by (auto simp: edge_time_def)

lemma path_time_bound:
  assumes wf: "table_wf nodes" and b: "times_bounded nodes now n V B" and "path_from nodes now 0 path m"
  shows "m < length nodes \<and> path_time nodes n path (unat now * 65536) \<le> V + m * B \<and>
    unat (path_arrival nodes n path (now * FIXED_ONE)) = path_time nodes n path (unat now * 65536)"
  using assms(3)
proof (induction path arbitrary: m rule: rev_induct)
  case Nil
  have "unat (now * FIXED_ONE) = unat now * 65536"
    using b by (subst unat_word_ariths) (simp add: FIXED_ONE_val times_bounded_def)
  with Nil b wf show ?case by (auto simp: path_time_def path_arrival_def times_bounded_def table_wf_def)
next
  case (snoc eid path)
  let ?e = "get_edge nodes eid" and ?a = "path_time nodes n path (unat now * 65536)"
  from snoc.prems have p: "path_from nodes now 0 path (eid_node eid)" "valid_edge nodes eid" "edge_next ?e = m"
    by (auto simp: path_from_snoc allowed_edge_def)
  with table_wf_edge [OF wf p(2)] have m: "Suc (eid_node eid) \<le> m" "m < length nodes" by (auto simp: edge_wf_def)
  have IH: "?a \<le> V + eid_node eid * B" "unat (path_arrival nodes n path (now * FIXED_ONE)) = ?a"
    using snoc.IH [OF p(1)] by auto
  have "edge_time n ?e ?a \<le> V + Suc (eid_node eid) * B" by (rule edge_time_bound [OF b p(2) IH(1)])
  also have "\<dots> \<le> V + m * B" using m(1) by (intro add_left_mono mult_right_mono) auto
  finally have t: "edge_time n ?e ?a \<le> V + m * B" .
  moreover have "V + m * B \<le> V + length nodes * B" using m(2) by simp
  ultimately have "edge_time n ?e ?a < 2 ^ 64" using b unfolding times_bounded_def by linarith
  with IH(2) unat_edge_cost [of n ?e "path_arrival nodes n path (now * FIXED_ONE)"] t m(2) show ?case
    by (simp add: path_arrival_snoc) (simp add: path_time_def)
qed

lemma dp_optimal:
  assumes wf: "table_wf nodes" and b: "times_bounded nodes now n V B"
    and sound: "dp_sound nodes now n forced k dp" and dn: "\<And>eid s. s < 2 \<Longrightarrow> dp_done nodes now n forced eid s dp"
    and "path_from nodes now 0 path m"
  shows "unat (fst dp ! m ! path_state forced path) \<le> path_time nodes n path (unat now * 65536)"
  using assms(5)
proof (induction path arbitrary: m rule: rev_induct)
  case Nil
  have "unat (now * FIXED_ONE) = unat now * 65536"
    using b by (subst unat_word_ariths) (simp add: FIXED_ONE_val times_bounded_def)
  with Nil sound show ?case by (simp add: dp_sound_def path_time_def path_state_def)
next
  case (snoc eid path)
  let ?e = "get_edge nodes eid" and ?a = "path_time nodes n path (unat now * 65536)"
    and ?s = "path_state forced path"
  have s: "?s < 2" by (simp add: path_state_def)
  have p: "path_from nodes now 0 path (eid_node eid)" "allowed_edge nodes now eid" "edge_next ?e = m"
    using snoc.prems by (simp_all add: path_from_snoc)
  let ?x = "fst dp ! eid_node eid ! ?s"
  note bound = path_time_bound [OF wf b snoc.prems] path_time_bound [OF wf b p(1)]
  have time: "path_time nodes n (path @ [eid]) (unat now * 65536) = edge_time n ?e ?a" by (simp add: path_time_def)
  have lim: "V + j * B < 2 ^ 64 - 1" if "j < length nodes" for j
    using b that mult_right_mono [of j "length nodes" B] unfolding times_bounded_def by linarith
  have "unat ?x \<le> ?a" by (rule snoc.IH [OF p(1)])
  moreover from this bound(2) lim [of "eid_node eid"] have "unat ?x < 2 ^ 64 - 1" by linarith
  ultimately have x: "unat ?x \<le> ?a" "?x \<noteq> - 1" using unat_u64_max by auto
  have "edge_time n ?e (unat ?x) \<le> edge_time n ?e ?a" by (rule edge_time_mono [OF x(1)])
  moreover have "edge_time n ?e ?a < 2 ^ 64" using bound(1) lim [of m] time by linarith
  ultimately have "unat (edge_cost n ?e ?x) \<le> edge_time n ?e ?a" using unat_edge_cost [of n ?e ?x] by simp
  moreover have "fst dp ! m ! next_state forced ?s eid \<le> edge_cost n ?e ?x"
    using dn [OF s, of eid] p x(2) by (simp add: dp_done_def)
  ultimately show ?case unfolding time path_state_snoc by (simp add: word_le_nat_alt)
qed

lemma dp_optimal_forced:
  assumes "table_wf nodes" and "times_bounded nodes now n V B"
    and "dp_sound nodes now n forced k dp" and "\<And>eid s. s < 2 \<Longrightarrow> dp_done nodes now n forced eid s dp"
    and "path_from nodes now 0 path m" and "uses_forced forced path"
  shows "unat (fst dp ! m ! (if forced = None then 0 else 1)) \<le> path_time nodes n path (unat now * 65536)"
  using dp_optimal [OF assms(1-5)] path_state_uses [THEN iffD2, OF assms(6)] by simp

lemma calculate_path_dp_cases:
  assumes wf: "table_wf nodes"
  obtains (none) dp where "calculate_path nodes now n forced = Some None"
      "fst dp ! (length nodes - 1) ! (if forced = None then 0 else 1) = - 1"
      "dp_sound nodes now n forced (length nodes) dp" "\<And>eid s. s < 2 \<Longrightarrow> dp_done nodes now n forced eid s dp"
  | (path) dp path where "calculate_path nodes now n forced = Some (Some path)"
      "path_from nodes now 0 path (length nodes - 1)" "uses_forced forced path"
      "path_arrival nodes n path (now * FIXED_ONE) = fst dp ! (length nodes - 1) ! (if forced = None then 0 else 1)"
      "dp_sound nodes now n forced (length nodes) dp" "\<And>eid s. s < 2 \<Longrightarrow> dp_done nodes now n forced eid s dp"
proof -
  obtain dp where dp: "fold_run (relax_node nodes now n forced) [0..<length nodes - 1] (dp_start nodes now) = Some dp"
    "dp_shape nodes dp" "dp_sound nodes now n forced (length nodes) dp"
    "\<And>eid s. s < 2 \<Longrightarrow> dp_done nodes now n forced eid s dp"
    by (rule dp_loop [OF wf, of now n forced]) blast
  define s where "s = (if forced = None then 0 else 1 :: nat)"
  have s2: "s < 2" by (simp add: s_def)
  have ne: "length nodes - 1 < length nodes" using wf by (simp add: table_wf_def)
  note calc = calculate_path_dp [OF wf dp(1,2), folded s_def]
  show thesis
  proof (cases "fst dp ! (length nodes - 1) ! s = - 1")
    case True
    with calc none [of dp] dp show thesis by (simp add: s_def)
  next
    case False
    with backtrack_path [OF wf dp(2,3) ne s2] obtain p where p:
      "\<And>acc. backtrack (snd dp) (length nodes - 1) s acc = Some (Some (p @ rev acc))"
      "path_from nodes now 0 p (length nodes - 1)" "path_state forced p = s"
      "path_arrival nodes n p (now * FIXED_ONE) = fst dp ! (length nodes - 1) ! s" by blast
    have "calculate_path nodes now n forced = Some (Some p)"
      using calc False p(1) [of "[]"] by (simp add: Let_def)
    moreover have "uses_forced forced p" using p(3) path_state_uses [of forced p] by (simp add: s_def)
    ultimately show thesis using path [of p dp] p dp(3,4) unfolding s_def by blast
  qed
qed

lemma calculate_path_optimal:
  assumes wf: "table_wf nodes" and b: "times_bounded nodes now n V B"
  shows "\<exists>r. calculate_path nodes now n forced = Some r \<and>
    (case r of
       None \<Rightarrow> \<not> (\<exists>q. path_from nodes now 0 q (length nodes - 1) \<and> uses_forced forced q)
     | Some p \<Rightarrow> path_from nodes now 0 p (length nodes - 1) \<and> uses_forced forced p \<and>
         (\<forall>q. path_from nodes now 0 q (length nodes - 1) \<and> uses_forced forced q \<longrightarrow>
            path_time nodes n p (unat now * 65536) \<le> path_time nodes n q (unat now * 65536)))"
  using wf
proof (cases rule: calculate_path_dp_cases [of nodes now n forced])
  case (none dp)
  have "\<not> (path_from nodes now 0 q (length nodes - 1) \<and> uses_forced forced q)" for q
  proof
    assume q: "path_from nodes now 0 q (length nodes - 1) \<and> uses_forced forced q"
    then have "unat (fst dp ! (length nodes - 1) ! (if forced = None then 0 else 1))
        \<le> path_time nodes n q (unat now * 65536)"
      by (intro dp_optimal_forced [OF wf b none(3,4)]) auto
    moreover have "path_time nodes n q (unat now * 65536) < 2 ^ 64 - 1"
      using path_time_bound [OF wf b, of q "length nodes - 1"] q b
        mult_right_mono [of "length nodes - 1" "length nodes" B]
      unfolding times_bounded_def by linarith
    ultimately show False using none(2) unat_u64_max by simp
  qed
  with none(1) show ?thesis by auto
next
  case (path dp p)
  have "path_time nodes n p (unat now * 65536) \<le> path_time nodes n q (unat now * 65536)"
    if "path_from nodes now 0 q (length nodes - 1)" "uses_forced forced q" for q
    using dp_optimal_forced [OF wf b path(5,6) that] path_time_bound [OF wf b path(2)] path(4) by simp
  with path show ?thesis by auto
qed

subsection \<open>Updates that keep the graph\<close>

lemma eid_eta [simp]: "\<lparr>eid_node = eid_node eid, eid_edge = eid_edge eid\<rparr> = eid"
  by simp

lemma topology_length: "topology nodes = topology nodes' \<Longrightarrow> length nodes = length nodes'"
  unfolding topology_def by (metis length_map)

lemma topology_row:
  "topology nodes = topology nodes' \<Longrightarrow> m < length nodes \<Longrightarrow> map edge_static (nodes ! m) = map edge_static (nodes' ! m)"
  unfolding topology_def by (rule map_eq_nth)

lemma topology_valid: "topology nodes = topology nodes' \<Longrightarrow> valid_edge nodes eid \<longleftrightarrow> valid_edge nodes' eid"
  using topology_length [of nodes nodes'] arg_cong [where f = length, OF topology_row [of nodes nodes' "eid_node eid"]]
  by (auto simp: valid_edge_def)

lemma topology_get:
  assumes "topology nodes = topology nodes'" and "valid_edge nodes eid"
  shows "edge_static (get_edge nodes eid) = edge_static (get_edge nodes' eid)"
proof -
  let ?m = "eid_node eid" and ?i = "eid_edge eid"
  have "map edge_static (nodes ! ?m) = map edge_static (nodes' ! ?m)"
    using assms topology_row by (simp add: valid_edge_def)
  then show ?thesis
    unfolding get_edge_def by (rule map_eq_nth) (use assms(2) in \<open>simp add: valid_edge_def\<close>)
qed

lemma topology_channels: "topology nodes = topology nodes' \<Longrightarrow> channels_distinct nodes \<longleftrightarrow> channels_distinct nodes'"
proof -
  have "map (map channel_id) nodes = map (map fst) (topology nodes)" for nodes
    by (simp add: topology_def edge_static_def comp_def)
  moreover have "channels_distinct nodes \<longleftrightarrow> (\<forall>cs \<in> set (map (map channel_id) nodes). distinct cs)" for nodes
    by (simp add: channels_distinct_def)
  ultimately show "topology nodes = topology nodes' \<Longrightarrow> channels_distinct nodes \<longleftrightarrow> channels_distinct nodes'"
    by simp
qed

lemma update_edge_valid [run_simps]:
  "valid_edge nodes eid \<Longrightarrow> update_edge nodes eid f =
     Some (nodes[eid_node eid := (nodes ! eid_node eid)[eid_edge eid := f (get_edge nodes eid)]])"
  by (simp add: update_edge_def valid_edge_def get_edge_def run_simps)

lemma update_edge_row:
  assumes "valid_edge nodes eid" and "update_edge nodes eid f = Some nodes'"
    and "m < length nodes'" and "e \<in> set (nodes' ! m)"
  shows "e \<in> set (nodes ! m) \<or> m = eid_node eid \<and> e = f (get_edge nodes eid)"
  using assms set_update_subset_insert [of "nodes ! m" "eid_edge eid" "f (get_edge nodes eid)"]
  by (auto simp: run_simps nth_update_if split: if_splits)

lemma update_edge_topology:
  assumes "valid_edge nodes eid" and "update_edge nodes eid f = Some nodes'"
    and "edge_static (f (get_edge nodes eid)) = edge_static (get_edge nodes eid)"
  shows "topology nodes' = topology nodes"
  unfolding topology_def
proof (rule nth_equalityI)
  show len: "length (map (map edge_static) nodes') = length (map (map edge_static) nodes)"
    using assms(1,2) by (auto simp: run_simps)
  fix m assume "m < length (map (map edge_static) nodes')"
  with len assms show "map (map edge_static) nodes' ! m = map (map edge_static) nodes ! m"
    by (auto simp: run_simps nth_update_if valid_edge_def get_edge_def map_update list_update_same_conv)
qed

lemma keeps_edges_refl [simp]: "keeps_edges nodes nodes"
  by (simp add: keeps_edges_def)

lemma keeps_edges_trans: "keeps_edges a b \<Longrightarrow> keeps_edges b c \<Longrightarrow> keeps_edges a c"
  by (auto simp: keeps_edges_def)

lemma update_edge_keeps:
  assumes val: "valid_edge nodes eid"
    and static: "\<And>e. edge_static (f e) = edge_static e"
    and wf: "\<And>n m e. edge_wf n m e \<Longrightarrow> edge_wf n m (f e)"
    and cool: "\<And>e. 0 < eid_node eid \<Longrightarrow> cooldown_until e = 0 \<Longrightarrow> cooldown_until (f e) = 0"
  shows "\<exists>nodes'. update_edge nodes eid f = Some nodes' \<and> keeps_edges nodes nodes'"
proof -
  obtain nodes' where u: "update_edge nodes eid f = Some nodes'" using val by (simp add: run_simps)
  have top: "topology nodes' = topology nodes" by (rule update_edge_topology [OF val u static])
  note len = topology_length [OF top] and row = update_edge_row [OF val u]
  have "table_wf nodes'" if "table_wf nodes"
    unfolding table_wf_def
  proof (intro conjI allI impI ballI)
    show "nodes' \<noteq> []" using that len by (auto simp: table_wf_def)
    fix m e assume "m < length nodes'" "e \<in> set (nodes' ! m)"
    with row [of m e] that len wf table_wf_edge [OF that val] show "edge_wf (length nodes') m e"
      by (auto simp: table_wf_def)
  qed
  moreover have "local_cooldowns nodes'" if "local_cooldowns nodes"
    unfolding local_cooldowns_def
  proof (intro allI impI ballI)
    fix m e assume "m < length nodes'" "0 < m" "e \<in> set (nodes' ! m)"
    with row [of m e] that len val cool show "cooldown_until e = 0"
      by (auto simp: local_cooldowns_def valid_edge_def get_edge_def)
  qed
  ultimately show ?thesis using u top by (auto simp: keeps_edges_def)
qed

lemma reserve_ok:
  assumes "\<And>eid. eid \<in> set path \<Longrightarrow> valid_edge nodes eid"
  shows "\<exists>nodes'. reserve nodes path now n sample = Some nodes' \<and> keeps_edges nodes nodes'"
proof -
  have "\<exists>s'. fold_run (reserve_edge now n sample) path (nodes, now * FIXED_ONE) = Some s' \<and> keeps_edges nodes (fst s')"
  proof (rule fold_run_total)
    show "keeps_edges nodes (fst (nodes, now * FIXED_ONE))" by simp
  next
    fix eid and s :: "edge_table \<times> u64" assume e: "eid \<in> set path" and k: "keeps_edges nodes (fst s)"
    obtain ns cursor where s: "s = (ns, cursor)" by fastforce
    have top: "topology ns = topology nodes" using k by (simp add: s keeps_edges_def)
    have val: "valid_edge ns eid" using assms [OF e] topology_valid [OF top] by simp
    let ?f = "\<lambda>e. e\<lparr>virtual_free_at := max cursor (virtual_free_at (get_edge ns eid)) + edge_ser (get_edge ns eid) n,
        last_sampled := (if sample then Some now else last_sampled e)\<rparr>"
    obtain ns' where "update_edge ns eid ?f = Some ns'" "keeps_edges ns ns'"
      using update_edge_keeps [OF val, of ?f] by (auto simp: edge_static_def edge_wf_def)
    with k s val keeps_edges_trans show "\<exists>s'. reserve_edge now n sample eid s = Some s' \<and> keeps_edges nodes (fst s')"
      by (auto simp: reserve_edge_def serialization_time_valid latency_valid edge_at_valid Let_def)
  qed
  then show ?thesis by (auto simp: reserve_def)
qed

lemma plan_channels_valid:
  "(\<And>eid. eid \<in> set path \<Longrightarrow> valid_edge nodes eid) \<Longrightarrow>
     plan_channels nodes path = Some (map (\<lambda>eid. channel_id (get_edge nodes eid)) path)"
  by (induction path) (auto simp: run_simps)

lemma path_from_valid: "path_from nodes now a path b \<Longrightarrow> eid \<in> set path \<Longrightarrow> valid_edge nodes eid"
  by (induction path arbitrary: a) (auto simp: allowed_edge_def)

lemma build_plan_found:
  assumes "path_from nodes now 0 path m"
  shows "\<exists>nodes'. reserve nodes path now n sample = Some nodes' \<and> keeps_edges nodes nodes' \<and>
    plan_channels nodes' path = Some (map (\<lambda>eid. channel_id (get_edge nodes eid)) path)"
proof -
  note val = path_from_valid [OF assms]
  obtain nodes' where r: "reserve nodes path now n sample = Some nodes'" "keeps_edges nodes nodes'"
    using reserve_ok [OF val] by blast
  then have top: "topology nodes = topology nodes'" by (simp add: keeps_edges_def)
  have "channel_id (get_edge nodes' eid) = channel_id (get_edge nodes eid)" if "eid \<in> set path" for eid
    using topology_get [OF top val [OF that]] by (simp add: edge_static_def)
  then have "plan_channels nodes' path = Some (map (\<lambda>eid. channel_id (get_edge nodes eid)) path)"
    using plan_channels_valid [of path nodes'] val topology_valid [OF top] by simp
  with r show ?thesis by blast
qed

subsection \<open>The edge to sample\<close>

lemma option_less_irrefl: "\<not> option_less a a"
  by (simp add: option_less_def split: option.splits)

lemma option_less_linear_trans: "\<not> option_less a b \<Longrightarrow> option_less c b \<Longrightarrow> \<not> option_less a c"
  by (auto simp: option_less_def split: option.splits)

lemma sample_pick_best:
  "\<exists>b. sample_pick nodes eid selected = Some b \<and> (b = eid \<or> selected = Some b) \<and>
     \<not> option_less (last_sampled (get_edge nodes eid)) (last_sampled (get_edge nodes b)) \<and>
     (\<forall>a c. selected = Some c \<longrightarrow> \<not> option_less a (last_sampled (get_edge nodes c)) \<longrightarrow>
        \<not> option_less a (last_sampled (get_edge nodes b)))"
proof (cases selected)
  case None
  then show ?thesis by (simp add: sample_pick_def option_less_irrefl)
next
  case (Some c)
  show ?thesis
  proof (cases "option_less (last_sampled (get_edge nodes eid)) (last_sampled (get_edge nodes c))")
    case True
    have "\<not> option_less a (last_sampled (get_edge nodes eid))"
      if "\<not> option_less a (last_sampled (get_edge nodes c))" for a
      using option_less_linear_trans [OF that True] .
    with Some True show ?thesis by (simp add: sample_pick_def option_less_irrefl)
  next
    case False
    with Some show ?thesis by (simp add: sample_pick_def)
  qed
qed

lemma sample_inv_visit:
  assumes inv: "sample_inv nodes now seen (reachable, selected)" and al: "allowed_edge nodes now eid"
    and reach: "reachable ! eid_node eid" and seen: "\<And>e. seen e \<Longrightarrow> eid_node e \<le> eid_node eid"
    and ew: "eid_node eid < edge_next (get_edge nodes eid)" "edge_next (get_edge nodes eid) < length nodes"
  shows "sample_inv nodes now (\<lambda>e. seen e \<or> e = eid)
    (reachable[edge_next (get_edge nodes eid) := True], sample_pick nodes eid selected)"
proof -
  let ?q = "edge_next (get_edge nodes eid)"
  let ?r = "reachable[?q := True]"
  have len: "length reachable = length nodes" "reachable ! 0"
    and paths: "\<And>m. m < length nodes \<Longrightarrow> reachable ! m \<Longrightarrow> \<exists>path. path_from nodes now 0 path m"
    and sel: "\<And>e. selected = Some e \<Longrightarrow> allowed_edge nodes now e \<and> reachable ! eid_node e"
    and old: "\<And>e. seen e \<Longrightarrow> allowed_edge nodes now e \<Longrightarrow> reachable ! eid_node e \<Longrightarrow>
        reachable ! edge_next (get_edge nodes e) \<and> (\<exists>best. selected = Some best \<and>
           \<not> option_less (last_sampled (get_edge nodes e)) (last_sampled (get_edge nodes best)))"
    using inv by (simp_all add: sample_inv_def)
  obtain b where b: "sample_pick nodes eid selected = Some b" "b = eid \<or> selected = Some b"
     "\<not> option_less (last_sampled (get_edge nodes eid)) (last_sampled (get_edge nodes b))"
     "\<forall>a c. selected = Some c \<longrightarrow> \<not> option_less a (last_sampled (get_edge nodes c)) \<longrightarrow>
        \<not> option_less a (last_sampled (get_edge nodes b))"
    using sample_pick_best [of nodes eid selected] by (elim exE conjE)
  obtain path where path: "path_from nodes now 0 path (eid_node eid)"
    using paths [OF _ reach] al by (auto simp: allowed_edge_def valid_edge_def)
  have low: "?r ! m = reachable ! m" if "m \<le> eid_node eid" for m using that ew by simp
  have mono: "reachable ! m \<Longrightarrow> ?r ! m" for m by (simp add: nth_update_if)
  have "\<exists>path. path_from nodes now 0 path m" if "m < length nodes" "?r ! m" for m
  proof (cases "m = ?q")
    case True
    have "path_from nodes now 0 (path @ [eid]) m" using path True al by (simp add: path_from_snoc)
    then show ?thesis by blast
  next
    case False
    with that paths show ?thesis by simp
  qed
  moreover have "?r ! edge_next (get_edge nodes e') \<and>
      \<not> option_less (last_sampled (get_edge nodes e')) (last_sampled (get_edge nodes b))"
    if e': "seen e'" "allowed_edge nodes now e'" "?r ! eid_node e'" for e'
  proof -
    have "reachable ! eid_node e'" using e'(3) low [OF seen [OF e'(1)]] by simp
    with old [OF e'(1,2)] obtain best where "selected = Some best" "reachable ! edge_next (get_edge nodes e')"
      "\<not> option_less (last_sampled (get_edge nodes e')) (last_sampled (get_edge nodes best))" by blast
    then show ?thesis using b(4) mono by blast
  qed
  moreover have "?r ! ?q" using ew len by simp
  moreover have "allowed_edge nodes now b \<and> ?r ! eid_node b" using b(2) sel [of b] al reach mono by auto
  ultimately show ?thesis
    unfolding sample_inv_def fst_conv snd_conv b(1) using len b(3) mono [of 0] by auto
qed

lemma sampling_visit_step:
  assumes wf: "table_wf nodes" and val: "valid_edge nodes eid" and inv: "sample_inv nodes now seen st"
    and reach: "fst st ! eid_node eid" and seen: "\<And>e. seen e \<Longrightarrow> eid_node e \<le> eid_node eid"
  shows "\<exists>st'. sampling_visit nodes now (eid_node eid) (eid_edge eid) st = Some st' \<and>
    sample_inv nodes now (\<lambda>e. seen e \<or> e = eid) st' \<and> (\<forall>m \<le> eid_node eid. fst st' ! m = fst st ! m)"
proof (cases "allowed_edge nodes now eid")
  case False
  then have "sampling_visit nodes now (eid_node eid) (eid_edge eid) st = Some st"
    using val by (cases st) (simp add: sampling_visit_def run_simps Let_def)
  moreover have "sample_inv nodes now (\<lambda>e. seen e \<or> e = eid) st"
    using False inv unfolding sample_inv_def by blast
  ultimately show ?thesis by simp
next
  case True
  obtain reachable selected where st: "st = (reachable, selected)" by fastforce
  let ?q = "edge_next (get_edge nodes eid)"
  have ew: "eid_node eid < ?q" "?q < length nodes" using table_wf_edge [OF wf val] by (simp_all add: edge_wf_def)
  have sel: "valid_edge nodes b" if "selected = Some b" for b
    using inv that by (auto simp: sample_inv_def st allowed_edge_def)
  have "?q < length reachable" using inv ew by (simp add: sample_inv_def st)
  then have "sampling_visit nodes now (eid_node eid) (eid_edge eid) st =
      Some (reachable[?q := True], sample_pick nodes eid selected)"
    using True val sel
    by (cases selected) (simp_all add: sampling_visit_def st run_simps Let_def sample_pick_def)
  with sample_inv_visit [of nodes now seen reachable selected eid] inv True reach seen ew show ?thesis
    by (simp add: st)
qed

lemma sampling_node_step:
  assumes wf: "table_wf nodes" and k: "k < length nodes"
    and inv: "sample_inv nodes now (\<lambda>e. eid_node e < k) st"
  shows "\<exists>st'. sampling_node nodes now k st = Some st' \<and> sample_inv nodes now (\<lambda>e. eid_node e < Suc k) st'"
proof (cases "fst st ! k")
  case False
  then have "sample_inv nodes now (\<lambda>e. eid_node e < Suc k) st"
    using inv unfolding sample_inv_def less_Suc_eq by blast
  moreover have "sampling_node nodes now k st = Some st"
    using False k inv by (simp add: sampling_node_def sample_inv_def run_simps)
  ultimately show ?thesis by blast
next
  case True
  define I where "I i st' \<longleftrightarrow> sample_inv nodes now (\<lambda>e. eid_node e < k \<or> eid_node e = k \<and> eid_edge e < i) st' \<and>
      fst st' ! k" for i st'
  have "\<exists>st'. fold_run (sampling_visit nodes now k) [0..<length (nodes ! k)] st = Some st' \<and> I (length (nodes ! k)) st'"
  proof (rule fold_run_upt)
    show "I 0 st" using inv True by (simp add: I_def)
  next
    fix i st1 assume i: "i < length (nodes ! k)" and I: "I i st1"
    let ?eid = "\<lparr>eid_node = k, eid_edge = i\<rparr>"
    have eq: "(\<lambda>e. (eid_node e < k \<or> eid_node e = k \<and> eid_edge e < i) \<or> e = ?eid) =
        (\<lambda>e. eid_node e < k \<or> eid_node e = k \<and> eid_edge e < Suc i)"
    proof
      fix e :: EdgeId show "((eid_node e < k \<or> eid_node e = k \<and> eid_edge e < i) \<or> e = ?eid) =
        (eid_node e < k \<or> eid_node e = k \<and> eid_edge e < Suc i)" by (cases e) auto
    qed
    have "valid_edge nodes ?eid" "fst st1 ! eid_node ?eid"
      "sample_inv nodes now (\<lambda>e. eid_node e < k \<or> eid_node e = k \<and> eid_edge e < i) st1"
      using i k I by (simp_all add: I_def valid_edge_def)
    from sampling_visit_step [OF wf this(1,3,2)] obtain st' where
      "sampling_visit nodes now k i st1 = Some st'" "fst st' ! k = fst st1 ! k"
      "sample_inv nodes now (\<lambda>e. eid_node e < k \<or> eid_node e = k \<and> eid_edge e < Suc i) st'"
      unfolding eq by fastforce
    with I show "\<exists>st'. sampling_visit nodes now k i st1 = Some st' \<and> I (Suc i) st'" by (simp add: I_def)
  qed
  then obtain st' where st': "sampling_node nodes now k st = Some st'"
    "sample_inv nodes now (\<lambda>e. eid_node e < k \<or> eid_node e = k \<and> eid_edge e < length (nodes ! k)) st'"
    using True k inv by (auto simp: sampling_node_def run_simps I_def sample_inv_def)
  have "sample_inv nodes now (\<lambda>e. eid_node e < Suc k) st'"
    using st'(2) unfolding sample_inv_def less_Suc_eq by (metis allowed_edge_def valid_edge_def)
  with st'(1) show ?thesis by blast
qed

lemma sample_inv_reachable:
  assumes wf: "table_wf nodes" and inv: "sample_inv nodes now (\<lambda>e. eid_node e < length nodes) st"
    and "path_from nodes now 0 path m"
  shows "fst st ! m"
  using assms(3)
proof (induction path arbitrary: m rule: rev_induct)
  case Nil
  with inv show ?case by (simp add: sample_inv_def)
next
  case (snoc eid path)
  then have p: "fst st ! eid_node eid" "allowed_edge nodes now eid" "edge_next (get_edge nodes eid) = m"
    by (auto simp: path_from_snoc)
  then have "eid_node eid < length nodes" by (simp add: allowed_edge_def valid_edge_def)
  with p inv show ?case by (auto simp: sample_inv_def)
qed

lemma sampling_edge_spec:
  assumes wf: "table_wf nodes"
  shows "\<exists>selected. sampling_edge nodes now = Some selected \<and>
    (case selected of
       None \<Rightarrow> \<not> (\<exists>eid. reachable_edge nodes now eid)
     | Some best \<Rightarrow> reachable_edge nodes now best \<and>
         (\<forall>eid. reachable_edge nodes now eid \<longrightarrow>
            \<not> option_less (last_sampled (get_edge nodes eid)) (last_sampled (get_edge nodes best))))"
proof -
  have ne: "nodes \<noteq> []" using wf by (simp add: table_wf_def)
  let ?start = "((replicate (length nodes) False)[0 := True], None :: EdgeId option)"
  have start: "sample_inv nodes now (\<lambda>e. eid_node e < 0) ?start"
    using ne by (auto simp: sample_inv_def nth_update_if intro: exI [of _ "[]"] split: if_splits)
  have "\<exists>st. fold_run (sampling_node nodes now) [0..<length nodes - 1] ?start = Some st \<and>
      sample_inv nodes now (\<lambda>e. eid_node e < length nodes - 1) st"
    using start sampling_node_step [OF wf] by (intro fold_run_upt) auto
  then obtain st where st: "fold_run (sampling_node nodes now) [0..<length nodes - 1] ?start = Some st"
    "sample_inv nodes now (\<lambda>e. eid_node e < length nodes - 1) st" by blast
  have "eid_node e < length nodes - 1" if "allowed_edge nodes now e" for e
    using that table_wf_edge [OF wf, of e] by (auto simp: allowed_edge_def edge_wf_def)
  then have inv: "sample_inv nodes now (\<lambda>e. eid_node e < length nodes) st"
    using st(2) unfolding sample_inv_def by blast
  have run: "sampling_edge nodes now = Some (snd st)"
    using ne st(1) by (simp add: sampling_edge_def run_simps split_def)
  have reach: "reachable_edge nodes now eid \<Longrightarrow> fst st ! eid_node eid \<and> allowed_edge nodes now eid" for eid
    using sample_inv_reachable [OF wf inv] by (auto simp: reachable_edge_def)
  have best: "reachable_edge nodes now b" if "snd st = Some b" for b
    using that inv by (auto simp: sample_inv_def reachable_edge_def allowed_edge_def valid_edge_def)
  have all: "\<exists>b. snd st = Some b \<and> \<not> option_less (last_sampled (get_edge nodes eid)) (last_sampled (get_edge nodes b))"
    if "reachable_edge nodes now eid" for eid
    using reach [OF that] inv unfolding sample_inv_def
    by (auto simp: allowed_edge_def valid_edge_def)
  show ?thesis
    using run best all by (auto split: option.splits)
qed

subsection \<open>Every operation keeps the table well-formed\<close>

lemma loss_up_bound:
  assumes "(l :: u32) \<le> 65535" and "1 < d"
  shows "l + (65535 - l) div d \<le> 65535"
proof -
  have l: "unat l \<le> 65535" using assms(1) by (simp add: word_le_nat_alt)
  have s: "unat (65535 - l) = 65535 - unat l" using assms(1) by (simp add: unat_sub)
  have "unat ((65535 - l) div d) \<le> 65535 - unat l" by (simp add: unat_div s)
  with l show ?thesis by (simp add: word_le_nat_alt unat_word_ariths)
qed

lemma loss_down_bound:
  assumes "(l :: u32) \<le> 65535"
  shows "l * 3 div 4 \<le> 65535"
proof -
  have l: "unat l \<le> 65535" using assms by (simp add: word_le_nat_alt)
  then have "unat (l * 3) = unat l * 3" by (simp add: unat_word_ariths)
  then have "unat (l * 3 div 4) = unat l * 3 div 4" by (simp add: unat_div)
  with l show ?thesis by (simp add: word_le_nat_alt)
qed

lemma retry_double_bound:
  assumes "(50 :: u64) \<le> r" and "r \<le> 200"
  shows "50 \<le> min (r * 2) 200" and "min (r * 2) 200 \<le> 200"
proof -
  have r: "50 \<le> unat r" "unat r \<le> 200" using assms by (simp_all add: word_le_nat_alt)
  then have "unat (r * 2) = unat r * 2" by (simp add: unat_word_ariths)
  with r show "50 \<le> min (r * 2) 200" by (simp add: min_def word_le_nat_alt)
qed simp

lemma keeps_planner_new:
  assumes "graph_ordered (rcf_graph config)"
  shows "table_wf (planner_nodes (planner_new config))" "local_cooldowns (planner_nodes (planner_new config))"
  using assms
  by (auto simp: planner_new_def table_wf_def graph_ordered_def edge_wf_def edge_new_def local_cooldowns_def)

lemma note_local_send_failure_keeps:
  assumes "note_local_send_failure p ch now = Some p'"
  shows "keeps_edges (planner_nodes p) (planner_nodes p')"
proof -
  let ?nodes = "planner_nodes p"
  from assms obtain es edge where e: "index_run ?nodes 0 = Some es" "position (\<lambda>e. channel_id e = ch) es = Some edge"
    by (auto simp: note_local_send_failure_def Let_def split: Option.bind_splits)
  let ?eid = "\<lparr>eid_node = 0, eid_edge = edge\<rparr>"
  have val: "valid_edge ?nodes ?eid"
    using e position_SomeD [OF e(2)] by (auto simp: valid_edge_def index_run_Some_iff)
  let ?f = "\<lambda>e. let e1 = (if (case last_observation_at e of None \<Rightarrow> True | Some prev \<Rightarrow> prev \<le> now)
                 then e\<lparr>loss := loss e + (LOSS_ONE - loss e) div 2, last_observation_at := Some now\<rparr>
                 else e)
       in e1\<lparr>cooldown_until := now + retry_delay_ms e1,
             retry_delay_ms := min (retry_delay_ms e1 * 2) LOCAL_COOLDOWN_MAX_MS\<rparr>"
  have "edge_wf n m (?f e)" if "edge_wf n m e" for n m e
    using that loss_up_bound [of "loss e" 2] retry_double_bound [of "retry_delay_ms e"]
    by (simp add: edge_wf_def Let_def)
  moreover have "edge_static (?f e) = edge_static e" for e by (simp add: edge_static_def Let_def)
  ultimately obtain nodes' where "update_edge ?nodes ?eid ?f = Some nodes'" "keeps_edges ?nodes nodes'"
    using update_edge_keeps [OF val, of ?f] by auto
  with assms e show ?thesis by (auto simp: note_local_send_failure_def Let_def)
qed

lemma feedback_hop_keeps:
  assumes "feedback_hop t success ch st = Some st'"
    and "\<forall>eid. fb_first st = Some eid \<longrightarrow> valid_edge (fb_nodes st) eid"
  shows "keeps_edges (fb_nodes st) (fb_nodes st') \<and> (\<forall>eid. fb_first st' = Some eid \<longrightarrow> valid_edge (fb_nodes st') eid)"
proof -
  from assms(1) obtain es edge where e: "index_run (fb_nodes st) (fb_node st) = Some es"
    "position (\<lambda>e. channel_id e = ch) es = Some edge"
    by (auto simp: feedback_hop_def split: Option.bind_splits)
  let ?eid = "\<lparr>eid_node = fb_node st, eid_edge = edge\<rparr>"
  have val: "valid_edge (fb_nodes st) ?eid"
    using e position_SomeD [OF e(2)] by (auto simp: valid_edge_def index_run_Some_iff)
  let ?f = "\<lambda>e. e\<lparr>loss := (if success then loss e * 3 div 4 else loss e + (LOSS_ONE - loss e) div 16),
          last_observation_at := Some t\<rparr>"
  have wf: "edge_wf n m (?f e)" if "edge_wf n m e" for n m e
    using that loss_up_bound [of "loss e" 16] loss_down_bound [of "loss e"] by (simp add: edge_wf_def)
  have "\<exists>nodes'. update_edge (fb_nodes st) ?eid ?f = Some nodes' \<and> keeps_edges (fb_nodes st) nodes'"
    by (rule update_edge_keeps [OF val _ wf]) (simp_all add: edge_static_def)
  then obtain nodes' where n: "update_edge (fb_nodes st) ?eid ?f = Some nodes'" "keeps_edges (fb_nodes st) nodes'"
    by blast
  then have v: "valid_edge nodes' eid = valid_edge (fb_nodes st) eid" for eid
    using topology_valid [of nodes' "fb_nodes st" eid] by (simp add: keeps_edges_def)
  have "(fb_nodes st' = fb_nodes st \<or> fb_nodes st' = nodes') \<and>
      fb_first st' = (if fb_first st = None then Some ?eid else fb_first st)"
    using assms(1) e val n(1) unfolding feedback_hop_def Let_def
    by (simp add: edge_at_valid split: if_splits) (auto split: if_splits)
  with v val n(2) assms(2) show ?thesis by (auto split: if_splits)
qed

lemma note_feedback_keeps:
  assumes "note_feedback p plan t success = Some p'"
  shows "keeps_edges (planner_nodes p) (planner_nodes p')"
proof -
  let ?st0 = "\<lparr>fb_nodes = planner_nodes p, fb_node = 0, fb_first = None, fb_accepted_first = False\<rparr>"
  from assms obtain st where st: "fold_run (feedback_hop t success) plan ?st0 = Some st"
    by (auto simp: note_feedback_def split: Option.bind_splits)
  have inv: "keeps_edges (planner_nodes p) (fb_nodes st) \<and> (\<forall>eid. fb_first st = Some eid \<longrightarrow> valid_edge (fb_nodes st) eid)"
  proof (rule fold_run_inv [OF st])
    fix ch s s' assume "keeps_edges (planner_nodes p) (fb_nodes s) \<and> (\<forall>eid. fb_first s = Some eid \<longrightarrow> valid_edge (fb_nodes s) eid)"
      and "feedback_hop t success ch s = Some s'"
    then show "keeps_edges (planner_nodes p) (fb_nodes s') \<and> (\<forall>eid. fb_first s' = Some eid \<longrightarrow> valid_edge (fb_nodes s') eid)"
      using feedback_hop_keeps keeps_edges_trans by blast
  qed simp
  let ?f = "\<lambda>e. e\<lparr>cooldown_until := 0, retry_delay_ms := LOCAL_COOLDOWN_INITIAL_MS\<rparr>"
  have "\<exists>nodes'. update_edge (fb_nodes st) eid ?f = Some nodes' \<and> keeps_edges (fb_nodes st) nodes'"
    if "fb_first st = Some eid" for eid
    using inv that by (intro update_edge_keeps) (auto simp: edge_static_def edge_wf_def)
  with assms st inv keeps_edges_trans show ?thesis
    by (fastforce simp: note_feedback_def split: if_splits Option.bind_splits)
qed

lemma build_route_plan_ok:
  assumes "table_wf (planner_nodes p)"
  shows "\<exists>r p'. build_route_plan p now n sample = Some (r, p') \<and>
    keeps_edges (planner_nodes p) (planner_nodes p') \<and>
    (\<forall>plan. r = Some plan \<longrightarrow> (\<exists>path. plan = map (\<lambda>eid. channel_id (get_edge (planner_nodes p) eid)) path \<and>
        path_from (planner_nodes p) now 0 path (length (planner_nodes p) - 1)))"
proof -
  let ?nodes = "planner_nodes p"
  obtain selected where s: "sampling_edge ?nodes now = Some selected"
    using sampling_edge_spec [OF assms] by blast
  define forced where "forced = (if sample then selected else None)"
  obtain found where f: "calculate_path ?nodes now n forced = Some found"
    "\<And>path. found = Some path \<Longrightarrow> path_from ?nodes now 0 path (length ?nodes - 1)"
    using assms by (cases rule: calculate_path_dp_cases [of ?nodes now n forced]) auto
  show ?thesis
  proof (cases "sample \<and> selected = None \<or> found = None")
    case True
    with s f show ?thesis by (cases sample) (auto simp: build_route_plan_def forced_def Let_def)
  next
    case False
    then obtain path where path: "found = Some path" by blast
    from build_plan_found [OF f(2) [OF path], of n sample] obtain nodes' where
      "reserve ?nodes path now n sample = Some nodes'" "keeps_edges ?nodes nodes'"
      "plan_channels nodes' path = Some (map (\<lambda>eid. channel_id (get_edge ?nodes eid)) path)" by blast
    with False path s f show ?thesis by (cases sample) (auto simp: build_route_plan_def forced_def Let_def)
  qed
qed

lemma planner_reach_keeps:
  assumes "graph_ordered (rcf_graph config)" and "planner_reach config p"
  shows "keeps_edges (planner_nodes (planner_new config)) (planner_nodes p) \<and> table_wf (planner_nodes p)"
  using assms(2)
proof induction
  case planner_start
  then show ?case using keeps_planner_new [OF assms(1)] by simp
next
  case (planner_plan p now n sample r p')
  then have "keeps_edges (planner_nodes p) (planner_nodes p')"
    using build_route_plan_ok [of p now n sample] by auto
  with planner_plan.IH show ?case using keeps_edges_trans by (auto simp: keeps_edges_def)
next
  case (planner_failure p ch now p')
  with note_local_send_failure_keeps show ?case using keeps_edges_trans by (fastforce simp: keeps_edges_def)
next
  case (planner_feedback p plan t success p')
  with note_feedback_keeps show ?case using keeps_edges_trans by (fastforce simp: keeps_edges_def)
qed

subsection \<open>Availability\<close>

lemma path_from_append:
  "path_from nodes now a p b \<Longrightarrow> path_from nodes now b q c \<Longrightarrow> path_from nodes now a (p @ q) c"
  by (induction p arbitrary: a) auto

lemma path_to_destination:
  assumes "table_wf nodes" and "local_cooldowns nodes" and "single_sink nodes"
    and "0 < m" and "m < length nodes"
  shows "\<exists>q. path_from nodes now m q (length nodes - 1)"
  using assms(4,5)
proof (induction "length nodes - m" arbitrary: m rule: less_induct)
  case less
  show ?case
  proof (cases "m = length nodes - 1")
    case True
    then show ?thesis by (intro exI [of _ "[]"]) simp
  next
    case False
    let ?eid = "\<lparr>eid_node = m, eid_edge = 0\<rparr>"
    have val: "valid_edge nodes ?eid" using assms(3) less.prems False by (simp add: single_sink_def valid_edge_def)
    then have "get_edge nodes ?eid \<in> set (nodes ! m)" by (simp add: get_edge_def valid_edge_def)
    then have al: "allowed_edge nodes now ?eid" using assms(2) less.prems val
      by (simp add: local_cooldowns_def allowed_edge_def)
    have ew: "m < edge_next (get_edge nodes ?eid)" "edge_next (get_edge nodes ?eid) < length nodes"
      using table_wf_edge [OF assms(1) val] by (simp_all add: edge_wf_def)
    then obtain q where "path_from nodes now (edge_next (get_edge nodes ?eid)) q (length nodes - 1)"
      using less.hyps [OF diff_less_mono2 [OF ew(1)]] less.prems by force
    with al show ?thesis by (intro exI [of _ "?eid # q"]) simp
  qed
qed

lemma path_through_edge:
  assumes "table_wf nodes" and "local_cooldowns nodes" and "single_sink nodes"
    and "reachable_edge nodes now eid"
  shows "\<exists>q. path_from nodes now 0 q (length nodes - 1) \<and> eid \<in> set q"
proof -
  from assms(4) obtain p where p: "path_from nodes now 0 p (eid_node eid)" "allowed_edge nodes now eid"
    by (auto simp: reachable_edge_def)
  have "edge_wf (length nodes) (eid_node eid) (get_edge nodes eid)"
    using p(2) table_wf_edge [OF assms(1)] by (simp add: allowed_edge_def)
  then obtain q where "path_from nodes now (edge_next (get_edge nodes eid)) q (length nodes - 1)"
    using path_to_destination [OF assms(1-3), of "edge_next (get_edge nodes eid)"] by (auto simp: edge_wf_def)
  with p path_from_append [of nodes now 0 p "eid_node eid" "eid # q"] show ?thesis
    by (intro exI [of _ "p @ eid # q"]) auto
qed

lemma local_edge_free_reachable:
  assumes "nodes \<noteq> []" and "local_edge_free nodes now"
  shows "\<exists>eid. reachable_edge nodes now eid"
proof -
  from assms(2) obtain i where i: "i < length (nodes ! 0)" "cooldown_until (nodes ! 0 ! i) \<le> now"
    unfolding local_edge_free_def by (metis in_set_conv_nth)
  have "\<exists>path. path_from nodes now 0 path 0" by (rule exI [of _ "[]"]) simp
  with i assms(1) show ?thesis
    by (intro exI [of _ "\<lparr>eid_node = 0, eid_edge = i\<rparr>"])
       (simp add: reachable_edge_def allowed_edge_def valid_edge_def get_edge_def)
qed

lemma path_needs_local_edge:
  assumes "path_from nodes now 0 q m" and "0 < m"
  shows "local_edge_free nodes now"
  using assms
  by (cases q) (auto simp: local_edge_free_def allowed_edge_def valid_edge_def get_edge_def)

lemma build_route_plan_available:
  assumes wf: "table_wf (planner_nodes p)" and cool: "local_cooldowns (planner_nodes p)"
    and sink: "single_sink (planner_nodes p)" and two: "2 \<le> length (planner_nodes p)"
    and b: "times_bounded (planner_nodes p) now n V B"
  shows "\<exists>r p'. build_route_plan p now n sample = Some (r, p') \<and>
    (r = None \<longleftrightarrow> \<not> local_edge_free (planner_nodes p) now)"
proof -
  let ?nodes = "planner_nodes p" and ?dest = "length (planner_nodes p) - 1"
  have ne: "?nodes \<noteq> []" "0 < ?dest" using two by auto
  obtain selected where s: "sampling_edge ?nodes now = Some selected"
    "selected = None \<longleftrightarrow> \<not> (\<exists>eid. reachable_edge ?nodes now eid)"
    "\<And>e. selected = Some e \<Longrightarrow> reachable_edge ?nodes now e"
    using sampling_edge_spec [OF wf, of now] by (auto split: option.splits)
  define forced where "forced = (if sample then selected else None)"
  obtain found where f: "calculate_path ?nodes now n forced = Some found"
    "found = None \<longleftrightarrow> \<not> (\<exists>q. path_from ?nodes now 0 q ?dest \<and> uses_forced forced q)"
    "\<And>path. found = Some path \<Longrightarrow> path_from ?nodes now 0 path ?dest"
  proof -
    from calculate_path_optimal [OF wf b, of forced] obtain found where
      "calculate_path ?nodes now n forced = Some found" and c: "case found of
         None \<Rightarrow> \<not> (\<exists>q. path_from ?nodes now 0 q ?dest \<and> uses_forced forced q)
       | Some p \<Rightarrow> path_from ?nodes now 0 p ?dest \<and> uses_forced forced p \<and>
           (\<forall>q. path_from ?nodes now 0 q ?dest \<and> uses_forced forced q \<longrightarrow>
              path_time ?nodes n p (unat now * 65536) \<le> path_time ?nodes n q (unat now * 65536))" by blast
    with that [of found] show thesis by (cases found) auto
  qed
  obtain r p' where run: "build_route_plan p now n sample = Some (r, p')"
    using build_route_plan_ok [OF wf] by blast
  have r: "r = None \<longleftrightarrow> (sample \<and> selected = None) \<or> found = None"
    using run s(1) f(1) by (cases sample; cases found)
      (auto simp: build_route_plan_def forced_def Let_def split: if_splits Option.bind_splits dest: sym)
  have "r \<noteq> None" if free: "local_edge_free ?nodes now"
  proof -
    obtain eid where eid: "reachable_edge ?nodes now eid" using local_edge_free_reachable [OF ne(1) free] by blast
    then obtain best where best: "selected = Some best" using s(2) by auto
    have "\<exists>q. path_from ?nodes now 0 q ?dest \<and> uses_forced forced q"
      using path_through_edge [OF wf cool sink s(3) [OF best]] best
      by (auto simp: forced_def uses_forced_def)
    then show ?thesis using r f(2) best by simp
  qed
  moreover have "r = None" if "\<not> local_edge_free ?nodes now"
    using that path_needs_local_edge [OF f(3) ne(2)] r by auto
  ultimately show ?thesis using run by blast
qed

subsection \<open>Feedback\<close>

lemma position_distinct:
  "distinct (map f xs) \<Longrightarrow> i < length xs \<Longrightarrow> position (\<lambda>x. f x = f (xs ! i)) xs = Some i"
proof (induction xs arbitrary: i)
  case (Cons x xs)
  then show ?case by (cases i) (auto dest: nth_mem)
qed simp

lemma feedback_hop_path:
  assumes val: "valid_edge nodes eid" and dist: "channels_distinct nodes"
    and top: "topology (fb_nodes st) = topology nodes" and node: "fb_node st = eid_node eid"
    and firstok: "\<forall>e. fb_first st = Some e \<longrightarrow> valid_edge (fb_nodes st) e"
  shows "\<exists>st'. feedback_hop t success (channel_id (get_edge nodes eid)) st = Some st' \<and>
    topology (fb_nodes st') = topology nodes \<and> fb_node st' = edge_next (get_edge nodes eid) \<and>
    fb_first st' \<noteq> None \<and> (\<forall>e. fb_first st' = Some e \<longrightarrow> valid_edge (fb_nodes st') e)"
proof -
  let ?n = "fb_nodes st"
  have val': "valid_edge ?n eid" using val topology_valid [OF top, of eid] by simp
  then have i: "eid_node eid < length ?n" "eid_edge eid < length (?n ! eid_node eid)" by (simp_all add: valid_edge_def)
  have static: "edge_static (get_edge ?n eid) = edge_static (get_edge nodes eid)" by (rule topology_get [OF top val'])
  have "distinct (map channel_id (?n ! eid_node eid))"
    using topology_channels [OF top] dist i by (auto simp: channels_distinct_def)
  from position_distinct [OF this i(2)]
  have pos: "position (\<lambda>e. channel_id e = channel_id (get_edge nodes eid)) (?n ! eid_node eid) = Some (eid_edge eid)"
    using static by (simp add: get_edge_def edge_static_def)
  have "\<exists>st'. feedback_hop t success (channel_id (get_edge nodes eid)) st = Some st' \<and>
      fb_node st' = edge_next (get_edge nodes eid) \<and> fb_first st' \<noteq> None"
    using i pos val' static unfolding feedback_hop_def node
    by (simp add: run_simps Let_def edge_static_def)
  then obtain st' where st': "feedback_hop t success (channel_id (get_edge nodes eid)) st = Some st'"
      "fb_node st' = edge_next (get_edge nodes eid)" "fb_first st' \<noteq> None" by blast
  with feedback_hop_keeps [OF st'(1) firstok] top show ?thesis by (auto simp: keeps_edges_def)
qed

lemma feedback_path:
  assumes dist: "channels_distinct nodes" and "path_from nodes now a path b"
    and "topology (fb_nodes st) = topology nodes" and "fb_node st = a"
    and "\<forall>e. fb_first st = Some e \<longrightarrow> valid_edge (fb_nodes st) e"
    and "fb_accepted_first st \<longrightarrow> fb_first st \<noteq> None"
  shows "\<exists>st'. fold_run (feedback_hop t success) (map (\<lambda>eid. channel_id (get_edge nodes eid)) path) st = Some st' \<and>
    (\<forall>e. fb_first st' = Some e \<longrightarrow> valid_edge (fb_nodes st') e) \<and> (fb_accepted_first st' \<longrightarrow> fb_first st' \<noteq> None)"
  using assms(2-6)
proof (induction path arbitrary: a st)
  case (Cons eid path)
  then have val: "valid_edge nodes eid" and node: "fb_node st = eid_node eid" by (auto simp: allowed_edge_def)
  obtain st1 where st1: "feedback_hop t success (channel_id (get_edge nodes eid)) st = Some st1"
    "topology (fb_nodes st1) = topology nodes" "fb_node st1 = edge_next (get_edge nodes eid)"
    "fb_first st1 \<noteq> None" "\<forall>e. fb_first st1 = Some e \<longrightarrow> valid_edge (fb_nodes st1) e"
    using feedback_hop_path [OF val dist Cons.prems(2) node Cons.prems(4)] by blast
  from Cons.prems(1) have "path_from nodes now (edge_next (get_edge nodes eid)) path b" by simp
  from Cons.IH [OF this st1(2,3,5)] st1 show ?case by auto
qed simp

lemma note_feedback_returns:
  assumes "channels_distinct nodes" and "path_from nodes now 0 path m"
    and "topology (planner_nodes p) = topology nodes"
  shows "\<exists>p'. note_feedback p (map (\<lambda>eid. channel_id (get_edge nodes eid)) path) t success = Some p'"
proof -
  obtain st where st: "fold_run (feedback_hop t success) (map (\<lambda>eid. channel_id (get_edge nodes eid)) path)
      \<lparr>fb_nodes = planner_nodes p, fb_node = 0, fb_first = None, fb_accepted_first = False\<rparr> = Some st"
    "\<forall>e. fb_first st = Some e \<longrightarrow> valid_edge (fb_nodes st) e" "fb_accepted_first st \<longrightarrow> fb_first st \<noteq> None"
    using feedback_path [OF assms(1,2), of "\<lparr>fb_nodes = planner_nodes p, fb_node = 0, fb_first = None, fb_accepted_first = False\<rparr>" t success]
      assms(3) by auto
  show ?thesis
  proof (cases "success \<and> fb_accepted_first st")
    case True
    with st obtain e where "fb_first st = Some e" "valid_edge (fb_nodes st) e" by auto
    with st True show ?thesis by (simp add: note_feedback_def run_simps)
  next
    case False
    with st show ?thesis by (auto simp: note_feedback_def)
  qed
qed

subsection \<open>A small graph\<close>

lemmas diamond_simps = diamond_config_def planner_new_def edge_new_def less_Suc_eq

lemma diamond_ordered: "graph_ordered (rcf_graph diamond_config)"
  by (auto simp: graph_ordered_def diamond_simps)

lemma diamond_bounded: "times_bounded (planner_nodes (planner_new diamond_config)) 7 1000 (2 ^ 30) (2 ^ 30)"
  by (simp add: times_bounded_def diamond_simps edge_ser_def edge_lat_def FIXED_ONE_val Let_def)

lemma diamond_sink: "single_sink (planner_nodes (planner_new diamond_config))"
  unfolding single_sink_def by (simp add: diamond_simps numeral_2_eq_2)

lemma diamond_distinct: "channels_distinct (planner_nodes (planner_new diamond_config))"
  by (simp add: channels_distinct_def diamond_config_def planner_new_def edge_new_def)

lemma planner_reach_static:
  assumes "graph_ordered (rcf_graph config)" and "planner_reach config p"
  shows "table_wf (planner_nodes p)" "local_cooldowns (planner_nodes p)"
    "topology (planner_nodes p) = topology (planner_nodes (planner_new config))"
  using planner_reach_keeps [OF assms] keeps_planner_new [OF assms(1)] by (simp_all add: keeps_edges_def)

subsection \<open>Properties\<close>

text \<open>C33.  Earliest arrival: on a well-formed table whose times do not overflow, \<open>calculate_path\<close>
  returns; the path it finds leads from node 0 to the last node over edges out of cooldown, uses
  the forced edge, and arrives no later than any other such path; it finds none only if there is
  none.\<close>

theorem calculate_path_earliest_arrival:
  assumes "table_wf nodes" and "times_bounded nodes now n V B"
  shows "\<exists>r. calculate_path nodes now n forced = Some r \<and>
    (case r of
       None \<Rightarrow> \<not> (\<exists>q. path_from nodes now 0 q (length nodes - 1) \<and> uses_forced forced q)
     | Some p \<Rightarrow> path_from nodes now 0 p (length nodes - 1) \<and> uses_forced forced p \<and>
         (\<forall>q. path_from nodes now 0 q (length nodes - 1) \<and> uses_forced forced q \<longrightarrow>
            path_time nodes n p (unat now * 65536) \<le> path_time nodes n q (unat now * 65536)))"
  using assms by (rule calculate_path_optimal)

theorem calculate_path_earliest_arrival_witness:
  "let nodes = planner_nodes (planner_new diamond_config); forced = Some \<lparr>eid_node = 1, eid_edge = 0\<rparr>
   in \<exists>r. calculate_path nodes 7 1000 forced = Some r \<and>
    (case r of
       None \<Rightarrow> \<not> (\<exists>q. path_from nodes 7 0 q (length nodes - 1) \<and> uses_forced forced q)
     | Some p \<Rightarrow> path_from nodes 7 0 p (length nodes - 1) \<and> uses_forced forced p \<and>
         (\<forall>q. path_from nodes 7 0 q (length nodes - 1) \<and> uses_forced forced q \<longrightarrow>
            path_time nodes 1000 p (unat (7 :: u64) * 65536) \<le> path_time nodes 1000 q (unat (7 :: u64) * 65536)))"
  unfolding Let_def
  by (rule calculate_path_earliest_arrival [OF keeps_planner_new(1) [OF diamond_ordered] diamond_bounded])

text \<open>C34.  Planning never panics or hangs: in every state a planner reaches on a topologically
  numbered graph, \<open>build_route_plan\<close> returns, and a returned plan is the channel list of a path of
  edges out of cooldown from node 0 to the last node, whatever the times (overflow included).\<close>

theorem build_route_plan_returns_path:
  assumes "graph_ordered (rcf_graph config)" and "planner_reach config p"
  shows "\<exists>r p'. build_route_plan p now n sample = Some (r, p') \<and>
    (\<forall>plan. r = Some plan \<longrightarrow> (\<exists>path. plan = map (\<lambda>eid. channel_id (get_edge (planner_nodes p) eid)) path \<and>
        path_from (planner_nodes p) now 0 path (length (planner_nodes p) - 1)))"
  using build_route_plan_ok [OF planner_reach_static(1) [OF assms]] by blast

theorem build_route_plan_returns_path_witness:
  "let p = planner_new diamond_config in
   \<exists>r p'. build_route_plan p 7 1000 True = Some (r, p') \<and>
    (\<forall>plan. r = Some plan \<longrightarrow> (\<exists>path. plan = map (\<lambda>eid. channel_id (get_edge (planner_nodes p) eid)) path \<and>
        path_from (planner_nodes p) 7 0 path (length (planner_nodes p) - 1)))"
  unfolding Let_def by (rule build_route_plan_returns_path [OF diamond_ordered planner_start])

text \<open>C35.  Availability: on a graph with a single sink, and while times do not overflow, planning
  fails exactly when every first-hop edge is cooling down, for samples as for data packets.\<close>

theorem plan_exists_unless_all_cooling:
  assumes "graph_ordered (rcf_graph config)" and "planner_reach config p"
    and "single_sink (planner_nodes p)" and "2 \<le> length (planner_nodes p)"
    and "times_bounded (planner_nodes p) now n V B"
  shows "\<exists>r p'. build_route_plan p now n sample = Some (r, p') \<and>
    (r = None \<longleftrightarrow> \<not> local_edge_free (planner_nodes p) now)"
  using build_route_plan_available [OF planner_reach_static(1,2) [OF assms(1,2)] assms(3-5)] .

theorem plan_exists_unless_all_cooling_witness:
  "\<exists>r p'. build_route_plan (planner_new diamond_config) 7 1000 True = Some (r, p') \<and> r \<noteq> None"
proof -
  have "\<exists>r p'. build_route_plan (planner_new diamond_config) 7 1000 True = Some (r, p') \<and>
    (r = None \<longleftrightarrow> \<not> local_edge_free (planner_nodes (planner_new diamond_config)) 7)"
    by (rule plan_exists_unless_all_cooling [OF diamond_ordered planner_start diamond_sink _ diamond_bounded])
       (simp add: diamond_simps)
  moreover have "local_edge_free (planner_nodes (planner_new diamond_config)) 7"
    by (simp add: local_edge_free_def diamond_simps)
  ultimately show ?thesis by blast
qed

text \<open>Sampling is fair: the edge chosen for a sample is reachable over edges out of cooldown and
  no reachable edge was sampled longer ago; none is chosen only if no edge is reachable.\<close>

lemma sampling_edge_least_recent:
  assumes "table_wf nodes"
  shows "\<exists>selected. sampling_edge nodes now = Some selected \<and>
    (case selected of
       None \<Rightarrow> \<not> (\<exists>eid. reachable_edge nodes now eid)
     | Some best \<Rightarrow> reachable_edge nodes now best \<and>
         (\<forall>eid. reachable_edge nodes now eid \<longrightarrow>
            \<not> option_less (last_sampled (get_edge nodes eid)) (last_sampled (get_edge nodes best))))"
  using assms by (rule sampling_edge_spec)

text \<open>C36.  Ranges: under any mixture of planning, send failures and feedback, every edge keeps its
  loss estimate within the 16-bit scale and its retry delay between 50 and 200 milliseconds, and
  the static part of the graph never changes.\<close>

theorem planner_ranges:
  assumes "graph_ordered (rcf_graph config)" and "planner_reach config p"
  shows "topology (planner_nodes p) = topology (planner_nodes (planner_new config)) \<and>
    (\<forall>es \<in> set (planner_nodes p). \<forall>e \<in> set es. loss e \<le> LOSS_ONE \<and>
       LOCAL_COOLDOWN_INITIAL_MS \<le> retry_delay_ms e \<and> retry_delay_ms e \<le> LOCAL_COOLDOWN_MAX_MS)"
  using planner_reach_static [OF assms] by (fastforce simp: table_wf_def edge_wf_def in_set_conv_nth)

theorem planner_ranges_witness:
  "\<exists>p. note_local_send_failure (planner_new diamond_config) 1 5 = Some p \<and>
    topology (planner_nodes p) = topology (planner_nodes (planner_new diamond_config)) \<and>
    (\<forall>es \<in> set (planner_nodes p). \<forall>e \<in> set es. loss e \<le> LOSS_ONE \<and>
       LOCAL_COOLDOWN_INITIAL_MS \<le> retry_delay_ms e \<and> retry_delay_ms e \<le> LOCAL_COOLDOWN_MAX_MS)"
proof -
  obtain p where p: "note_local_send_failure (planner_new diamond_config) 1 5 = Some p"
    by (simp add: note_local_send_failure_def diamond_simps index_run_def update_edge_def update_run_def Let_def)
  from planner_ranges [OF diamond_ordered planner_failure [OF planner_start p]] p show ?thesis by blast
qed

lemma plan_built_feedback:
  assumes "graph_ordered (rcf_graph config)" and "channels_distinct (planner_nodes (planner_new config))"
    and "plan_built config plan" and "planner_reach config q"
  shows "\<exists>q'. note_feedback q plan t success = Some q'"
proof -
  from assms(3) obtain p now n sample p' where p: "planner_reach config p" "build_route_plan p now n sample = Some (Some plan, p')"
    by (auto simp: plan_built_def)
  note P = planner_reach_static [OF assms(1) p(1)] and Q = planner_reach_static [OF assms(1,4)]
  obtain path where path: "plan = map (\<lambda>eid. channel_id (get_edge (planner_nodes p) eid)) path"
    "path_from (planner_nodes p) now 0 path (length (planner_nodes p) - 1)"
    using build_route_plan_ok [OF P(1), of now n sample] p(2) by auto
  moreover have "channels_distinct (planner_nodes p)" using topology_channels [OF P(3)] assms(2) by simp
  ultimately show ?thesis
    using note_feedback_returns [of "planner_nodes p" now path "length (planner_nodes p) - 1" q t success] P(3) Q(3)
    by simp
qed

text \<open>Feedback on a plan never panics: with distinct channels per node, a plan built in one state
  of a planner can be fed back in any other state of it.\<close>

lemma feedback_on_built_plan_returns:
  assumes "graph_ordered (rcf_graph config)" and "channels_distinct (planner_nodes (planner_new config))"
    and "planner_reach config p" and "planner_reach config q"
    and "build_route_plan p now n sample = Some (Some plan, p')"
  shows "\<exists>q'. note_feedback q plan t success = Some q'"
proof (rule plan_built_feedback [OF assms(1,2) _ assms(4)])
  show "plan_built config plan" unfolding plan_built_def using assms(3,5) by blast
qed

end
