(* ===== verification/Endpoint_Sessions.thy ===== *)
theory Endpoint_Sessions
  imports Endpoint Routing_Correct
begin

section \<open>Sessions of the endpoint as a transition system\<close>

text \<open>
  The endpoint seen from its sessions: a state is the map of sessions, a step creates, feeds, polls,
  opens, closes or removes one session and is labelled with the action the core emits or the request
  the shell makes.  \<open>session_path\<close> runs steps and collects the labels.  Every function of the
  endpoint core that changes sessions or emits actions is shown to be a path of this system
  (\<open>ep_acts\<close>): the sessions move along the path, the emitted actions are its labels, and the
  configuration and the sequence filter stay.
\<close>

subsection \<open>Definitions\<close>

datatype session_event = Did CoreAction | Asked_open ConvId | Asked_write ConvId bytes | Asked_close ConvId CloseReason

inductive session_step :: "KcpParams \<Rightarrow> usize \<Rightarrow> (ConvId \<rightharpoonup> EndpointSession) \<Rightarrow> session_event list \<Rightarrow> (ConvId \<rightharpoonup> EndpointSession) \<Rightarrow> bool"
  for params :: KcpParams and window :: usize where
  st_send: "session_step params window S [Did (SendTransportPacket ch bs)] S"
| st_pending: "S c = None \<Longrightarrow> session_step params window S []
     (S(c \<mapsto> (session_new c params PendingRemote)\<lparr>ss_peer_seq := Some p, ss_close_deadline_at := Some d\<rparr>))"
| st_input: "S c = Some s \<Longrightarrow> ss_peer_seq s = None \<or> ss_peer_seq s = Some p \<Longrightarrow>
     session_input_packet (s\<lparr>ss_peer_seq := Some p\<rparr>) t packet = Some (msgs, out, s') \<Longrightarrow> session_step params window S [] (S(c \<mapsto> s'))"
| st_poll: "S c = Some s \<Longrightarrow> session_poll s t = Some (out, s') \<Longrightarrow> session_step params window S [] (S(c \<mapsto> s'))"
| st_accept: "S c = Some s \<Longrightarrow> ss_phase s = PendingRemote \<Longrightarrow> session_step params window S [Did (OpenSession c)]
     (S(c \<mapsto> s\<lparr>ss_phase := Open, ss_close_deadline_at := None\<rparr>))"
| st_deliver: "S c = Some s \<Longrightarrow> ss_phase s = Open \<Longrightarrow> session_step params window S [Did (WriteSession c bs)] S"
| st_remote_close: "S c = Some s \<Longrightarrow> ss_phase s = Open \<Longrightarrow> session_step params window S [Did (CloseSession c r)]
     (S(c \<mapsto> s\<lparr>ss_phase := ClosingRemote, ss_close_deadline_at := Some d\<rparr>))"
| st_forget: "S c = Some s \<Longrightarrow> ss_phase s = PendingRemote \<Longrightarrow> session_step params window S [] (S(c := None))"
| st_finish_local: "S c = Some s \<Longrightarrow> ss_phase s = ClosingLocal \<Longrightarrow> ss_pending_close s = Some r \<Longrightarrow>
     session_step params window S [Did (CloseSession c r)] (S(c := None))"
| st_finish_remote: "S c = Some s \<Longrightarrow> ss_phase s = ClosingRemote \<Longrightarrow> session_step params window S [] (S(c := None))"
| st_reset: "S c = Some s \<Longrightarrow> ss_phase s \<noteq> PendingRemote \<Longrightarrow> session_step params window S [Did (CloseSession c Reset)] (S(c := None))"
| st_close_message: "S c = Some s \<Longrightarrow> ss_phase s = ClosingLocal \<Longrightarrow> \<not> ss_close_queued s \<Longrightarrow> wait_snd (ss_kcp s) < window \<Longrightarrow>
     session_send_message (s\<lparr>ss_close_queued := True\<rparr>) t (SessionMessage_Close r) = Some (out, s') \<Longrightarrow>
     session_step params window S [] (S(c \<mapsto> s'))"
| st_open: "session_send_message (session_new c params Open) t SessionMessage_Open = Some (out, s') \<Longrightarrow>
     session_step params window S [Asked_open c] (S(c \<mapsto> s'))"
| st_write: "S c = Some s \<Longrightarrow> 0 < mss \<Longrightarrow> mss = usize_sub (kp_mtu params) KCP_OVERHEAD \<Longrightarrow>
     wait_snd (ss_kcp s) + (if (1 + length bs) mod mss \<noteq> 0 then (1 + length bs) div mss + 1 else (1 + length bs) div mss) \<le> window \<Longrightarrow>
     session_send_message s t (SessionMessage_Data bs) = Some (out, s') \<Longrightarrow>
     session_step params window S [Asked_write c bs] (S(c \<mapsto> s'))"
| st_close: "S c = Some s \<Longrightarrow> session_step params window S [Asked_close c r]
     (S(c \<mapsto> s\<lparr>ss_phase := ClosingLocal, ss_close_deadline_at := Some d, ss_pending_close := Some r\<rparr>))"

inductive session_path :: "KcpParams \<Rightarrow> usize \<Rightarrow> (ConvId \<rightharpoonup> EndpointSession) \<Rightarrow> session_event list \<Rightarrow> (ConvId \<rightharpoonup> EndpointSession) \<Rightarrow> bool"
  for params :: KcpParams and window :: usize where
  path_refl: "session_path params window S [] S"
| path_step: "session_step params window S es S1 \<Longrightarrow> session_path params window S1 fs S2 \<Longrightarrow> session_path params window S (es @ fs) S2"

definition ep_static :: "EndpointCore \<Rightarrow> EndpointConfig \<times> KcpParams \<times> usize \<times> u64" where
  "ep_static core = (ep_config core, ep_kcp_params core, ep_scheduled_packet_overhead core, ep_close_deadline_ms core)"

definition ep_window :: "EndpointCore \<Rightarrow> usize" where
  "ep_window core = unat (kcf_send_window (ec_kcp (ep_config core)))"

definition session_map :: "EndpointCore \<Rightarrow> ConvId \<rightharpoonup> EndpointSession" where
  "session_map core = map_of (ep_sessions core)"

type_synonym ep_state = "EndpointCore \<times> CoreAction list"

definition ep_net_ok :: "EndpointCore \<Rightarrow> bool" where
  "ep_net_ok core \<longleftrightarrow> planner_reach (ec_route (ep_config core)) (ep_route_planner core) \<and>
     (\<forall>(i, sample) \<in> set (ep_outstanding core). plan_built (ec_route (ep_config core)) (fs_route_plan sample)) \<and>
     ep_seq_id core \<le> SEQUENCE_MASK \<and> bt_ordered (ep_sessions core)"

definition ep_keeps :: "EndpointCore \<Rightarrow> EndpointCore \<Rightarrow> bool" where
  "ep_keeps core core' \<longleftrightarrow> ep_static core' = ep_static core \<and> ep_sequence_filter core' = ep_sequence_filter core \<and>
     (ep_net_ok core \<longrightarrow> ep_net_ok core')"

definition ep_acts :: "ep_state \<Rightarrow> ep_state \<Rightarrow> bool" where
  "ep_acts st st' \<longleftrightarrow> ep_keeps (fst st) (fst st') \<and>
     (\<exists>new. snd st' = snd st @ new \<and>
       session_path (ep_kcp_params (fst st)) (ep_window (fst st)) (session_map (fst st)) (map Did new) (session_map (fst st')))"

definition ep_same :: "EndpointCore \<Rightarrow> EndpointCore \<Rightarrow> bool" where
  "ep_same core core' \<longleftrightarrow> ep_keeps core core' \<and> session_map core' = session_map core"

definition ep_sends :: "ep_state \<Rightarrow> ep_state \<Rightarrow> bool" where
  "ep_sends st st' \<longleftrightarrow> ep_same (fst st) (fst st') \<and>
     (snd st' = snd st \<or> (\<exists>ch bs. snd st' = snd st @ [SendTransportPacket ch bs]))"

subsection \<open>Paths\<close>

lemma path_append: "session_path params window S es S1 \<Longrightarrow> session_path params window S1 fs S2 \<Longrightarrow> session_path params window S (es @ fs) S2"
  by (induction rule: session_path.induct) (auto intro: session_path.intros)

lemma path_one: "session_step params window S es S1 \<Longrightarrow> session_path params window S es S1"
  using path_step [OF _ path_refl] by fastforce

lemma ep_keeps_refl [simp, intro]: "ep_keeps core core"
  by (simp add: ep_keeps_def)

lemma ep_keeps_trans: "ep_keeps core core1 \<Longrightarrow> ep_keeps core1 core2 \<Longrightarrow> ep_keeps core core2"
  by (simp add: ep_keeps_def)

lemma ep_keeps_static: "ep_keeps core core' \<Longrightarrow> ep_kcp_params core' = ep_kcp_params core \<and> ep_window core' = ep_window core"
  by (simp add: ep_keeps_def ep_static_def ep_window_def)

lemma ep_acts_refl [simp, intro]: "ep_acts st st"
  by (auto simp: ep_acts_def intro: path_refl)

lemma ep_acts_trans:
  assumes "ep_acts st st1" "ep_acts st1 st2"
  shows "ep_acts st st2"
proof -
  from assms obtain new1 new2 where n: "snd st1 = snd st @ new1" "snd st2 = snd st1 @ new2"
    "session_path (ep_kcp_params (fst st)) (ep_window (fst st)) (session_map (fst st)) (map Did new1) (session_map (fst st1))"
    "session_path (ep_kcp_params (fst st1)) (ep_window (fst st1)) (session_map (fst st1)) (map Did new2) (session_map (fst st2))"
    "ep_keeps (fst st) (fst st1)" "ep_keeps (fst st1) (fst st2)"
    by (auto simp: ep_acts_def)
  with path_append [OF n(3)] ep_keeps_static [OF n(5)]
  have "session_path (ep_kcp_params (fst st)) (ep_window (fst st)) (session_map (fst st)) (map Did (new1 @ new2)) (session_map (fst st2))"
    by simp
  with n ep_keeps_trans [OF n(5,6)] show ?thesis unfolding ep_acts_def by auto
qed

lemma ep_acts_step:
  assumes "ep_keeps core core'"
    and "session_step (ep_kcp_params core) (ep_window core) (session_map core) (map Did new) (session_map core')"
  shows "ep_acts (core, actions) (core', actions @ new)"
  using assms path_one by (auto simp: ep_acts_def)

lemma ep_acts_silent:
  assumes "session_step (ep_kcp_params core) (ep_window core) (session_map core) [] (session_map core')" "ep_keeps core core'"
  shows "ep_acts (core, actions) (core', actions)"
  using ep_acts_step [OF assms(2), of "[]" actions] assms(1) by simp

lemma ep_acts_quiet: "ep_same core core' \<Longrightarrow> ep_acts (core, actions) (core', actions)"
  by (auto simp: ep_acts_def ep_same_def intro: path_refl)

lemma ep_same_trans: "ep_same core core1 \<Longrightarrow> ep_same core1 core2 \<Longrightarrow> ep_same core core2"
  using ep_keeps_trans by (auto simp: ep_same_def)

lemma ep_net_ok_set [simp]: "ep_net_ok core \<Longrightarrow> ep_net_ok (set_session c s core)"
  by (simp add: ep_net_ok_def set_session_def bt.ordered_insert)

lemma ep_net_ok_drop [simp]: "ep_net_ok core \<Longrightarrow> ep_net_ok (drop_session c core)"
  by (simp add: ep_net_ok_def drop_session_def bt.ordered_remove)

lemma ep_net_ok_frame [simp]:
  "ep_net_ok (core\<lparr>ep_metrics := m\<rparr>) = ep_net_ok core" "ep_net_ok (core\<lparr>ep_next_conv_id := n\<rparr>) = ep_net_ok core"
  "ep_net_ok (core\<lparr>ep_tombstones := tb\<rparr>) = ep_net_ok core" "ep_net_ok (core\<lparr>ep_sequence_filter := f\<rparr>) = ep_net_ok core"
  "ep_net_ok (core\<lparr>ep_next_keepalive_at := n\<rparr>) = ep_net_ok core" "ep_net_ok (core\<lparr>ep_next_feedback_at := n\<rparr>) = ep_net_ok core"
  "ep_net_ok (core\<lparr>ep_random := r\<rparr>) = ep_net_ok core" "ep_net_ok (core\<lparr>ep_next_seq_no := n\<rparr>) = ep_net_ok core"
  by (simp_all add: ep_net_ok_def)

lemma set_session_simps [simp]:
  "ep_static (set_session c s core) = ep_static core" "ep_sequence_filter (set_session c s core) = ep_sequence_filter core"
  "session_map (set_session c s core) = (session_map core)(c \<mapsto> s)" "ep_kcp_params (set_session c s core) = ep_kcp_params core"
  "ep_window (set_session c s core) = ep_window core" "ep_config (set_session c s core) = ep_config core"
  "ep_tombstones (set_session c s core) = ep_tombstones core" "ep_close_deadline_ms (set_session c s core) = ep_close_deadline_ms core"
  by (auto simp: set_session_def ep_static_def session_map_def bt.get_insert ep_window_def)

lemma drop_session_simps [simp]:
  "ep_static (drop_session c core) = ep_static core" "ep_sequence_filter (drop_session c core) = ep_sequence_filter core"
  "session_map (drop_session c core) = (session_map core)(c := None)"
  by (auto simp: drop_session_def ep_static_def session_map_def bt.get_remove)

lemma count_dropped_simps [simp]:
  "ep_static (count_dropped core) = ep_static core" "ep_sequence_filter (count_dropped core) = ep_sequence_filter core"
  "session_map (count_dropped core) = session_map core" "ep_net_ok (count_dropped core) = ep_net_ok core"
  by (simp_all add: count_dropped_def ep_static_def session_map_def)

lemma bury_session_simps [simp]:
  "ep_static (bury_session c t core) = ep_static core" "ep_sequence_filter (bury_session c t core) = ep_sequence_filter core"
  "session_map (bury_session c t core) = session_map core" "ep_net_ok (bury_session c t core) = ep_net_ok core"
  by (simp_all add: bury_session_def ep_static_def session_map_def)

lemma ep_keeps_ops [simp]:
  "ep_keeps core core' \<Longrightarrow> ep_keeps core (set_session c s core')" "ep_keeps core core' \<Longrightarrow> ep_keeps core (drop_session c core')"
  "ep_keeps core core' \<Longrightarrow> ep_keeps core (count_dropped core')" "ep_keeps core core' \<Longrightarrow> ep_keeps core (bury_session c t core')"
  by (simp_all add: ep_keeps_def)

lemma ep_same_frame [simp]:
  "ep_same core core" "ep_same core (count_dropped core)" "ep_same core (core\<lparr>ep_metrics := m\<rparr>)"
  "ep_same core (core\<lparr>ep_tombstones := tb\<rparr>)" "ep_same core (core\<lparr>ep_next_keepalive_at := n\<rparr>)" "ep_same core (core\<lparr>ep_next_conv_id := i\<rparr>)"
  by (simp_all add: ep_same_def ep_keeps_def) (simp_all add: ep_static_def session_map_def)

subsection \<open>Sending\<close>

lemma outstanding_insert:
  "\<forall>(i, x) \<in> set m. P x \<Longrightarrow> P y \<Longrightarrow> \<forall>(i, x) \<in> set (bt_insert k y m). P x"
  by (induction m) (auto split: if_splits)

lemma note_sample_acts:
  assumes "note_sample cr core t stamp plan = Some core'" "plan_built (ec_route (ep_config core)) plan"
  shows "ep_same core core'"
proof -
  from assms(1) obtain r d y where c: "core' = core\<lparr>ep_outstanding := bt_insert (PacketId (es_seq_id stamp) (es_seq_no stamp)) y (ep_outstanding core),
      ep_random := r, ep_next_feedback_at := d\<rparr>" "fs_route_plan y = plan"
    by (auto simp: note_sample_def Let_def split: if_splits prod.splits)
  have "ep_net_ok core'" if "ep_net_ok core"
    using that assms(2) c(2) outstanding_insert [of "ep_outstanding core" "\<lambda>x. plan_built (ec_route (ep_config core)) (fs_route_plan x)" y]
    unfolding c(1) ep_net_ok_def by auto
  then show ?thesis unfolding ep_same_def ep_keeps_def by (simp add: c(1) ep_static_def session_map_def)
qed

lemma emit_envelopeE:
  assumes "emit_envelope cr core t stamp body sample plan actions = Some (core', actions')"
  obtains ch rest r random1 available bs random2 where "plan = ch # rest"
    "available = min (usize_sub (effective_transport_mtu (rcf_min_mtu (ec_route (ep_config core)))) (48 + length rest * 2 + length body)) 255"
    "0 < available" "random_u64 cr (ep_random core) = (r, random1)"
    "encode_transport_packet cr (ec_envelope_key (ep_config core)) random1
       (planned_envelope stamp plan body (word_of_nat (1 + unat r mod available))) = (bs, random2)"
    "(if sample then note_sample cr (count_sent core t random2) t stamp plan else Some (count_sent core t random2)) = Some core'"
    "actions' = actions @ [SendTransportPacket ch bs]"
proof -
  from assms obtain ch rest where plan: "plan = ch # rest"
    by (cases plan) (auto simp: emit_envelope_def index_run_def)
  obtain r random1 where r: "random_u64 cr (ep_random core) = (r, random1)" by fastforce
  define available where "available = min (usize_sub (effective_transport_mtu (rcf_min_mtu (ec_route (ep_config core)))) (48 + length rest * 2 + length body)) 255"
  obtain bs random2 where e: "encode_transport_packet cr (ec_envelope_key (ep_config core)) random1
       (planned_envelope stamp plan body (word_of_nat (1 + unat r mod available))) = (bs, random2)" by fastforce
  have i: "index_run plan 0 = Some ch" "length plan - 1 = length rest" by (simp_all add: plan index_run_def)
  have len: "TRANSPORT_PACKET_OVERHEAD + ENVELOPE_FIXED_OVERHEAD + length rest * CHANNEL_ID_SIZE + length body = 48 + length rest * 2 + length body" by simp
  from assms have run: "(if available = 0 then None else Some (word_of_nat (1 + unat r mod available) :: u8)) \<bind> (\<lambda>padding_len.
      let (bs, random2) = encode_transport_packet cr (ec_envelope_key (ep_config core)) random1 (planned_envelope stamp plan body padding_len);
          core1 = count_sent core t random2
      in (if sample then note_sample cr core1 t stamp plan else Some core1) \<bind> (\<lambda>core2. Some (core2, actions @ [SendTransportPacket ch bs]))) = Some (core', actions')"
    unfolding emit_envelope_def i len available_def [symmetric] r Let_def by (simp only: prod.case Option.bind.simps Let_def)
  then have a: "0 < available" by (cases "available = 0") simp_all
  with run e have "(if sample then note_sample cr (count_sent core t random2) t stamp plan else Some (count_sent core t random2)) = Some core'"
    "actions' = actions @ [SendTransportPacket ch bs]" by (auto simp: Let_def split: Option.bind_splits)
  then show ?thesis by (rule that [OF plan available_def a r e])
qed

lemma count_sent_acts: "ep_same core (count_sent core t random)" "ep_config (count_sent core t random) = ep_config core"
proof -
  show "ep_config (count_sent core t random) = ep_config core" by (simp add: count_sent_def Let_def)
  have "ep_net_ok (count_sent core t random) = ep_net_ok core" by (simp add: count_sent_def Let_def)
  then show "ep_same core (count_sent core t random)"
    by (simp add: ep_same_def ep_keeps_def) (simp add: count_sent_def Let_def ep_static_def session_map_def)
qed

lemma send_envelope_same:
  assumes "send_envelope cr core t stamp body sample actions = Some (core', actions')"
  shows "ep_sends (core, actions) (core', actions')"
proof -
  from assms obtain plan planner where p: "build_route_plan (ep_route_planner core) t (length body + ep_scheduled_packet_overhead core) sample = Some (plan, planner)"
    by (auto simp: send_envelope_def split: Option.bind_splits)
  let ?core = "core\<lparr>ep_route_planner := planner\<rparr>"
  have n: "ep_net_ok ?core" if "ep_net_ok core" using that planner_plan [OF _ p] by (simp add: ep_net_ok_def)
  then have q: "ep_same core ?core" by (simp add: ep_same_def ep_keeps_def) (simp add: ep_static_def session_map_def)
  show ?thesis
  proof (cases plan)
    case None
    with assms p q show ?thesis by (simp add: send_envelope_def ep_sends_def)
  next
    case (Some full_plan)
    with assms p have "emit_envelope cr ?core t stamp body sample full_plan actions = Some (core', actions')" by (simp add: send_envelope_def)
    then show ?thesis
    proof (rule emit_envelopeE)
      fix ch bs random2
      assume run: "(if sample then note_sample cr (count_sent ?core t random2) t stamp full_plan else Some (count_sent ?core t random2)) = Some core'"
        and act: "actions' = actions @ [SendTransportPacket ch bs]"
      have c: "ep_same ?core (count_sent ?core t random2)" by (rule count_sent_acts)
      have "ep_same core core'"
      proof (cases "sample \<and> ep_net_ok core")
        case True
        then have "plan_built (ec_route (ep_config core)) full_plan" using p Some unfolding plan_built_def ep_net_ok_def by blast
        then have "ep_same (count_sent ?core t random2) core'" using run True
          by (intro note_sample_acts [where plan = full_plan]) (simp_all add: count_sent_acts)
        then show ?thesis using ep_same_trans [OF q ep_same_trans [OF c]] by blast
      next
        case False
        show ?thesis
        proof (cases sample)
          case True
          with run have "ep_static core' = ep_static (count_sent ?core t random2) \<and>
              ep_sequence_filter core' = ep_sequence_filter (count_sent ?core t random2) \<and> session_map core' = session_map (count_sent ?core t random2)"
            by (auto simp: note_sample_def Let_def ep_static_def session_map_def split: if_splits prod.splits)
          with ep_same_trans [OF q c] False True show ?thesis by (simp add: ep_same_def ep_keeps_def)
        next
          case False
          with run have "core' = count_sent ?core t random2" by simp
          with ep_same_trans [OF q c] show ?thesis by simp
        qed
      qed
      then show ?thesis using act by (auto simp: ep_sends_def)
    qed
  qed
qed

lemma ep_sends_acts:
  assumes "ep_sends st st'"
  shows "ep_acts st st'"
proof -
  obtain core actions core' actions' where st: "st = (core, actions)" "st' = (core', actions')" by fastforce
  with assms have s: "ep_same core core'" "actions' = actions \<or> (\<exists>ch bs. actions' = actions @ [SendTransportPacket ch bs])" by (simp_all add: ep_sends_def)
  from s(2) show ?thesis unfolding st
  proof (elim disjE exE)
    assume "actions' = actions"
    then show "ep_acts (core, actions) (core', actions')" using s(1) by (simp add: ep_acts_quiet)
  next
    fix ch bs assume "actions' = actions @ [SendTransportPacket ch bs]"
    then show "ep_acts (core, actions) (core', actions')" using s(1) by (auto simp: ep_same_def intro!: ep_acts_step st_send)
  qed
qed

lemmas send_envelope_acts = ep_sends_acts [OF send_envelope_same]

lemma next_sequence_acts:
  assumes "next_sequence cr core = (q, core')"
  shows "ep_same core core'"
proof -
  have m: "r AND SEQUENCE_MASK \<le> SEQUENCE_MASK" for r by (simp add: word_and_le1)
  have "core' = core\<lparr>ep_next_seq_no := ep_next_seq_no core + 1\<rparr> \<or>
      (\<exists>r random. core' = core\<lparr>ep_random := random, ep_seq_id := r AND SEQUENCE_MASK, ep_next_seq_no := 0 + 1\<rparr>)"
    using assms by (auto simp: next_sequence_def Let_def split: if_splits prod.splits)
  then show ?thesis
  proof (elim disjE exE)
    assume "core' = core\<lparr>ep_next_seq_no := ep_next_seq_no core + 1\<rparr>"
    then show ?thesis by (simp add: ep_same_def ep_keeps_def) (simp add: ep_static_def session_map_def)
  next
    fix r random assume "core' = core\<lparr>ep_random := random, ep_seq_id := r AND SEQUENCE_MASK, ep_next_seq_no := 0 + 1\<rparr>"
    then show ?thesis using m by (simp add: ep_same_def ep_keeps_def ep_net_ok_def) (simp add: ep_static_def session_map_def)
  qed
qed

lemma send_endpoint_message_same:
  assumes "send_endpoint_message cr core t message sample actions = Some (core', actions')"
  shows "ep_sends (core, actions) (core', actions')"
proof -
  obtain q core1 where n: "next_sequence cr core = (q, core1)" by fastforce
  with assms obtain stamp body where "send_envelope cr core1 t stamp body sample actions = Some (core', actions')"
    by (auto simp: send_endpoint_message_def Let_def split: prod.splits)
  from send_envelope_same [OF this] next_sequence_acts [OF n] show ?thesis using ep_same_trans [of core core1 core'] by (simp add: ep_sends_def)
qed

lemmas send_endpoint_message_acts = ep_sends_acts [OF send_endpoint_message_same]

lemma send_kcp_packets_step:
  assumes "send_kcp_packet cr t packet st = Some st'"
  shows "ep_sends st st'"
  using assms by (cases st; cases st') (auto simp: send_kcp_packet_def Let_def intro: send_endpoint_message_same)

lemma send_kcp_packets_map:
  assumes "send_kcp_packets cr core t packets actions = Some (core', actions')"
  shows "session_map core' = session_map core"
proof -
  have "session_map (fst (core', actions')) = session_map core"
    using assms unfolding send_kcp_packets_def
  proof (rule fold_run_inv [where I = "\<lambda>st. session_map (fst st) = session_map core"])
    show "session_map (fst st2) = session_map core" if "session_map (fst st1) = session_map core" "send_kcp_packet cr t packet st1 = Some st2" for packet st1 st2
      using that send_kcp_packets_step [OF that(2)] by (auto simp: ep_sends_def ep_same_def split: prod.splits)
  qed simp
  then show ?thesis by simp
qed

lemma send_kcp_packets_acts:
  assumes "send_kcp_packets cr core t packets actions = Some (core', actions')"
  shows "ep_acts (core, actions) (core', actions')"
  using assms unfolding send_kcp_packets_def
proof (rule fold_run_inv [where I = "ep_acts (core, actions)"])
  show "ep_acts (core, actions) st2" if "ep_acts (core, actions) st1" "send_kcp_packet cr t packet st1 = Some st2" for packet st1 st2
    using that(1) ep_sends_acts [OF send_kcp_packets_step [OF that(2)]] by (rule ep_acts_trans)
qed simp

subsection \<open>The life cycle\<close>

lemma finish_closed_session_acts:
  assumes "finish_closed_session core t c actions = Some (core', actions')"
  shows "ep_acts (core, actions) (core', actions')"
proof (cases "session_map core c")
  case None
  with assms show ?thesis by (simp add: finish_closed_session_def session_map_def)
next
  case (Some s)
  then have run: "(if \<not> session_done s t then Some (core, actions)
          else
            let core1 = drop_session c core
            in if ss_phase s = PendingRemote then Some (count_dropped core1, actions)
               else do {
                 actions' \<leftarrow> (if ss_phase s = ClosingLocal
                   then do { reason \<leftarrow> ss_pending_close s; Some (actions @ [CloseSession c reason]) }
                   else Some actions);
                 Some (bury_session c t core1, actions')
               }) = Some (core', actions')"
    using assms by (simp add: finish_closed_session_def session_map_def)
  consider "\<not> session_done s t" | "session_done s t" "ss_phase s = PendingRemote" | r where "session_done s t" "ss_phase s = ClosingLocal" "ss_pending_close s = Some r"
    | "session_done s t" "ss_phase s = ClosingRemote"
  proof (cases "ss_phase s")
    case Open
    then show ?thesis using that(1) by (simp add: session_done_def)
  next
    case ClosingLocal
    then show ?thesis using that(1,3) run by (cases "session_done s t"; cases "ss_pending_close s") (simp_all add: Let_def)
  qed (use that in \<open>cases "session_done s t"; simp\<close>)+
  then show ?thesis
  proof cases
    case 1
    with run show ?thesis by simp
  next
    case 2
    with run have "core' = count_dropped (drop_session c core)" "actions' = actions" by simp_all
    then show ?thesis using Some 2 by (auto intro!: ep_acts_silent st_forget)
  next
    case (3 r)
    with run have "core' = bury_session c t (drop_session c core)" "actions' = actions @ [CloseSession c r]" by simp_all
    then show ?thesis using Some 3 by (auto intro!: ep_acts_step st_finish_local)
  next
    case 4
    with run have "core' = bury_session c t (drop_session c core)" "actions' = actions" by simp_all
    then show ?thesis using Some 4 by (auto intro!: ep_acts_silent st_finish_remote)
  qed
qed

lemma send_session_message_cases:
  assumes "send_session_message cr core t c msg actions = Some st'"
  obtains s out s' where "session_map core c = Some s" "session_send_message s t msg = Some (out, s')"
    "ep_acts (set_session c s' core, actions) st'"
proof -
  from assms obtain s out s' core1 actions1 where s: "session_map core c = Some s" "session_send_message s t msg = Some (out, s')"
    "send_kcp_packets cr (set_session c s' core) t out actions = Some (core1, actions1)" "finish_closed_session core1 t c actions1 = Some st'"
    by (auto simp: send_session_message_def session_map_def split: Option.bind_splits)
  have "ep_acts (set_session c s' core, actions) (core1, actions1)" by (rule send_kcp_packets_acts [OF s(3)])
  moreover have "ep_acts (core1, actions1) st'" using finish_closed_session_acts s(4) by (cases st') simp
  ultimately have "ep_acts (set_session c s' core, actions) st'" by (rule ep_acts_trans)
  with s that show ?thesis by blast
qed

lemma queue_local_close_acts:
  assumes "queue_local_close cr core t c actions = Some st'"
  shows "ep_acts (core, actions) st'"
proof (cases "session_map core c")
  case None
  with assms show ?thesis by (simp add: queue_local_close_def session_map_def)
next
  case (Some s)
  have st': "st' = (core, actions) \<or> (\<exists>r. ss_phase s = ClosingLocal \<and> \<not> ss_close_queued s \<and> wait_snd (ss_kcp s) < ep_window core \<and>
      send_session_message cr (set_session c (s\<lparr>ss_close_queued := True\<rparr>) core) t c (SessionMessage_Close r) actions = Some st')"
    using assms Some by (auto simp: queue_local_close_def session_map_def ep_window_def not_le split: if_splits Option.bind_splits)
  show ?thesis
  proof (cases "st' = (core, actions)")
    case False
    with st' obtain r where r: "ss_phase s = ClosingLocal" "\<not> ss_close_queued s" "wait_snd (ss_kcp s) < ep_window core"
      "send_session_message cr (set_session c (s\<lparr>ss_close_queued := True\<rparr>) core) t c (SessionMessage_Close r) actions = Some st'" by blast
    let ?core = "set_session c (s\<lparr>ss_close_queued := True\<rparr>) core"
    from r(4) obtain s1 out s' where s': "session_map ?core c = Some s1" "session_send_message s1 t (SessionMessage_Close r) = Some (out, s')"
      "ep_acts (set_session c s' ?core, actions) st'" by (rule send_session_message_cases)
    then have "session_step (ep_kcp_params core) (ep_window core) (session_map core) [] ((session_map core)(c \<mapsto> s'))"
      using Some r by (intro st_close_message [where s = s]) auto
    then have "ep_acts (core, actions) (set_session c s' ?core, actions)"
      using ep_acts_step [of core "set_session c s' ?core" "[]" actions] by simp
    then show ?thesis using s'(3) by (rule ep_acts_trans)
  qed simp
qed

lemma handle_session_message_acts: "ep_acts st (handle_session_message t c msg st)"
proof -
  obtain core actions where st: "st = (core, actions)" by fastforce
  show ?thesis
  proof (cases "session_map core c")
    case None
    then show ?thesis by (simp add: st handle_session_message_def session_map_def)
  next
    case (Some s)
    have step: "ep_acts (core, actions) (core', actions @ new)"
      if "session_step (ep_kcp_params core) (ep_window core) (session_map core) (map Did new) (session_map core')"
        "ep_keeps core core'" for core' new
      using that by (intro ep_acts_step)
    have quiet: "ep_acts (core, actions) (count_dropped core, actions)" by (intro ep_acts_quiet) simp_all
    have forget: "ep_acts (core, actions) (count_dropped (drop_session c core), actions)" if "ss_phase s = PendingRemote"
      using step [of "[]"] st_forget [where S = "session_map core", OF Some that] by simp
    have m: "map_of (ep_sessions core) c = Some s" using Some by (simp add: session_map_def)
    show ?thesis
    proof (cases msg)
      case SessionMessage_Open
      have "ep_acts (core, actions) (set_session c (s\<lparr>ss_phase := Open, ss_close_deadline_at := None\<rparr>) core, actions @ [OpenSession c])"
        if "ss_phase s = PendingRemote" using Some that by (intro step) (auto intro: st_accept)
      then show ?thesis using SessionMessage_Open quiet
        by (cases "ss_phase s") (simp_all add: st handle_session_message_def m)
    next
      case (SessionMessage_Data bs)
      have "ep_acts (core, actions) (core, actions @ [WriteSession c bs])"
        if "ss_phase s = Open" using Some that by (intro step) (auto intro: st_deliver)
      then show ?thesis using SessionMessage_Data quiet forget
        by (cases "ss_phase s") (simp_all add: st handle_session_message_def m)
    next
      case (SessionMessage_Close r)
      have "ep_acts (core, actions) (set_session c (s\<lparr>ss_phase := ClosingRemote, ss_close_deadline_at := Some (t + ep_close_deadline_ms core)\<rparr>) core,
          actions @ [CloseSession c r])" if "ss_phase s = Open" using Some that by (intro step) (auto intro: st_remote_close)
      then show ?thesis using SessionMessage_Close forget
        by (cases "ss_phase s") (simp_all add: st handle_session_message_def m)
    qed
  qed
qed

lemma handle_session_messages_acts: "ep_acts st (fold (handle_session_message t c) msgs st)"
proof (induction msgs arbitrary: st)
  case (Cons msg msgs)
  show ?case unfolding fold_simps by (rule ep_acts_trans [OF handle_session_message_acts Cons.IH])
qed simp

lemma input_session_acts:
  assumes "input_session cr core t c peer packet actions = Some st'"
  shows "ep_acts (core, actions) st'"
proof -
  from assms obtain s where s: "session_map core c = Some s" by (auto simp: input_session_def session_map_def split: Option.bind_splits)
  show ?thesis
  proof (cases "wrong_peer s peer")
    case True
    with assms s have "st' = (count_dropped core, actions)" by (simp add: input_session_def session_map_def)
    then show ?thesis by (simp add: ep_acts_quiet)
  next
    case False
    with assms s obtain msgs out s' core2 actions2 core3 actions3 core4 actions4 where
      i: "session_input_packet (s\<lparr>ss_peer_seq := Some peer\<rparr>) t packet = Some (msgs, out, s')"
      and k: "send_kcp_packets cr (set_session c s' core) t out actions = Some (core2, actions2)"
      and f: "fold (handle_session_message t c) msgs (core2, actions2) = (core3, actions3)"
      and q: "queue_local_close cr core3 t c actions3 = Some (core4, actions4)"
      and e: "finish_closed_session core4 t c actions4 = Some st'"
      by (auto simp: input_session_def session_map_def split: Option.bind_splits prod.splits)
    have "session_step (ep_kcp_params core) (ep_window core) (session_map core) [] ((session_map core)(c \<mapsto> s'))"
      using s False by (intro st_input [OF _ _ i]) (auto simp: wrong_peer_def split: option.splits)
    then have a: "ep_acts (core, actions) (set_session c s' core, actions)" by (intro ep_acts_silent) simp_all
    note a = ep_acts_trans [OF a send_kcp_packets_acts [OF k]]
    have "ep_acts (core2, actions2) (core3, actions3)" using handle_session_messages_acts [of "(core2, actions2)" t c msgs] f by simp
    note a = ep_acts_trans [OF ep_acts_trans [OF a this] queue_local_close_acts [OF q]]
    have "ep_acts (core4, actions4) st'" using finish_closed_session_acts e by (cases st') simp
    with a show ?thesis by (rule ep_acts_trans)
  qed
qed

lemma handle_kcp_packet_acts:
  assumes "handle_kcp_packet cr core t peer packet actions = Some st'"
  shows "ep_acts (core, actions) st'"
proof -
  from assms obtain c where c: "get_conv packet = Some c" by (auto simp: handle_kcp_packet_def split: Option.bind_splits)
  let ?core = "set_session c (pending_session core t c peer) core"
  have "ep_acts (core, actions) (?core, actions)" if "map_of (ep_sessions core) c = None"
    using that by (intro ep_acts_silent) (auto simp: pending_session_def session_map_def [of core] intro: st_pending)
  moreover have "ep_acts (core, actions) (count_dropped core, actions)" by (intro ep_acts_quiet) simp_all
  ultimately show ?thesis
    using assms c input_session_acts [of cr core t c peer packet actions st'] ep_acts_trans [OF _ input_session_acts, of _ ?core actions cr t c peer packet st']
    by (auto simp: handle_kcp_packet_def split: if_splits)
qed

lemma dispatch_message_acts:
  assumes "dispatch_message cr core t peer msg actions = Some st'"
  shows "ep_acts (core, actions) st'"
proof (cases msg)
  case (KcpPacket d packet)
  with assms show ?thesis by (auto intro: handle_kcp_packet_acts)
next
  case (KeepAlive d)
  with assms show ?thesis by auto
next
  case (RouteReply d i n)
  have "ep_same core (core\<lparr>ep_outstanding := bt_remove pid (ep_outstanding core), ep_route_planner := planner\<rparr>)"
    if "note_feedback (ep_route_planner core) plan sent ok = Some planner" for pid plan sent ok planner
  proof -
    have "set (bt_remove pid (ep_outstanding core)) \<subseteq> set (ep_outstanding core)" by (auto simp: bt_remove_def)
    then have "ep_net_ok (core\<lparr>ep_outstanding := bt_remove pid (ep_outstanding core), ep_route_planner := planner\<rparr>)" if "ep_net_ok core"
      using that planner_feedback [OF _ \<open>note_feedback _ _ _ _ = _\<close>] unfolding ep_net_ok_def by auto
    then show ?thesis unfolding ep_same_def ep_keeps_def by (simp add: ep_static_def session_map_def)
  qed
  with RouteReply assms show ?thesis by (auto intro!: ep_acts_quiet split: option.splits Option.bind_splits)
qed

lemma send_reply_acts:
  assumes "send_reply cr core t stamp depth actions = Some st'"
  shows "ep_acts (core, actions) st'"
  using assms by (cases st') (auto simp: send_reply_def Let_def intro: send_endpoint_message_acts split: if_splits)

subsection \<open>Timers\<close>

lemma reset_session_acts:
  assumes "reset_session t c st = Some st'"
  shows "ep_acts st st'"
proof -
  obtain core actions where st: "st = (core, actions)" by fastforce
  with assms obtain s where s: "session_map core c = Some s"
    "st' = (bury_session c t (drop_session c core), if ss_phase s \<noteq> PendingRemote then actions @ [CloseSession c Reset] else actions)"
    by (auto simp: reset_session_def session_map_def split: Option.bind_splits)
  show ?thesis
  proof (cases "ss_phase s = PendingRemote")
    case True
    with s show ?thesis by (auto simp: st intro!: ep_acts_silent st_forget)
  next
    case False
    with s show ?thesis by (auto simp: st intro!: ep_acts_step st_reset)
  qed
qed

lemma fold_run_acts:
  assumes "fold_run f xs st = Some st'" and "\<And>x st st'. f x st = Some st' \<Longrightarrow> ep_acts st st'"
  shows "ep_acts st st'"
  using assms(1)
proof (rule fold_run_inv [where I = "ep_acts st"])
  show "ep_acts st st2" if "ep_acts st st1" "f x st1 = Some st2" for x st1 st2
    using that(1) assms(2) [OF that(2)] by (rule ep_acts_trans)
qed simp

lemma expire_sequence_acts: "expire_sequence t q st = Some st' \<Longrightarrow> ep_acts st st'"
  unfolding expire_sequence_def by (erule fold_run_acts) (rule reset_session_acts)

lemma expire_sequences_acts:
  assumes "expire_sequences hash_iter core t actions = Some st'"
  shows "ep_acts (core\<lparr>ep_sequence_filter := snd (remove_expired hash_iter (ep_sequence_filter core) (endpoint_time core t) SEQUENCE_SOFT_CAP)\<rparr>, actions) st'"
proof -
  obtain ex f where r: "remove_expired hash_iter (ep_sequence_filter core) (endpoint_time core t) SEQUENCE_SOFT_CAP = (ex, f)" by fastforce
  with assms have "fold_run (expire_sequence t) ex (core\<lparr>ep_sequence_filter := f\<rparr>, actions) = Some st'"
    by (simp add: expire_sequences_def)
  then have "ep_acts (core\<lparr>ep_sequence_filter := f\<rparr>, actions) st'" by (rule fold_run_acts) (rule expire_sequence_acts)
  then show ?thesis unfolding r by simp
qed

lemma poll_session_acts:
  assumes "poll_session cr t c st = Some st'"
  shows "ep_acts st st'"
proof -
  obtain core actions where st: "st = (core, actions)" by fastforce
  with assms obtain core1 actions1 s out s' core2 actions2 where q: "queue_local_close cr core t c actions = Some (core1, actions1)"
    and s: "session_map core1 c = Some s" "session_poll s t = Some (out, s')"
    and k: "send_kcp_packets cr (set_session c s' core1) t out actions1 = Some (core2, actions2)"
    and e: "finish_closed_session core2 t c actions2 = Some st'"
    by (auto simp: poll_session_def session_map_def split: Option.bind_splits)
  have "session_step (ep_kcp_params core1) (ep_window core1) (session_map core1) [] ((session_map core1)(c \<mapsto> s'))"
    using s by (rule st_poll)
  then have "ep_acts (core1, actions1) (set_session c s' core1, actions1)" by (intro ep_acts_silent) simp_all
  from ep_acts_trans [OF queue_local_close_acts [OF q] this] have "ep_acts st (set_session c s' core1, actions1)" by (simp add: st)
  from ep_acts_trans [OF this send_kcp_packets_acts [OF k]] have "ep_acts st (core2, actions2)" .
  moreover have "ep_acts (core2, actions2) st'" using finish_closed_session_acts e by (cases st') simp
  ultimately show ?thesis by (rule ep_acts_trans)
qed

lemma poll_keepalive_acts:
  assumes "poll_keepalive cr core t actions = Some st'"
  shows "ep_acts (core, actions) st'"
proof (cases "ec_keepalive_interval_ms (ep_config core) \<noteq> 0 \<and> ep_next_keepalive_at core \<le> t")
  case True
  with assms obtain msg sample core1 actions1 d where m: "send_endpoint_message cr core t msg sample actions = Some (core1, actions1)"
    "st' = (core1\<lparr>ep_next_keepalive_at := d\<rparr>, actions1)"
    by (auto simp: poll_keepalive_def Let_def split: Option.bind_splits)
  have "ep_acts (core1, actions1) st'" unfolding m(2) by (simp add: ep_acts_quiet)
  with send_endpoint_message_acts [OF m(1)] show ?thesis by (rule ep_acts_trans)
next
  case False
  with assms show ?thesis by (auto simp: poll_keepalive_def Let_def)
qed

lemma expire_feedback_frame:
  assumes "expire_feedback core t = Some core'"
  shows "ep_same core core'"
proof -
  from assms obtain planner where p: "fold_run (expire_sample t) (ep_outstanding core) (ep_route_planner core) = Some planner"
    "core' = core\<lparr>ep_route_planner := planner, ep_outstanding := filter (\<lambda>(_, sample). t < fs_deadline sample) (ep_outstanding core)\<rparr>"
    by (auto simp: expire_feedback_def split: Option.bind_splits)
  have "planner_reach (ec_route (ep_config core)) planner" if "planner_reach (ec_route (ep_config core)) (ep_route_planner core)"
    using p(1) that
  proof (rule fold_run_inv [where I = "planner_reach (ec_route (ep_config core))"])
    show "planner_reach (ec_route (ep_config core)) q'" if "planner_reach (ec_route (ep_config core)) q" "expire_sample t entry q = Some q'" for entry q q'
      using that planner_feedback by (auto simp: expire_sample_def Let_def split: if_splits)
  qed
  then have "ep_net_ok core'" if "ep_net_ok core" using that unfolding p(2) ep_net_ok_def by auto
  then show ?thesis unfolding ep_same_def ep_keeps_def by (simp add: p(2) ep_static_def session_map_def)
qed

lemma endpoint_poll_acts:
  assumes "endpoint_poll cr hash_iter core t actions = Some st'"
  shows "ep_acts (core\<lparr>ep_sequence_filter := snd (remove_expired hash_iter (ep_sequence_filter core) (endpoint_time core t) SEQUENCE_SOFT_CAP)\<rparr>, actions) st'"
proof -
  from assms obtain core1 core2 actions2 core4 actions4 where f: "expire_feedback core t = Some core1"
    and x: "expire_sequences hash_iter core1 t actions = Some (core2, actions2)"
    and p: "fold_run (poll_session cr t) (bt_keys (ep_sessions (core2\<lparr>ep_tombstones := filter (\<lambda>(_, expire_at). t < expire_at) (ep_tombstones core2)\<rparr>)))
      (core2\<lparr>ep_tombstones := filter (\<lambda>(_, expire_at). t < expire_at) (ep_tombstones core2)\<rparr>, actions2) = Some (core4, actions4)"
    and k: "poll_keepalive cr core4 t actions4 = Some st'"
    by (auto simp: endpoint_poll_def Let_def split: Option.bind_splits)
  let ?f = "snd (remove_expired hash_iter (ep_sequence_filter core) (endpoint_time core t) SEQUENCE_SOFT_CAP)"
  note frame = expire_feedback_frame [OF f]
  have same: "ep_sequence_filter core1 = ep_sequence_filter core" "endpoint_time core1 t = endpoint_time core t"
    using frame by (simp_all add: endpoint_time_def ep_static_def ep_same_def ep_keeps_def)
  have "ep_acts (core\<lparr>ep_sequence_filter := ?f\<rparr>, actions) (core1\<lparr>ep_sequence_filter := ?f\<rparr>, actions)"
    using frame by (intro ep_acts_quiet) (simp add: ep_same_def ep_keeps_def ep_static_def session_map_def)
  from ep_acts_trans [OF this expire_sequences_acts [OF x, unfolded same]]
  have a: "ep_acts (core\<lparr>ep_sequence_filter := ?f\<rparr>, actions) (core2, actions2)" .
  have "ep_acts (core2, actions2) (core2\<lparr>ep_tombstones := filter (\<lambda>(_, expire_at). t < expire_at) (ep_tombstones core2)\<rparr>, actions2)"
    by (simp add: ep_acts_quiet)
  note a = ep_acts_trans [OF a this]
  note a = ep_acts_trans [OF a fold_run_acts [OF p poll_session_acts]]
  from a poll_keepalive_acts [OF k] show ?thesis by (rule ep_acts_trans)
qed

end
