(* ===== verification/Kcp_Receive.thy ===== *)
theory Kcp_Receive
  imports Kcp_Segments
begin

section \<open>The receiving side of KCP\<close>

text \<open>
  A ghost list \<open>L\<close> holds every fragment the remote side ever queued; the fragment with index \<open>i\<close> has
  sequence number \<open>sn_of i\<close>.  \<open>rcv_inv L n\<close> says that the receive queue holds the fragments just below
  \<open>n\<close> in order and that the reorder buffer is a strictly increasing selection of the window above \<open>n\<close>;
  \<open>received L n k\<close> is the set of indices the receiver holds or has handed out.  Feeding packets made of
  genuine segments, in any order and any number of times, only moves \<open>n\<close> forward (\<open>rcv_advance\<close>).
  Indices stay below \<open>2 ^ 30\<close>, where the signed difference of two sequence numbers is the difference of
  their indices.
\<close>

subsection \<open>Definitions\<close>

definition sn_of :: "nat \<Rightarrow> u32" where
  "sn_of i = word_of_nat i"

definition matches :: "(u8 \<times> bytes) list \<Rightarrow> KcpSegment \<Rightarrow> nat \<Rightarrow> bool" where
  "matches L seg i \<longleftrightarrow> i < length L \<and> sg_sn seg = sn_of i \<and> payload seg = L ! i"

definition rcv_buf_inv :: "(u8 \<times> bytes) list \<Rightarrow> nat \<Rightarrow> u16 \<Rightarrow> KcpSegment list \<Rightarrow> nat list \<Rightarrow> bool" where
  "rcv_buf_inv L n w segs idx \<longleftrightarrow> list_all2 (matches L) segs idx \<and> sorted_wrt (<) idx \<and>
     (\<forall>i \<in> set idx. n \<le> i \<and> i < n + unat w)"

definition rcv_inv :: "(u8 \<times> bytes) list \<Rightarrow> nat \<Rightarrow> Kcp \<Rightarrow> bool" where
  "rcv_inv L n k \<longleftrightarrow> rcv_nxt k = sn_of n \<and> (\<exists>idx. rcv_buf_inv L n (rcv_wnd k) (rcv_buf k) idx) \<and>
     map payload (rcv_queue k) = map ((!) L) [n - length (rcv_queue k)..<n] \<and>
     length (rcv_queue k) \<le> n \<and> length (rcv_queue k) \<le> unat (rcv_wnd k) \<and> n \<le> length L"

definition rcv_side :: "Kcp \<Rightarrow> u32 \<times> u16 \<times> KcpSegment list \<times> KcpSegment list" where
  "rcv_side k = (rcv_nxt k, rcv_wnd k, rcv_buf k, rcv_queue k)"

type_synonym fixed_part = "u64 \<times> usize \<times> usize \<times> u16 \<times> u16 \<times> u32 option \<times> KcpTiming \<times> u32"

definition fixed_side :: "Kcp \<Rightarrow> fixed_part" where
  "fixed_side k = (kc_conv k, kc_mtu k, kc_mss k, snd_wnd k, rcv_wnd k, fastresend k, kc_timing k, rx_minrto k)"

definition snd_side :: "Kcp \<Rightarrow> u32 \<times> KcpSegment list \<times> KcpSegment list \<times> bytes \<times> bytes list" where
  "snd_side k = (snd_nxt k, snd_queue k, snd_buf k, kc_buf k, kc_output k)"

definition received :: "(u8 \<times> bytes) list \<Rightarrow> nat \<Rightarrow> Kcp \<Rightarrow> nat set" where
  "received L n k = {..<n} \<union> {i. \<exists>seg \<in> set (rcv_buf k). matches L seg i}"

definition good_segment :: "(u8 \<times> bytes) list \<Rightarrow> nat set \<Rightarrow> u64 \<Rightarrow> KcpSegment \<Rightarrow> bool" where
  "good_segment L R conv seg \<longleftrightarrow> length (sg_data seg) < 2 ^ 32 \<and> sg_conv seg = conv \<and>
     sg_cmd seg \<in> {KCP_CMD_PUSH, KCP_CMD_ACK, KCP_CMD_WASK, KCP_CMD_WINS} \<and>
     (sg_cmd seg = KCP_CMD_PUSH \<longrightarrow> (\<exists>i. matches L seg i)) \<and>
     (sg_cmd seg = KCP_CMD_ACK \<longrightarrow> (\<exists>i \<in> R. sg_sn seg = sn_of i)) \<and>
     (\<exists>u. sg_una seg = sn_of u \<and> {..<u} \<subseteq> R)"

definition packet_of :: "(u8 \<times> bytes) list \<Rightarrow> nat set \<Rightarrow> u64 \<Rightarrow> bytes \<Rightarrow> bool" where
  "packet_of L R conv p \<longleftrightarrow> (\<exists>segs. p = concat (map segment_encode segs) \<and> (\<forall>seg \<in> set segs. good_segment L R conv seg))"

definition rcv_ok :: "(u8 \<times> bytes) list \<Rightarrow> nat \<Rightarrow> Kcp \<Rightarrow> bool" where
  "rcv_ok L n k \<longleftrightarrow> rcv_inv L n k \<and> (\<forall>(sn, ts) \<in> set (acklist k). \<exists>i \<in> received L n k. sn = sn_of i)"

definition rcv_advance :: "(u8 \<times> bytes) list \<Rightarrow> nat \<Rightarrow> Kcp \<Rightarrow> Kcp \<Rightarrow> bool" where
  "rcv_advance L n k k' \<longleftrightarrow> (\<exists>n' \<ge> n. rcv_ok L n' k' \<and> received L n k \<subseteq> received L n' k' \<and>
     length (rcv_queue k') = length (rcv_queue k) + (n' - n))"

definition ack_side :: "Kcp \<Rightarrow> (u32 \<times> u16 \<times> KcpSegment list \<times> KcpSegment list) \<times> (u32 \<times> u32) list" where
  "ack_side k = (rcv_side k, acklist k)"

subsection \<open>Sequence numbers and the reorder buffer\<close>

lemma timediff_int:
  assumes "- (2 ^ 31) \<le> d" "d < 2 ^ 31" "a - b = (word_of_int d :: u32)"
  shows "timediff a b = d"
proof -
  have "sint (word_of_int d :: u32) = signed_take_bit 31 d" by (simp add: signed_of_int)
  also have "\<dots> = d" using assms(1,2) by (simp add: signed_take_bit_int_eq_self)
  finally show ?thesis using assms(3) by (simp add: timediff_def)
qed

lemma timediff_sn:
  assumes "- (2 ^ 31) \<le> int i - int j" "int i - int j < 2 ^ 31"
  shows "timediff (sn_of i) (sn_of j) = int i - int j"
  using assms by (rule timediff_int) (simp add: sn_of_def)

lemma sn_of_eq:
  assumes "- (2 ^ 31) \<le> int i - int j" "int i - int j < 2 ^ 31"
  shows "sn_of i = sn_of j \<longleftrightarrow> i = j"
  using timediff_sn [OF assms] by (auto simp: timediff_def)

lemma sn_of_add: "sn_of i + ucast (w :: u16) = sn_of (i + unat w)"
  by (simp add: sn_of_def of_nat_unat)

lemma move_segments_inv:
  assumes "rcv_buf_inv L n w segs idx" and "map payload queue = map ((!) L) [n - length queue..<n]"
    and "length queue \<le> n" and "length queue \<le> unat w" and "n \<le> length L"
    and "move_segments w segs queue (sn_of n) = (segs', queue', nxt')"
  shows "\<exists>n' idx'. nxt' = sn_of n' \<and> n \<le> n' \<and> rcv_buf_inv L n' w segs' idx' \<and> length queue' = length queue + (n' - n) \<and>
    map payload queue' = map ((!) L) [n' - length queue'..<n'] \<and> length queue' \<le> n' \<and> length queue' \<le> unat w \<and> n' \<le> length L"
  using assms
proof (induction segs arbitrary: idx queue n)
  case Nil
  then show ?case by (intro exI [of _ n] exI [of _ "[]"]) (simp add: rcv_buf_inv_def)
next
  case (Cons seg segs)
  from Cons.prems(1) obtain i js where idx: "idx = i # js" "matches L seg i" "list_all2 (matches L) segs js"
    "sorted_wrt (<) js" "\<forall>j \<in> set js. i < j" "n \<le> i" "i < n + unat w" "\<forall>j \<in> set js. n \<le> j \<and> j < n + unat w"
    by (auto simp: rcv_buf_inv_def list_all2_Cons1)
  have w: "unat w < 65536" using unsigned_less [of w, where ?'a = nat] by simp
  have eq: "sg_sn seg = sn_of n \<longleftrightarrow> i = n"
    using idx(2,6,7) w sn_of_eq [of i n] by (simp add: matches_def)
  show ?case
  proof (cases "i = n \<and> length queue < unat w")
    case True
    have step: "rcv_buf_inv L (Suc n) w segs js"
      using idx True by (auto simp: rcv_buf_inv_def)
    have "[Suc n - length (queue @ [seg])..<Suc n] = [n - length queue..<n] @ [n]"
      using Cons.prems(3) by simp
    then have "map payload (queue @ [seg]) = map ((!) L) [Suc n - length (queue @ [seg])..<Suc n]"
      using Cons.prems(2) idx(2) True by (simp add: matches_def)
    moreover have "sn_of n + 1 = sn_of (Suc n)" by (simp add: sn_of_def)
    moreover have "Suc n \<le> length L" using idx(2) True by (simp add: matches_def)
    ultimately show ?thesis
      using Cons.IH [OF step, of "queue @ [seg]"] Cons.prems True eq by fastforce
  next
    case False
    with Cons.prems eq show ?thesis by (intro exI [of _ n] exI [of _ idx]) auto
  qed
qed

lemma scan_back_spec:
  assumes "list_all2 (matches L) segs idx" and "sorted_wrt (<) idx" and "\<forall>j \<in> set idx. n \<le> j \<and> j < n + 65536"
    and "n \<le> i" "i < n + 65536"
  shows "if i \<in> set idx then fst (scan_back (sn_of i) (rev segs) (length segs))
    else scan_back (sn_of i) (rev segs) (length segs) = (False, length (takeWhile (\<lambda>j. j < i) idx))"
  using assms
proof (induction segs arbitrary: idx rule: rev_induct)
  case Nil
  then show ?case by simp
next
  case (snoc seg segs)
  from snoc.prems(1) obtain j js where idx: "idx = js @ [j]" "matches L seg j" "list_all2 (matches L) segs js"
    by (auto simp: list_all2_append1 list_all2_Cons1)
  have srt: "sorted_wrt (<) js" "\<forall>x \<in> set js. x < j" "\<forall>x \<in> set js. n \<le> x \<and> x < n + 65536" "n \<le> j" "j < n + 65536"
    using snoc.prems(2,3) idx(1) by (auto simp: sorted_wrt_append)
  have td: "timediff (sn_of i) (sg_sn seg) = int i - int j" "sg_sn seg = sn_of i \<longleftrightarrow> j = i"
    using idx(2) srt(4,5) snoc.prems(4,5) timediff_sn [of i j] sn_of_eq [of j i] by (auto simp: matches_def)
  consider (eq) "j = i" | (gt) "j < i" | (lt) "i < j" by linarith
  then show ?case
  proof cases
    case gt
    then have "takeWhile (\<lambda>j. j < i) idx = idx" using idx(1) srt(2) by (auto simp: takeWhile_eq_all_conv)
    then have "length (takeWhile (\<lambda>j. j < i) idx) = Suc (length segs)"
      using idx(1) list_all2_lengthD [OF idx(3)] by (metis length_append_singleton)
    moreover have "i \<notin> set idx" using idx(1) srt(2) gt by auto
    ultimately show ?thesis using gt td by simp
  next
    case lt
    have "takeWhile (\<lambda>j. j < i) idx = takeWhile (\<lambda>j. j < i) js"
      using lt idx(1) by (simp add: takeWhile_tail)
    moreover have "i \<in> set idx \<longleftrightarrow> i \<in> set js" using lt idx(1) by auto
    ultimately show ?thesis
      using lt td snoc.IH [OF idx(3) srt(1,3) snoc.prems(4,5)] by simp
  qed (use td idx(1) in simp)
qed

lemma sorted_insert:
  fixes idx :: "nat list"
  assumes "sorted_wrt (<) idx" and "i \<notin> set idx"
  defines "p \<equiv> length (takeWhile (\<lambda>j. j < i) idx)"
  shows "sorted_wrt (<) (take p idx @ [i] @ drop p idx)"
proof -
  have t: "take p idx = takeWhile (\<lambda>j. j < i) idx" unfolding p_def by (rule takeWhile_eq_take [symmetric])
  have d: "drop p idx = dropWhile (\<lambda>j. j < i) idx" unfolding p_def by (rule dropWhile_eq_drop [symmetric])
  have low: "\<forall>x \<in> set (take p idx). x < i" unfolding t by (auto dest: set_takeWhileD)
  have high: "\<forall>x \<in> set (drop p idx). i < x"
  proof (cases "drop p idx")
    case (Cons y ys)
    then have "\<not> y < i" unfolding d by (metis hd_dropWhile list.sel(1) list.distinct(1))
    moreover have "y \<noteq> i" using assms(2) Cons by (metis in_set_dropD list.set_intros(1))
    moreover have "\<forall>x \<in> set ys. y < x"
      using assms(1) Cons by (metis append_take_drop_id sorted_wrt.simps(2) sorted_wrt_append)
    ultimately show ?thesis using Cons by auto
  qed simp
  have "sorted_wrt (<) (take p idx @ drop p idx)" using assms(1) by simp
  with low high show ?thesis by (fastforce simp: sorted_wrt_append)
qed

lemma move_buf_inv:
  assumes "rcv_inv L n k"
  shows "\<exists>n'. rcv_inv L n' (move_buf k) \<and> n \<le> n' \<and>
    length (rcv_queue (move_buf k)) = length (rcv_queue k) + (n' - n)"
proof -
  obtain segs' queue' nxt' where m: "move_segments (rcv_wnd k) (rcv_buf k) (rcv_queue k) (rcv_nxt k) = (segs', queue', nxt')"
    by (metis prod_cases3)
  from assms obtain idx where "rcv_buf_inv L n (rcv_wnd k) (rcv_buf k) idx" by (auto simp: rcv_inv_def)
  from move_segments_inv [OF this] assms m show ?thesis
    by (fastforce simp: rcv_inv_def move_buf_def)
qed

lemma parse_insert_inv:
  assumes inv: "rcv_inv L n k" and seg: "matches L seg i" and "n \<le> i" "i < n + unat (rcv_wnd k)"
    and s: "scan_back (sn_of i) (rev (rcv_buf k)) (length (rcv_buf k)) = (repeat, p)"
  shows "rcv_inv L n (if repeat then k
        else k\<lparr>rcv_buf := take p (rcv_buf k) @ [seg] @ drop p (rcv_buf k)\<rparr>)"
proof (cases repeat)
  case True
  with inv show ?thesis by simp
next
  case False
  have w: "unat (rcv_wnd k) < 65536" using unsigned_less [of "rcv_wnd k", where ?'a = nat] by simp
  from inv obtain idx where idx: "list_all2 (matches L) (rcv_buf k) idx" "sorted_wrt (<) idx"
    "\<forall>j \<in> set idx. n \<le> j \<and> j < n + unat (rcv_wnd k)"
    by (auto simp: rcv_inv_def rcv_buf_inv_def)
  then have rng: "\<forall>j \<in> set idx. n \<le> j \<and> j < n + 65536" using w by fastforce
  from scan_back_spec [OF idx(1,2) rng assms(3)] s False assms(4) w
  have p: "i \<notin> set idx" "p = length (takeWhile (\<lambda>j. j < i) idx)" by (auto split: if_splits)
  let ?idx = "take p idx @ [i] @ drop p idx"
  have "list_all2 (matches L) (take p (rcv_buf k) @ [seg] @ drop p (rcv_buf k)) ?idx"
    using idx(1) seg by (intro list_all2_appendI list_all2_takeI list_all2_dropI) auto
  moreover have "sorted_wrt (<) ?idx" using sorted_insert [OF idx(2) p(1)] p(2) by simp
  moreover have "\<forall>j \<in> set ?idx. n \<le> j \<and> j < n + unat (rcv_wnd k)"
    using idx(3) assms(3,4) by (auto dest: in_set_takeD in_set_dropD)
  ultimately have "rcv_buf_inv L n (rcv_wnd k) (take p (rcv_buf k) @ [seg] @ drop p (rcv_buf k)) ?idx"
    by (simp add: rcv_buf_inv_def)
  with inv False show ?thesis by (auto simp: rcv_inv_def)
qed

lemma window_conditions:
  assumes "- (2 ^ 30) \<le> int i - int n" "int i - int n < 2 ^ 30"
  shows "timediff (sn_of i) (sn_of n) < 0 \<longleftrightarrow> i < n"
    "0 \<le> timediff (sn_of i) (sn_of n + ucast (w :: u16)) \<longleftrightarrow> n + unat w \<le> i"
proof -
  have w: "unat w < 65536" using unsigned_less [of w, where ?'a = nat] by simp
  have "timediff (sn_of i) (sn_of (n + u)) = int i - int (n + u)" if "u < 65536" for u
    using assms that by (intro timediff_sn) simp_all
  note td = this [of 0, simplified] this [OF w]
  show "timediff (sn_of i) (sn_of n) < 0 \<longleftrightarrow> i < n" unfolding td by simp
  show "0 \<le> timediff (sn_of i) (sn_of n + ucast w) \<longleftrightarrow> n + unat w \<le> i"
    unfolding sn_of_add td by linarith
qed

subsection \<open>What each operation leaves alone\<close>

lemmas side_defs = rcv_side_def snd_side_def fixed_side_def

named_theorems frame_simps "what an operation leaves alone"

lemma rcv_inv_side: "rcv_side k = rcv_side k' \<Longrightarrow> rcv_inv L n k = rcv_inv L n k'"
  by (simp add: rcv_side_def rcv_inv_def)

lemma move_buf_frame [frame_simps]: "snd_side (move_buf k) = snd_side k" "fixed_side (move_buf k) = fixed_side k"
  by (simp_all add: move_buf_def side_defs split: prod.splits)

lemma shrink_buf_frame [frame_simps]: "snd_side (shrink_buf k) = snd_side k" "fixed_side (shrink_buf k) = fixed_side k"
  "rcv_side (shrink_buf k) = rcv_side k"
  by (simp_all add: shrink_buf_def side_defs)

lemma parse_una_frame [frame_simps]: "fixed_side (parse_una k una) = fixed_side k" "rcv_side (parse_una k una) = rcv_side k"
  by (simp_all add: parse_una_def side_defs)

lemma parse_ack_frame [frame_simps]: "fixed_side (parse_ack k sn) = fixed_side k" "rcv_side (parse_ack k sn) = rcv_side k"
  by (simp_all add: parse_ack_def side_defs)

lemma parse_fastack_frame [frame_simps]: "fixed_side (parse_fastack k sn ts) = fixed_side k"
  "rcv_side (parse_fastack k sn ts) = rcv_side k"
  by (simp_all add: parse_fastack_def side_defs)

lemma update_ack_frame:
  "update_ack k rtt = Some k' \<Longrightarrow> snd_side k' = snd_side k \<and> fixed_side k' = fixed_side k \<and> rcv_side k' = rcv_side k"
  by (auto simp: update_ack_def clamp_run_def side_defs Let_def split: if_splits prod.splits)

lemma field_frames [frame_simps]:
  "snd_side (k\<lparr>cwnd := c\<rparr>) = snd_side k" "fixed_side (k\<lparr>cwnd := c\<rparr>) = fixed_side k" "rcv_side (k\<lparr>cwnd := c\<rparr>) = rcv_side k"
  "snd_side (k\<lparr>incr := i\<rparr>) = snd_side k" "fixed_side (k\<lparr>incr := i\<rparr>) = fixed_side k" "rcv_side (k\<lparr>incr := i\<rparr>) = rcv_side k"
  "snd_side (k\<lparr>ssthresh := t\<rparr>) = snd_side k" "fixed_side (k\<lparr>ssthresh := t\<rparr>) = fixed_side k" "rcv_side (k\<lparr>ssthresh := t\<rparr>) = rcv_side k"
  "snd_side (k\<lparr>probe := p\<rparr>) = snd_side k" "fixed_side (k\<lparr>probe := p\<rparr>) = fixed_side k" "rcv_side (k\<lparr>probe := p\<rparr>) = rcv_side k"
  "snd_side (k\<lparr>rmt_wnd := w\<rparr>) = snd_side k" "fixed_side (k\<lparr>rmt_wnd := w\<rparr>) = fixed_side k" "rcv_side (k\<lparr>rmt_wnd := w\<rparr>) = rcv_side k"
  "snd_side (k\<lparr>current := t'\<rparr>) = snd_side k" "fixed_side (k\<lparr>current := t'\<rparr>) = fixed_side k" "rcv_side (k\<lparr>current := t'\<rparr>) = rcv_side k"
  "snd_side (k\<lparr>updated := u\<rparr>) = snd_side k" "fixed_side (k\<lparr>updated := u\<rparr>) = fixed_side k" "rcv_side (k\<lparr>updated := u\<rparr>) = rcv_side k"
  "snd_side (k\<lparr>ts_flush := t'\<rparr>) = snd_side k" "fixed_side (k\<lparr>ts_flush := t'\<rparr>) = fixed_side k" "rcv_side (k\<lparr>ts_flush := t'\<rparr>) = rcv_side k"
  "snd_side (k\<lparr>ts_probe := t'\<rparr>) = snd_side k" "fixed_side (k\<lparr>ts_probe := t'\<rparr>) = fixed_side k" "rcv_side (k\<lparr>ts_probe := t'\<rparr>) = rcv_side k"
  "snd_side (k\<lparr>probe_wait := t'\<rparr>) = snd_side k" "fixed_side (k\<lparr>probe_wait := t'\<rparr>) = fixed_side k" "rcv_side (k\<lparr>probe_wait := t'\<rparr>) = rcv_side k"
  "snd_side (k\<lparr>acklist := a\<rparr>) = snd_side k" "fixed_side (k\<lparr>acklist := a\<rparr>) = fixed_side k" "rcv_side (k\<lparr>acklist := a\<rparr>) = rcv_side k"
  by (simp_all add: side_defs)

lemma grow_cwnd_frame:
  assumes "grow_cwnd k = Some k'"
  shows "snd_side k' = snd_side k \<and> fixed_side k' = fixed_side k \<and> rcv_side k' = rcv_side k"
proof -
  from assms obtain k1 where k1: "grow_incr k = Some k1" "k' = limit_cwnd k1"
    by (auto simp: grow_cwnd_def split: Option.bind_splits)
  from k1(1) have "snd_side k1 = snd_side k \<and> fixed_side k1 = fixed_side k \<and> rcv_side k1 = rcv_side k"
    by (auto simp: grow_incr_def Let_def frame_simps split: if_splits)
  with k1(2) show ?thesis by (simp add: limit_cwnd_def frame_simps)
qed

lemma input_push_frame [frame_simps]: "snd_side (input_push k seg) = snd_side k" "fixed_side (input_push k seg) = fixed_side k"
  by (auto simp: input_push_def parse_data_def ack_push_def frame_simps Let_def side_defs move_buf_def split: prod.splits)

lemma input_ack_frame:
  assumes "input_ack k vars sn ts = Some (k', vars')"
  shows "rcv_side k' = rcv_side k \<and> fixed_side k' = fixed_side k"
proof -
  from assms obtain k1 where k1: "(if 0 \<le> timediff (current k) ts then update_ack k (word_of_int (timediff (current k) ts)) else Some k) = Some k1"
    "k' = shrink_buf (parse_ack k1 sn)"
    by (auto simp: input_ack_def Let_def split: Option.bind_splits)
  then have "rcv_side k1 = rcv_side k \<and> fixed_side k1 = fixed_side k"
    using update_ack_frame by (auto split: if_splits)
  with k1(2) show ?thesis by (simp add: frame_simps)
qed

lemma input_segment_fixed:
  assumes "input_segment k vars hdr data = Some (k', vars')"
  shows "fixed_side k' = fixed_side k"
proof -
  let ?k = "shrink_buf (parse_una (k\<lparr>rmt_wnd := sg_wnd hdr\<rparr>) (sg_una hdr))"
  have "fixed_side ?k = fixed_side k" by (simp add: frame_simps)
  moreover have "fixed_side (?k\<lparr>probe := p\<rparr>) = fixed_side ?k" for p by (simp add: fixed_side_def)
  ultimately show ?thesis
    using assms by (auto simp: input_segment_def Let_def frame_simps dest!: input_ack_frame split: if_splits)
qed

subsection \<open>Loops over a packet\<close>

lemma input_loop_inv:
  assumes "input_loop k vars buf = Some (r, k')" and "I k"
    and step: "\<And>k vars hdr data k' vars'. I k \<Longrightarrow> input_segment k vars hdr data = Some (k', vars') \<Longrightarrow> I k'"
  shows "I k'"
  using assms(1,2)
proof (induction k vars buf rule: input_loop.induct)
  case (1 k vars buf)
  obtain hdr len where h: "segment_header buf = (hdr, len)" by fastforce
  show ?case
  proof (cases "length buf < 28 \<or> sg_conv hdr \<noteq> kc_conv k \<or> length (drop 28 buf) < len \<or>
      sg_cmd hdr \<notin> {81, 82, 83, 84}")
    case True
    with 1 h show ?thesis by (auto simp: input_loop.simps [of k vars buf] Let_def split: if_splits)
  next
    case False
    then obtain k1 vars1 where s: "input_segment k vars hdr (take len (drop 28 buf)) = Some (k1, vars1)"
      "input_loop k1 vars1 (drop len (drop 28 buf)) = Some (r, k')"
      using "1.prems"(1) h by (auto simp: input_loop.simps [of k vars buf] Let_def split: if_splits Option.bind_splits)
    have "I k1" by (rule step [OF "1.prems"(2) s(1)])
    with "1.IH" [of "(hdr, len)" hdr len "drop 28 buf" "(k1, vars1)" k1 vars1] s False h show ?thesis
      by auto
  qed
qed

lemma input_loop_Cons:
  assumes "length (sg_data seg) < 2 ^ 32" and "sg_conv seg = kc_conv k"
    and "sg_cmd seg \<in> {KCP_CMD_PUSH, KCP_CMD_ACK, KCP_CMD_WASK, KCP_CMD_WINS}"
  shows "input_loop k vars (segment_encode seg @ rest) = do {
    (k', vars') \<leftarrow> input_segment k vars (wire_part seg) (sg_data seg);
    input_loop k' vars' rest }"
proof -
  have "drop 28 (segment_encode seg @ rest) = sg_data seg @ rest" by (simp add: segment_encode_def)
  moreover have "sg_conv (wire_part seg) = kc_conv k" "sg_cmd (wire_part seg) = sg_cmd seg"
    using assms(2) by (simp_all add: wire_part_def)
  ultimately show ?thesis
    using assms segment_header_encode [OF assms(1), of rest]
    by (subst input_loop.simps) (auto simp: Let_def)
qed

subsection \<open>Progress of the receiver\<close>

lemma matches_unique:
  assumes "matches L seg i" "matches L seg j" "length L \<le> 2 ^ 30"
  shows "i = j"
  using assms sn_of_eq [of i j] by (auto simp: matches_def)

lemma matches_append: "matches L seg i \<Longrightarrow> matches (L @ L') seg i"
  by (auto simp: matches_def nth_append)

lemma rcv_ok_side: "ack_side k = ack_side k' \<Longrightarrow> rcv_ok L n k = rcv_ok L n k' \<and> received L n k = received L n k'"
  using rcv_inv_side [of k k'] by (auto simp: ack_side_def rcv_ok_def received_def rcv_side_def)

lemma rcv_advance_refl:
  assumes "rcv_ok L n k" "ack_side k' = ack_side k"
  shows "rcv_advance L n k k'"
  using assms rcv_ok_side [OF assms(2), of L n] unfolding rcv_advance_def
  by (intro exI [of _ n]) (auto simp: ack_side_def rcv_side_def)

lemma rcv_advance_trans:
  assumes "rcv_advance L n k k1" and "\<And>n1. rcv_ok L n1 k1 \<Longrightarrow> rcv_advance L n1 k1 k2"
  shows "rcv_advance L n k k2"
proof -
  from assms(1) obtain n1 where n1: "n \<le> n1" "rcv_ok L n1 k1" "length (rcv_queue k1) = length (rcv_queue k) + (n1 - n)"
    "received L n k \<subseteq> received L n1 k1"
    by (auto simp: rcv_advance_def)
  from assms(2) [OF n1(2)] obtain n2 where "n1 \<le> n2" "rcv_ok L n2 k2" "length (rcv_queue k2) = length (rcv_queue k1) + (n2 - n1)"
    "received L n1 k1 \<subseteq> received L n2 k2"
    by (auto simp: rcv_advance_def)
  with n1 show ?thesis unfolding rcv_advance_def by (intro exI [of _ n2]) auto
qed

lemma move_segments_keeps:
  assumes "move_segments w segs queue (sn_of n) = (segs', queue', nxt')"
  shows "length queue \<le> length queue' \<and> nxt' = sn_of (n + (length queue' - length queue)) \<and>
    (\<forall>seg \<in> set segs. seg \<in> set segs' \<or> (\<exists>j < n + (length queue' - length queue). sg_sn seg = sn_of j))"
  using assms
proof (induction segs arbitrary: queue n)
  case (Cons seg segs)
  have next_sn: "sn_of n + 1 = sn_of (Suc n)" by (simp add: sn_of_def)
  show ?case
  proof (cases "sg_sn seg = sn_of n \<and> length queue < unat w")
    case True
    then have "move_segments w segs (queue @ [seg]) (sn_of (Suc n)) = (segs', queue', nxt')"
      using Cons.prems by (simp add: next_sn)
    note ih = Cons.IH [OF this]
    then have "Suc n + (length queue' - length (queue @ [seg])) = n + (length queue' - length queue)" by auto
    with ih True show ?thesis by (auto intro: exI [of _ n])
  next
    case False
    with Cons.prems show ?thesis by auto
  qed
qed simp

lemma set_take_drop: "set xs = set (take p xs) \<union> set (drop p xs)"
  by (metis append_take_drop_id set_append)

lemma received_mono:
  assumes "length L \<le> 2 ^ 30" and "n \<le> n'" "n' \<le> length L"
    and "\<forall>seg \<in> set (rcv_buf k). seg \<in> set (rcv_buf k') \<or> (\<exists>j < n'. sg_sn seg = sn_of j)"
  shows "received L n k \<subseteq> received L n' k'"
proof
  fix i assume "i \<in> received L n k"
  then consider (low) "i < n" | (buffered) seg where "seg \<in> set (rcv_buf k)" "matches L seg i" by (auto simp: received_def)
  then show "i \<in> received L n' k'"
  proof cases
    case (buffered seg)
    have "i = j" if "j < n'" "sg_sn seg = sn_of j" for j
    proof -
      have "i < 2 ^ 30" "j < 2 ^ 30" "sn_of i = sn_of j"
        using that buffered(2) assms(1,3) by (simp_all add: matches_def)
      then show ?thesis using sn_of_eq [of i j] by simp
    qed
    with buffered assms(4) show ?thesis unfolding received_def by blast
  next
    case low
    with assms(2) show ?thesis by (simp add: received_def)
  qed
qed

lemma move_buf_advance:
  assumes ok: "rcv_ok L n k" and "length L \<le> 2 ^ 30"
  shows "rcv_advance L n k (move_buf k)"
proof -
  from ok move_buf_inv [of L n k] obtain n' where n': "rcv_inv L n' (move_buf k)" "n \<le> n'"
    "length (rcv_queue (move_buf k)) = length (rcv_queue k) + (n' - n)" by (auto simp: rcv_ok_def)
  obtain segs' queue' nxt' where m: "move_segments (rcv_wnd k) (rcv_buf k) (rcv_queue k) (rcv_nxt k) = (segs', queue', nxt')"
    by (metis prod_cases3)
  have mb: "rcv_buf (move_buf k) = segs'" "rcv_queue (move_buf k) = queue'" "acklist (move_buf k) = acklist k"
    using m by (simp_all add: move_buf_def)
  have "rcv_nxt k = sn_of n" using ok by (simp add: rcv_ok_def rcv_inv_def)
  with move_segments_keeps [of "rcv_wnd k" "rcv_buf k" "rcv_queue k" n segs' queue' nxt'] m n'(2,3) mb(2)
  have "\<forall>seg \<in> set (rcv_buf k). seg \<in> set (rcv_buf (move_buf k)) \<or> (\<exists>j < n'. sg_sn seg = sn_of j)"
    unfolding mb(1) by auto
  moreover have "n' \<le> length L" using n'(1) by (simp add: rcv_inv_def)
  ultimately have "received L n k \<subseteq> received L n' (move_buf k)"
    using received_mono [OF assms(2) n'(2)] by blast
  then show ?thesis using n' ok unfolding rcv_advance_def rcv_ok_def mb(3) by (intro exI [of _ n']) blast
qed

lemma scan_back_repeat:
  "scan_back sn segs p = (True, q) \<Longrightarrow> \<exists>seg \<in> set segs. sg_sn seg = sn"
  by (induction sn segs p rule: scan_back.induct) (auto split: if_splits)

lemma parse_data_advance:
  assumes ok: "rcv_ok L n k" and seg: "matches L seg i" and short: "length L \<le> 2 ^ 30"
    and win: "n \<le> i" "i < n + unat (rcv_wnd k)"
  shows "\<exists>n' \<ge> n. rcv_ok L n' (parse_data k seg) \<and> received L n k \<subseteq> received L n' (parse_data k seg) \<and>
    length (rcv_queue (parse_data k seg)) = length (rcv_queue k) + (n' - n) \<and> i \<in> received L n' (parse_data k seg)"
proof -
  have inv: "rcv_inv L n k" using ok by (simp add: rcv_ok_def)
  have sn: "sg_sn seg = sn_of i" "rcv_nxt k = sn_of n" using seg inv by (simp_all add: matches_def rcv_inv_def)
  have near: "- (2 ^ 30) \<le> int i - int n" "int i - int n < 2 ^ 30"
    using seg inv short by (auto simp: matches_def rcv_inv_def)
  note cond = window_conditions(1) [OF near] window_conditions(2) [OF near, of "rcv_wnd k"]
  obtain repeat p where s: "scan_back (sn_of i) (rev (rcv_buf k)) (length (rcv_buf k)) = (repeat, p)" by fastforce
  define k1 where "k1 = (if repeat then k
      else k\<lparr>rcv_buf := take p (rcv_buf k) @ [seg] @ drop p (rcv_buf k)\<rparr>)"
  have run: "parse_data k seg = move_buf k1"
    using win cond s by (simp add: parse_data_def k1_def Let_def sn)
  have inv1: "rcv_inv L n k1"
    unfolding k1_def using win by (intro parse_insert_inv [OF inv seg _ _ s]) auto
  have grow: "received L n k \<subseteq> received L n k1"
    using set_take_drop [of "rcv_buf k" p] by (auto simp: k1_def received_def)
  have here: "i \<in> received L n k1"
  proof (cases repeat)
    case True
    with s scan_back_repeat [of "sn_of i" "rev (rcv_buf k)"] obtain seg' where seg': "seg' \<in> set (rcv_buf k)" "sg_sn seg' = sn_of i"
      by fastforce
    from inv obtain idx where "list_all2 (matches L) (rcv_buf k) idx" by (auto simp: rcv_inv_def rcv_buf_inv_def)
    with seg'(1) obtain j where "matches L seg' j" by (auto simp: list_all2_conv_all_nth in_set_conv_nth)
    moreover from this have "j = i" using seg'(2) seg short sn_of_eq [of i j] by (auto simp: matches_def)
    ultimately show ?thesis using seg'(1) True by (auto simp: received_def k1_def)
  qed (use seg in \<open>auto simp: received_def k1_def\<close>)
  have k1: "acklist k1 = acklist k" "rcv_queue k1 = rcv_queue k" by (simp_all add: k1_def)
  have ok1: "rcv_ok L n k1" using ok inv1 grow unfolding rcv_ok_def k1 by blast
  from move_buf_advance [OF ok1 short] obtain n' where "n \<le> n'" "rcv_ok L n' (move_buf k1)"
    "received L n k1 \<subseteq> received L n' (move_buf k1)" "length (rcv_queue (move_buf k1)) = length (rcv_queue k1) + (n' - n)"
    by (auto simp: rcv_advance_def)
  with here grow k1(2) show ?thesis unfolding run by (intro exI [of _ n']) auto
qed

lemma parse_data_acklist:
  "parse_data (k\<lparr>acklist := a\<rparr>) seg = (parse_data k seg)\<lparr>acklist := a\<rparr>" "acklist (parse_data k seg) = acklist k"
  by (simp_all add: parse_data_def move_buf_def Let_def split: prod.splits)

lemma ack_received:
  assumes "rcv_ok L n k" "i \<in> received L n k"
  shows "rcv_ok L n (ack_push k (sn_of i) ts) \<and> received L n (ack_push k (sn_of i) ts) = received L n k"
proof -
  have "rcv_inv L n (ack_push k (sn_of i) ts) = rcv_inv L n k"
    by (rule rcv_inv_side) (simp add: rcv_side_def ack_push_def)
  with assms show ?thesis by (auto simp: rcv_ok_def received_def ack_push_def)
qed

lemma input_push_advance:
  assumes ok: "rcv_ok L n k" and seg: "matches L seg i" and short: "length L \<le> 2 ^ 30"
  shows "rcv_advance L n k (input_push k seg)"
proof -
  have inv: "rcv_inv L n k" using ok by (simp add: rcv_ok_def)
  have sn: "sg_sn seg = sn_of i" "rcv_nxt k = sn_of n" using seg inv by (simp_all add: matches_def rcv_inv_def)
  have near: "- (2 ^ 30) \<le> int i - int n" "int i - int n < 2 ^ 30"
    using seg inv short by (auto simp: matches_def rcv_inv_def)
  note cond = window_conditions(1) [OF near] window_conditions(2) [OF near, of "rcv_wnd k"]
  let ?ack = "\<lambda>k. ack_push k (sn_of i) (sg_ts seg)"
  consider (above) "n + unat (rcv_wnd k) \<le> i" | (below) "i < n" | (inside) "n \<le> i" "i < n + unat (rcv_wnd k)" by linarith
  then show ?thesis
  proof cases
    case above
    then have "input_push k seg = k" using cond by (simp add: input_push_def sn)
    then show ?thesis using rcv_advance_refl [OF ok] by simp
  next
    case below
    then have "input_push k seg = ?ack k" using cond by (auto simp: input_push_def sn Let_def ack_push_def)
    moreover have "i \<in> received L n k" using below by (simp add: received_def)
    ultimately show ?thesis
      using ack_received [OF ok, of i "sg_ts seg"] unfolding rcv_advance_def by (intro exI [of _ n]) (auto simp: ack_push_def)
  next
    case inside
    then have run: "input_push k seg = ?ack (parse_data k seg)"
      using cond by (auto simp: input_push_def sn Let_def ack_push_def parse_data_acklist)
    from parse_data_advance [OF ok seg short inside] obtain n' where n': "n \<le> n'" "rcv_ok L n' (parse_data k seg)"
      "received L n k \<subseteq> received L n' (parse_data k seg)" "i \<in> received L n' (parse_data k seg)"
      "length (rcv_queue (parse_data k seg)) = length (rcv_queue k) + (n' - n)" by auto
    from ack_received [OF n'(2,4), of "sg_ts seg"] n' show ?thesis
      unfolding rcv_advance_def run by (intro exI [of _ n']) (auto simp: ack_push_def)
  qed
qed

subsection \<open>Whole packets\<close>

lemma ack_frames [frame_simps]:
  "ack_side (shrink_buf k) = ack_side k" "ack_side (parse_una k una) = ack_side k" "ack_side (parse_ack k sn) = ack_side k"
  "ack_side (parse_fastack k sn ts) = ack_side k" "ack_side (k\<lparr>rmt_wnd := w\<rparr>) = ack_side k"
  "ack_side (k\<lparr>probe := p\<rparr>) = ack_side k" "ack_side (k\<lparr>current := t\<rparr>) = ack_side k"
  "ack_side (k\<lparr>cwnd := c\<rparr>) = ack_side k" "ack_side (k\<lparr>incr := j\<rparr>) = ack_side k"
  by (simp_all add: ack_side_def rcv_side_def shrink_buf_def parse_una_def parse_ack_def parse_fastack_def)

lemma update_ack_ack_side: "update_ack k rtt = Some k' \<Longrightarrow> ack_side k' = ack_side k"
  by (auto simp: update_ack_def clamp_run_def ack_side_def side_defs Let_def split: if_splits prod.splits)

lemma grow_cwnd_ack_side:
  assumes "grow_cwnd k = Some k'"
  shows "ack_side k' = ack_side k"
proof -
  from assms obtain k1 where k1: "grow_incr k = Some k1" "k' = limit_cwnd k1"
    by (auto simp: grow_cwnd_def split: Option.bind_splits)
  from k1(1) have "ack_side k1 = ack_side k"
    by (auto simp: grow_incr_def Let_def frame_simps split: if_splits)
  with k1(2) show ?thesis by (simp add: limit_cwnd_def frame_simps)
qed

lemma input_ack_ack_side:
  assumes "input_ack k vars sn ts = Some (k', vars')"
  shows "ack_side k' = ack_side k"
proof -
  from assms obtain k1 where k1: "(if 0 \<le> timediff (current k) ts then update_ack k (word_of_int (timediff (current k) ts)) else Some k) = Some k1"
    "k' = shrink_buf (parse_ack k1 sn)"
    by (auto simp: input_ack_def Let_def split: Option.bind_splits)
  then have "ack_side k1 = ack_side k" using update_ack_ack_side by (auto split: if_splits)
  with k1(2) show ?thesis by (simp add: frame_simps)
qed

lemma input_segment_ack_side:
  assumes "input_segment k vars hdr data = Some (k', vars')"
  shows "if sg_cmd hdr = KCP_CMD_PUSH
    then \<exists>k1. ack_side k1 = ack_side k \<and> k' = input_push k1 (hdr\<lparr>sg_data := data\<rparr>)
    else ack_side k' = ack_side k"
proof -
  let ?k = "shrink_buf (parse_una (k\<lparr>rmt_wnd := sg_wnd hdr\<rparr>) (sg_una hdr))"
  have "ack_side ?k = ack_side k" by (simp add: frame_simps)
  moreover have "ack_side (?k\<lparr>probe := p\<rparr>) = ack_side ?k" for p by (simp only: frame_simps)
  ultimately show ?thesis
    using assms by (auto simp: input_segment_def Let_def dest!: input_ack_ack_side split: if_splits)
qed

lemma input_segment_advance:
  assumes ok: "rcv_ok L n k" and "length L \<le> 2 ^ 30" and good: "good_segment L R conv seg"
    and run: "input_segment k vars (wire_part seg) (sg_data seg) = Some (k', vars')"
  shows "rcv_advance L n k k'"
proof (cases "sg_cmd seg = KCP_CMD_PUSH")
  case True
  let ?seg = "(wire_part seg)\<lparr>sg_data := sg_data seg\<rparr>"
  have cmd: "sg_cmd (wire_part seg) = sg_cmd seg" by (simp add: wire_part_def)
  from good True obtain i where "matches L seg i" by (auto simp: good_segment_def)
  then have m: "matches L ?seg i" by (simp add: matches_def wire_part_def payload_def segment_default_def)
  from input_segment_ack_side [OF run] True cmd obtain k1 where k1: "ack_side k1 = ack_side k" "k' = input_push k1 ?seg"
    by auto
  have "rcv_advance L n k k1" using ok k1(1) by (rule rcv_advance_refl)
  then show ?thesis unfolding k1(2) by (rule rcv_advance_trans) (rule input_push_advance [OF _ m assms(2)])
next
  case False
  moreover have "sg_cmd (wire_part seg) = sg_cmd seg" by (simp add: wire_part_def)
  ultimately show ?thesis
    using input_segment_ack_side [OF run] rcv_advance_refl [OF ok] by auto
qed

text \<open>A property that every segment of a packet keeps holds of the whole packet.\<close>

lemma input_loop_good:
  assumes "\<forall>seg \<in> set segs. good_segment L R (kc_conv k) seg" and "I k"
    and "input_loop k vars (concat (map segment_encode segs)) = Some (r, k')"
    and step: "\<And>k vars seg k' vars'. good_segment L R (kc_conv k) seg \<Longrightarrow> I k \<Longrightarrow>
      input_segment k vars (wire_part seg) (sg_data seg) = Some (k', vars') \<Longrightarrow> I k'"
  shows "I k'"
  using assms(1-3)
proof (induction segs arbitrary: k vars)
  case Nil
  then show ?case by (simp add: input_loop.simps)
next
  case (Cons seg segs)
  have good: "good_segment L R (kc_conv k) seg" using Cons.prems(1) by simp
  then have "length (sg_data seg) < 2 ^ 32" "sg_conv seg = kc_conv k"
    "sg_cmd seg \<in> {KCP_CMD_PUSH, KCP_CMD_ACK, KCP_CMD_WASK, KCP_CMD_WINS}" by (simp_all add: good_segment_def)
  from input_loop_Cons [OF this, of vars "concat (map segment_encode segs)"] Cons.prems(3)
  obtain k1 vars1 where k1: "input_segment k vars (wire_part seg) (sg_data seg) = Some (k1, vars1)"
    "input_loop k1 vars1 (concat (map segment_encode segs)) = Some (r, k')"
    by (auto split: Option.bind_splits)
  have "kc_conv k1 = kc_conv k" using input_segment_fixed [OF k1(1)] by (simp add: fixed_side_def)
  then have "\<forall>seg \<in> set segs. good_segment L R (kc_conv k1) seg" using Cons.prems(1) by simp
  then show ?case using Cons.IH [OF _ step [OF good Cons.prems(2) k1(1)] k1(2)] by blast
qed

lemma kcp_input_cases:
  assumes "kcp_input k now buf = Some (r, k')"
  obtains (short) "length buf < 28" "r = Inl InvalidSegmentSize" "k' = k"
  | (error) e where "28 \<le> length buf" "input_loop (k\<lparr>current := now\<rparr>)
        \<lparr>iv_flag = False, iv_max_ack = 0, iv_latest_ts = 0\<rparr> buf = Some (Inl e, k')" "r = Inl e"
  | (ok) vars rest k1 k2 where "28 \<le> length buf" "input_loop (k\<lparr>current := now\<rparr>)
        \<lparr>iv_flag = False, iv_max_ack = 0, iv_latest_ts = 0\<rparr> buf = Some (Inr (vars, rest), k1)"
      "k2 = k1 \<or> k2 = parse_fastack k1 (iv_max_ack vars) (iv_latest_ts vars)"
      "k' = k2 \<or> grow_cwnd k2 = Some k'" "r = Inr (length buf - length rest)"
proof (cases "length buf < 28")
  case True
  with assms short show ?thesis by (auto simp: kcp_input_def)
next
  case False
  with assms obtain q k1 where l: "input_loop (k\<lparr>current := now\<rparr>)
        \<lparr>iv_flag = False, iv_max_ack = 0, iv_latest_ts = 0\<rparr> buf = Some (q, k1)"
    by (auto simp: kcp_input_def split: Option.bind_splits)
  show ?thesis
  proof (cases q)
    case (Inl e)
    with False l assms error show ?thesis by (auto simp: kcp_input_def)
  next
    case (Inr b)
    obtain vars rest where b: "b = (vars, rest)" by fastforce
    define k2 where "k2 = (if iv_flag vars \<and> fastresend k1 \<noteq> None then parse_fastack k1 (iv_max_ack vars) (iv_latest_ts vars) else k1)"
    define k3 where "k3 = (if 0 < timediff (snd_una k2) (snd_una k) \<and> cwnd k2 < rmt_wnd k2 then grow_cwnd k2 else Some k2)"
    have "kcp_input k now buf = do { k' \<leftarrow> k3; Some (Inr (length buf - length rest), k') }"
      using False l Inr b unfolding kcp_input_def k3_def k2_def by (simp add: Let_def del: not_None_eq split del: if_split)
    then have "k3 = Some k'" "r = Inr (length buf - length rest)" using assms by (auto split: Option.bind_splits)
    then show ?thesis using ok [of vars rest k1 k2] False l Inr b by (auto simp: k3_def k2_def split: if_splits)
  qed
qed

lemma kcp_input_good:
  assumes "packet_of L R (kc_conv k) buf" and "kcp_input k now buf = Some (r, k')" and "I k"
    and now: "\<And>k. I k \<Longrightarrow> I (k\<lparr>current := now\<rparr>)"
    and step: "\<And>k vars seg k' vars'. good_segment L R (kc_conv k) seg \<Longrightarrow> I k \<Longrightarrow>
      input_segment k vars (wire_part seg) (sg_data seg) = Some (k', vars') \<Longrightarrow> I k'"
    and fast: "\<And>k sn ts. I k \<Longrightarrow> I (parse_fastack k sn ts)"
    and grow: "\<And>k k'. I k \<Longrightarrow> grow_cwnd k = Some k' \<Longrightarrow> I k'"
  shows "I k'"
proof -
  from assms(1) obtain segs where segs: "buf = concat (map segment_encode segs)"
    "\<forall>seg \<in> set segs. good_segment L R (kc_conv (k\<lparr>current := now\<rparr>)) seg" by (auto simp: packet_of_def)
  have loop: "I k1" if "input_loop (k\<lparr>current := now\<rparr>) vars buf = Some (q, k1)" for vars q k1
    using input_loop_good [of segs L R _ I, OF segs(2) now [OF assms(3)]] that step unfolding segs(1) by blast
  from assms(2) show ?thesis
  proof (cases rule: kcp_input_cases)
    case short
    then show ?thesis using assms(3) by simp
  next
    case (error e)
    then show ?thesis using loop by blast
  next
    case (ok vars rest k1 k2)
    have "I k2" using ok(3) loop [OF ok(2)] fast by auto
    then show ?thesis using ok(4) grow by auto
  qed
qed

lemma kcp_input_advance:
  assumes "rcv_ok L n k" and "length L \<le> 2 ^ 30" and "packet_of L R (kc_conv k) buf"
    and "kcp_input k now buf = Some (r, k')"
  shows "rcv_advance L n k k'"
  using assms(3,4)
proof (rule kcp_input_good [where I = "rcv_advance L n k"])
  show "rcv_advance L n k k" using assms(1) by (rule rcv_advance_refl) simp
  have frame: "rcv_advance L n k k2" if "rcv_advance L n k k1" "ack_side k2 = ack_side k1" for k1 k2
    using that(1) by (rule rcv_advance_trans) (rule rcv_advance_refl [OF _ that(2)])
  show "rcv_advance L n k (k1\<lparr>current := now\<rparr>)" if "rcv_advance L n k k1" for k1
    using frame [OF that] by (simp add: frame_simps)
  show "rcv_advance L n k (parse_fastack k1 sn ts)" if "rcv_advance L n k k1" for k1 sn ts
    using frame [OF that] by (simp add: frame_simps)
  show "rcv_advance L n k k2" if "rcv_advance L n k k1" "grow_cwnd k1 = Some k2" for k1 k2
    using frame [OF that(1)] grow_cwnd_ack_side [OF that(2)] by simp
  show "rcv_advance L n k k2" if "good_segment L R (kc_conv k1) seg" "rcv_advance L n k k1"
    "input_segment k1 vars (wire_part seg) (sg_data seg) = Some (k2, vars')" for k1 vars seg k2 vars'
    using that(2) by (rule rcv_advance_trans) (rule input_segment_advance [OF _ assms(2) that(1,3)])
qed

end
