(* ===== verification/Kcp_Send.thy ===== *)
theory Kcp_Send
  imports Kcp_Receive
begin

section \<open>The sending side of KCP\<close>

text \<open>
  \<open>snd_ok L R m\<close> is the invariant of the sender: the first \<open>m\<close> fragments of \<open>L\<close> have been numbered, the rest
  waits in the send queue, and every numbered fragment is still in the send buffer unless its index is
  in \<open>R\<close>, the set the remote side holds.  \<open>io_ok\<close> says that what leaves through the output buffer is a
  concatenation of genuine segments that fits the MTU.  Acknowledgements keep the first, a flush keeps
  both and never fails.
\<close>

subsection \<open>Definitions\<close>

definition sent_segment :: "(u8 \<times> bytes) list \<Rightarrow> nat \<Rightarrow> u64 \<Rightarrow> KcpSegment \<Rightarrow> bool" where
  "sent_segment L m conv seg \<longleftrightarrow> sg_cmd seg = KCP_CMD_PUSH \<and> sg_conv seg = conv \<and> (\<exists>i < m. matches L seg i)"

definition snd_ok :: "(u8 \<times> bytes) list \<Rightarrow> nat set \<Rightarrow> nat \<Rightarrow> Kcp \<Rightarrow> bool" where
  "snd_ok L R m k \<longleftrightarrow> m \<le> length L \<and> snd_nxt k = sn_of m \<and> map payload (snd_queue k) = drop m L \<and>
     (\<forall>seg \<in> set (snd_buf k). sent_segment L m (kc_conv k) seg) \<and>
     (\<forall>i < m. i \<in> R \<or> (\<exists>seg \<in> set (snd_buf k). matches L seg i))"

definition snd_core :: "Kcp \<Rightarrow> u64 \<times> u32 \<times> KcpSegment list \<times> KcpSegment list" where
  "snd_core k = (kc_conv k, snd_nxt k, snd_queue k, snd_buf k)"

definition io_side :: "Kcp \<Rightarrow> bytes \<times> bytes list" where
  "io_side k = (kc_buf k, kc_output k)"

definition same_sent :: "KcpSegment \<Rightarrow> KcpSegment \<Rightarrow> bool" where
  "same_sent seg seg' \<longleftrightarrow> sg_cmd seg' = sg_cmd seg \<and> sg_conv seg' = sg_conv seg \<and> sg_sn seg' = sg_sn seg \<and> payload seg' = payload seg"

definition io_ok :: "(u8 \<times> bytes) list \<Rightarrow> nat set \<Rightarrow> u64 \<Rightarrow> usize \<Rightarrow> bytes \<times> bytes list \<Rightarrow> bool" where
  "io_ok L R conv mtu io \<longleftrightarrow> packet_of L R conv (fst io) \<and> length (fst io) \<le> mtu \<and>
     (\<forall>p \<in> set (snd io). packet_of L R conv p \<and> length p \<le> mtu)"

definition template_ok :: "nat set \<Rightarrow> u64 \<Rightarrow> KcpSegment \<Rightarrow> bool" where
  "template_ok R conv seg \<longleftrightarrow> sg_conv seg = conv \<and> sg_data seg = [] \<and> (\<exists>u. sg_una seg = sn_of u \<and> {..<u} \<subseteq> R)"

definition frags_fit :: "usize \<Rightarrow> (u8 \<times> bytes) list \<Rightarrow> bool" where
  "frags_fit mtu L \<longleftrightarrow> 28 \<le> mtu \<and> mtu < 2 ^ 32 \<and> (\<forall>x \<in> set L. length (snd x) + 28 \<le> mtu)"

definition out_ok :: "(u8 \<times> bytes) list \<Rightarrow> nat set \<Rightarrow> Kcp \<Rightarrow> bool" where
  "out_ok L R k \<longleftrightarrow> io_ok L R (kc_conv k) (kc_mtu k) (io_side k)"

definition local_side :: "Kcp \<Rightarrow> fixed_part \<times> (u32 \<times> u16 \<times> KcpSegment list \<times> KcpSegment list)" where
  "local_side k = (fixed_side k, rcv_side k)"

subsection \<open>Acknowledgements forget only what arrived\<close>

lemma snd_ok_core: "snd_core k' = snd_core k \<Longrightarrow> snd_ok L R m k' = snd_ok L R m k"
  by (simp add: snd_core_def snd_ok_def)

lemma sides_core: "snd_side k' = snd_side k \<Longrightarrow> fixed_side k' = fixed_side k \<Longrightarrow> snd_core k' = snd_core k"
  by (simp add: snd_core_def side_defs)

lemma snd_ok_forget:
  assumes "snd_ok L R m k" and "snd_core (k'\<lparr>snd_buf := snd_buf k\<rparr>) = snd_core k" and "set (snd_buf k') \<subseteq> set (snd_buf k)"
    and "\<And>seg i. seg \<in> set (snd_buf k) \<Longrightarrow> seg \<notin> set (snd_buf k') \<Longrightarrow> matches L seg i \<Longrightarrow> i < m \<Longrightarrow> i \<in> R"
  shows "snd_ok L R m k'"
  using assms unfolding snd_ok_def snd_core_def by simp blast

lemma dropWhile_left: "x \<in> set xs \<Longrightarrow> x \<notin> set (dropWhile P xs) \<Longrightarrow> P x"
  by (metis Un_iff set_append set_takeWhileD takeWhile_dropWhile_id)

lemma parse_una_ok:
  assumes ok: "snd_ok L R m k" and "length L \<le> 2 ^ 30" "R \<subseteq> {..<length L}" "{..<u} \<subseteq> R"
  shows "snd_ok L R m (parse_una k (sn_of u))"
  using ok
proof (rule snd_ok_forget)
  show "snd_core ((parse_una k (sn_of u))\<lparr>snd_buf := snd_buf k\<rparr>) = snd_core k"
    "set (snd_buf (parse_una k (sn_of u))) \<subseteq> set (snd_buf k)"
    by (auto simp: parse_una_def snd_core_def dest: set_dropWhileD)
  fix seg i assume seg: "seg \<in> set (snd_buf k)" "seg \<notin> set (snd_buf (parse_una k (sn_of u)))" "matches L seg i" "i < m"
  have "{..<u} \<subseteq> {..<length L}" using assms(4,3) by (rule subset_trans)
  then have u: "u \<le> length L" by simp
  have i: "i < length L" "sg_sn seg = sn_of i" using seg(3) by (simp_all add: matches_def)
  have "timediff (sn_of u) (sg_sn seg) = int u - int i"
    unfolding i(2) using i(1) u assms(2) by (intro timediff_sn) simp_all
  moreover have "0 < timediff (sn_of u) (sg_sn seg)"
    using dropWhile_left [OF seg(1), of "\<lambda>seg. 0 < timediff (sn_of u) (sg_sn seg)"] seg(2) by (simp add: parse_una_def)
  ultimately show "i \<in> R" using assms(4) by (simp add: subset_iff)
qed

lemma set_remove_acked:
  "set (remove_acked sn xs) \<subseteq> set xs" "x \<in> set xs \<Longrightarrow> x \<notin> set (remove_acked sn xs) \<Longrightarrow> sg_sn x = sn"
  by (induction sn xs rule: remove_acked.induct) (auto split: if_splits)

lemma parse_ack_ok:
  assumes ok: "snd_ok L R m k" and "length L \<le> 2 ^ 30" "R \<subseteq> {..<length L}" "j \<in> R"
  shows "snd_ok L R m (parse_ack k (sn_of j))"
  using ok
proof (rule snd_ok_forget)
  show "snd_core ((parse_ack k (sn_of j))\<lparr>snd_buf := snd_buf k\<rparr>) = snd_core k"
    "set (snd_buf (parse_ack k (sn_of j))) \<subseteq> set (snd_buf k)"
    using set_remove_acked(1) by (auto simp: parse_ack_def snd_core_def)
  fix seg i assume seg: "seg \<in> set (snd_buf k)" "seg \<notin> set (snd_buf (parse_ack k (sn_of j)))" "matches L seg i" "i < m"
  have "sg_sn seg = sn_of j"
    using seg(2) set_remove_acked(2) [OF seg(1), of "sn_of j"] seg(1) by (simp add: parse_ack_def split: if_splits)
  moreover have "j < length L" using assms(3,4) by blast
  moreover have "i < length L" "sg_sn seg = sn_of i" using seg(3) by (simp_all add: matches_def)
  ultimately have "i = j" using assms(2) sn_of_eq [of i j] by simp
  with assms(4) show "i \<in> R" by simp
qed

lemma same_sent_ok: "same_sent seg seg' \<Longrightarrow> sent_segment L m conv seg' = sent_segment L m conv seg \<and> matches L seg' i = matches L seg i"
  by (auto simp: same_sent_def sent_segment_def matches_def)

lemma snd_ok_same:
  assumes "snd_ok L R m k" and "snd_core (k'\<lparr>snd_buf := snd_buf k\<rparr>) = snd_core k" and l: "list_all2 same_sent (snd_buf k) (snd_buf k')"
  shows "snd_ok L R m k'"
proof -
  have fwd: "\<exists>seg' \<in> set (snd_buf k'). same_sent seg seg'" if "seg \<in> set (snd_buf k)" for seg
    using l that by (metis (no_types, lifting) list_all2_conv_all_nth in_set_conv_nth)
  have bwd: "\<exists>seg \<in> set (snd_buf k). same_sent seg seg'" if "seg' \<in> set (snd_buf k')" for seg'
    using l that by (metis (no_types, lifting) list_all2_conv_all_nth in_set_conv_nth)
  from assms(1,2) fwd bwd show ?thesis
    unfolding snd_ok_def snd_core_def by simp (meson same_sent_ok)
qed

lemma count_fastack_same: "list_all2 same_sent xs (count_fastack sn ts xs)"
proof (induction sn ts xs rule: count_fastack.induct)
  case (2 sn ts seg rest)
  have "list_all2 same_sent xs xs" for xs by (rule list_all2_refl) (simp add: same_sent_def)
  moreover have "same_sent seg seg" "same_sent seg (seg\<lparr>sg_fastack := f\<rparr>)" for f by (simp_all add: same_sent_def payload_def)
  ultimately show ?case using 2 by simp
qed simp

lemma parse_fastack_ok: "snd_ok L R m k \<Longrightarrow> snd_ok L R m (parse_fastack k sn ts)"
proof (cases "timediff sn (snd_una k) < 0 \<or> 0 \<le> timediff sn (snd_nxt k)")
  case False
  assume "snd_ok L R m k"
  then show ?thesis
    by (rule snd_ok_same) (use False count_fastack_same in \<open>simp_all add: parse_fastack_def snd_core_def\<close>)
qed (simp add: parse_fastack_def)

lemma input_ackE:
  assumes "input_ack k vars sn ts = Some (k', vars')"
  obtains k1 where "k1 = k \<or> (\<exists>rtt. update_ack k rtt = Some k1)" "k' = shrink_buf (parse_ack k1 sn)"
proof -
  from assms obtain k1 where k1: "(if 0 \<le> timediff (current k) ts then update_ack k (word_of_int (timediff (current k) ts)) else Some k) = Some k1"
    "k' = shrink_buf (parse_ack k1 sn)"
    by (auto simp: input_ack_def Let_def split: Option.bind_splits)
  moreover have "k1 = k \<or> (\<exists>rtt. update_ack k rtt = Some k1)" using k1(1) by (auto split: if_splits)
  ultimately show ?thesis using that by blast
qed

lemma shrink_buf_core: "snd_core (shrink_buf k) = snd_core k"
  by (rule sides_core) (simp_all add: frame_simps)

lemma input_segmentE:
  fixes k :: Kcp
  assumes "input_segment k vars hdr data = Some (k', vars')"
  defines "k0 \<equiv> shrink_buf (parse_una (k\<lparr>rmt_wnd := sg_wnd hdr\<rparr>) (sg_una hdr))"
  obtains (ack) "sg_cmd hdr = KCP_CMD_ACK" "input_ack k0 vars (sg_sn hdr) (sg_ts hdr) = Some (k', vars')"
    | (push) "sg_cmd hdr = KCP_CMD_PUSH" "k' = input_push k0 (hdr\<lparr>sg_data := data\<rparr>)"
    | (probe) p where "k' = k0\<lparr>probe := p\<rparr>"
    | (none) "k' = k0"
proof -
  have run: "(if sg_cmd hdr = KCP_CMD_ACK then input_ack k0 vars (sg_sn hdr) (sg_ts hdr)
      else if sg_cmd hdr = KCP_CMD_PUSH then Some (input_push k0 (hdr\<lparr>sg_data := data\<rparr>), vars)
      else if sg_cmd hdr = KCP_CMD_WASK then Some (k0\<lparr>probe := probe k0 OR KCP_ASK_TELL\<rparr>, vars)
      else Some (k0, vars)) = Some (k', vars')"
    using assms(1) unfolding input_segment_def Let_def k0_def .
  show ?thesis
  proof (cases "sg_cmd hdr = KCP_CMD_ACK")
    case True
    then show ?thesis using run by (intro ack) simp_all
  next
    case other: False
    show ?thesis
    proof (cases "sg_cmd hdr = KCP_CMD_PUSH")
      case True
      then show ?thesis using run by (intro push) simp_all
    next
      case False
      with other run have "k' = k0\<lparr>probe := probe k0 OR KCP_ASK_TELL\<rparr> \<or> k' = k0"
        by (simp split: if_splits)
      then show ?thesis using probe none by blast
    qed
  qed
qed

lemma input_segment_snd:
  assumes ok: "snd_ok L R m k" and "length L \<le> 2 ^ 30" "R \<subseteq> {..<length L}"
    and good: "good_segment L' R conv seg"
    and run: "input_segment k vars (wire_part seg) (sg_data seg) = Some (k', vars')"
  shows "snd_ok L R m k'"
proof -
  let ?k = "shrink_buf (parse_una (k\<lparr>rmt_wnd := sg_wnd (wire_part seg)\<rparr>) (sg_una (wire_part seg)))"
  from good obtain u where u: "sg_una (wire_part seg) = sn_of u" "{..<u} \<subseteq> R" by (auto simp: good_segment_def wire_part_def)
  have "snd_ok L R m (k\<lparr>rmt_wnd := sg_wnd (wire_part seg)\<rparr>)" using ok by (simp add: snd_ok_def)
  from parse_una_ok [OF this assms(2,3) u(2)] have ok1: "snd_ok L R m ?k"
    unfolding u(1) by (simp only: snd_ok_core [OF shrink_buf_core])
  from run show ?thesis
  proof (cases rule: input_segmentE)
    case ack
    with good obtain j where j: "j \<in> R" "sg_sn (wire_part seg) = sn_of j" by (auto simp: good_segment_def wire_part_def)
    from ack(2) obtain k1 where k1: "k1 = ?k \<or> (\<exists>rtt. update_ack ?k rtt = Some k1)" "k' = shrink_buf (parse_ack k1 (sn_of j))"
      unfolding j(2) by (rule input_ackE)
    from k1(1) have "snd_core k1 = snd_core ?k" using update_ack_frame sides_core by blast
    then have "snd_ok L R m k1" using ok1 snd_ok_core by blast
    from parse_ack_ok [OF this assms(2,3) j(1)] show ?thesis
      unfolding k1(2) by (simp only: snd_ok_core [OF shrink_buf_core])
  next
    case push
    have "snd_core k' = snd_core ?k" unfolding push(2) by (rule sides_core) (simp_all only: frame_simps)
    then show ?thesis using ok1 snd_ok_core by blast
  next
    case (probe p)
    have "snd_core k' = snd_core ?k" unfolding probe by (simp add: snd_core_def)
    then show ?thesis using ok1 snd_ok_core by blast
  next
    case none
    then show ?thesis using ok1 by simp
  qed
qed

lemma kcp_input_snd:
  assumes "snd_ok L R m k" and "length L \<le> 2 ^ 30" "R \<subseteq> {..<length L}"
    and "packet_of L' R (kc_conv k) buf" and "kcp_input k now buf = Some (r, k')"
  shows "snd_ok L R m k'"
  using assms(4,5,1)
proof (rule kcp_input_good)
  show "snd_ok L R m (k1\<lparr>current := now\<rparr>)" if "snd_ok L R m k1" for k1
    using that by (simp add: snd_ok_def)
  show "snd_ok L R m k2" if "snd_ok L R m k1" "grow_cwnd k1 = Some k2" for k1 k2
    using that(1) grow_cwnd_frame [OF that(2)] snd_ok_core [of k2 k1] sides_core by blast
  show "snd_ok L R m k2" if "good_segment L' R (kc_conv k1) seg" "snd_ok L R m k1"
    "input_segment k1 vars (wire_part seg) (sg_data seg) = Some (k2, vars')" for k1 vars seg k2 vars'
    by (rule input_segment_snd [OF that(2) assms(2,3) that(1,3)])
qed (rule parse_fastack_ok)

lemma io_frames [frame_simps]:
  "io_side (shrink_buf k) = io_side k" "io_side (parse_una k una) = io_side k" "io_side (parse_ack k sn) = io_side k"
  "io_side (parse_fastack k sn ts) = io_side k" "io_side (k\<lparr>rmt_wnd := w\<rparr>) = io_side k"
  "io_side (k\<lparr>probe := p\<rparr>) = io_side k" "io_side (k\<lparr>current := t\<rparr>) = io_side k"
  by (simp_all add: io_side_def shrink_buf_def parse_una_def parse_ack_def parse_fastack_def)

lemma snd_side_io: "snd_side k' = snd_side k \<Longrightarrow> io_side k' = io_side k"
  by (simp add: snd_side_def io_side_def)

lemma input_segment_io:
  assumes "input_segment k vars hdr data = Some (k', vars')"
  shows "io_side k' = io_side k"
proof -
  let ?k = "shrink_buf (parse_una (k\<lparr>rmt_wnd := sg_wnd hdr\<rparr>) (sg_una hdr))"
  have k: "io_side ?k = io_side k" by (simp only: frame_simps)
  from assms show ?thesis
  proof (cases rule: input_segmentE)
    case ack
    from ack(2) obtain k1 where k1: "k1 = ?k \<or> (\<exists>rtt. update_ack ?k rtt = Some k1)" "k' = shrink_buf (parse_ack k1 (sg_sn hdr))"
      by (rule input_ackE)
    then have "io_side k1 = io_side ?k" using update_ack_frame snd_side_io by blast
    then show ?thesis unfolding k1(2) using k by (simp only: frame_simps)
  next
    case push
    have "io_side k' = io_side ?k" unfolding push(2) by (rule snd_side_io) (simp only: frame_simps)
    with k show ?thesis by simp
  qed (simp_all only: frame_simps)
qed

lemma kcp_input_io:
  assumes "packet_of L R (kc_conv k) buf" and "kcp_input k now buf = Some (r, k')"
  shows "io_side k' = io_side k"
  using assms
proof (rule kcp_input_good [where I = "\<lambda>k'. io_side k' = io_side k"])
  show "io_side k2 = io_side k" if "io_side k1 = io_side k" "grow_cwnd k1 = Some k2" for k1 k2
    using that(1) grow_cwnd_frame [OF that(2)] snd_side_io by metis
  show "io_side k2 = io_side k" if "io_side k1 = io_side k" "input_segment k1 vars (wire_part seg) (sg_data seg) = Some (k2, vars')"
    for k1 vars seg k2 vars' using that input_segment_io by metis
qed (simp_all add: frame_simps)

subsection \<open>Output\<close>

lemma packet_of_Nil [simp]: "packet_of L R conv []"
  unfolding packet_of_def by (rule exI [of _ "[]"]) simp

lemma packet_of_snoc:
  assumes "packet_of L R conv p" "good_segment L R conv seg"
  shows "packet_of L R conv (p @ segment_encode seg)"
proof -
  from assms(1) obtain segs where segs: "p = concat (map segment_encode segs)" "\<forall>seg \<in> set segs. good_segment L R conv seg"
    by (auto simp: packet_of_def)
  with assms(2) have "p @ segment_encode seg = concat (map segment_encode (segs @ [seg]))"
    "\<forall>s \<in> set (segs @ [seg]). good_segment L R conv s" by simp_all
  then show ?thesis unfolding packet_of_def by blast
qed

lemma good_segment_mono:
  assumes "good_segment L R conv seg" "R \<subseteq> R'"
  shows "good_segment (L @ L') R' conv seg"
proof -
  from assms(1) obtain u where u: "sg_una seg = sn_of u" "{..<u} \<subseteq> R" by (auto simp: good_segment_def)
  have "{..<u} \<subseteq> R'" using u(2) assms(2) by (rule subset_trans)
  moreover have "\<exists>i. matches (L @ L') seg i" if "\<exists>i. matches L seg i" using that matches_append by blast
  moreover have "\<exists>i \<in> R'. sg_sn seg = sn_of i" if "\<exists>i \<in> R. sg_sn seg = sn_of i" using that assms(2) by blast
  ultimately show ?thesis using assms(1) u(1) unfolding good_segment_def by blast
qed

lemma packet_of_mono: "packet_of L R conv p \<Longrightarrow> R \<subseteq> R' \<Longrightarrow> packet_of (L @ L') R' conv p"
  using good_segment_mono unfolding packet_of_def by blast

lemma io_ok_mono: "io_ok L R conv mtu io \<Longrightarrow> R \<subseteq> R' \<Longrightarrow> io_ok (L @ L') R' conv mtu io"
  using packet_of_mono unfolding io_ok_def by blast

lemma emit_output_ok: "io_ok L R conv mtu io \<Longrightarrow> io_ok L R conv mtu (emit_output io) \<and> fst (emit_output io) = []"
  by (cases io) (auto simp: emit_output_def io_ok_def)

lemma append_segment_ok:
  assumes ok: "io_ok L R conv mtu io" and good: "good_segment L R conv seg"
    and need: "need = 28 + length (sg_data seg)" "need \<le> mtu"
  shows "io_ok L R conv mtu (append_segment mtu need seg io)"
proof -
  define io1 where "io1 = (if mtu < length (fst io) + need then emit_output io else io)"
  have ok1: "io_ok L R conv mtu io1" "length (fst io1) + need \<le> mtu"
    using emit_output_ok [OF ok] ok need(2) by (auto simp: io1_def)
  have "append_segment mtu need seg io = (fst io1 @ segment_encode seg, snd io1)"
    by (simp add: append_segment_def io1_def split: prod.splits)
  moreover have "packet_of L R conv (fst io1 @ segment_encode seg)"
    using packet_of_snoc ok1(1) good by (simp add: io_ok_def)
  ultimately show ?thesis using ok1 need(1) by (simp add: io_ok_def)
qed

lemma template_good:
  assumes "template_ok R conv seg" and "sg_cmd seg = KCP_CMD_ACK \<Longrightarrow> \<exists>i \<in> R. sg_sn seg = sn_of i"
    and "sg_cmd seg \<in> {KCP_CMD_ACK, KCP_CMD_WASK, KCP_CMD_WINS}"
  shows "good_segment L R conv seg"
  using assms by (auto simp: template_ok_def good_segment_def)

lemma flush_acks_ok:
  assumes "\<forall>(sn, ts) \<in> set acks. \<exists>i \<in> R. sn = sn_of i" and "io_ok L R conv mtu io" and "template_ok R conv seg"
    and "sg_cmd seg = KCP_CMD_ACK" and "28 \<le> mtu"
    and "fold (\<lambda>(sn, ts) (io, seg). let seg' = seg\<lparr>sg_sn := sn, sg_ts := ts\<rparr>
            in (append_segment mtu KCP_OVERHEAD seg' io, seg')) acks (io, seg) = (io', seg')"
  shows "io_ok L R conv mtu io' \<and> template_ok R conv seg' \<and> sg_wnd seg' = sg_wnd seg"
  using assms
proof (induction acks arbitrary: io seg)
  case (Cons a acks)
  obtain sn ts where a: "a = (sn, ts)" by fastforce
  let ?seg = "seg\<lparr>sg_sn := sn, sg_ts := ts\<rparr>"
  have t: "template_ok R conv ?seg" "sg_cmd ?seg = KCP_CMD_ACK" using Cons.prems(3,4) by (simp_all add: template_ok_def)
  have "good_segment L R conv ?seg" using t Cons.prems(1) a by (intro template_good) auto
  from append_segment_ok [OF Cons.prems(2) this, of 28] t Cons.prems(5)
  have "io_ok L R conv mtu (append_segment mtu KCP_OVERHEAD ?seg io)" by (simp add: template_ok_def)
  from Cons.IH [OF _ this t] Cons.prems a show ?case by (simp add: Let_def)
qed simp

lemma flush_ack_ok:
  assumes "rcv_ok L' n k" and "io_ok L (received L' n k) (kc_conv k) (kc_mtu k) (io_side k)"
    and "template_ok (received L' n k) (kc_conv k) seg" "sg_cmd seg = KCP_CMD_ACK" "28 \<le> kc_mtu k"
    and "flush_ack k seg = (k', seg')"
  shows "io_ok L (received L' n k) (kc_conv k) (kc_mtu k) (io_side k') \<and> template_ok (received L' n k) (kc_conv k) seg' \<and>
    k' = with_io (k\<lparr>acklist := []\<rparr>) (io_side k') \<and> sg_wnd seg' = sg_wnd seg"
proof -
  obtain io' s' where f: "fold (\<lambda>(sn, ts) (io, seg). let seg' = seg\<lparr>sg_sn := sn, sg_ts := ts\<rparr>
            in (append_segment (kc_mtu k) KCP_OVERHEAD seg' io, seg')) (acklist k) (io_side k, seg) = (io', s')"
    by fastforce
  with assms(6) have k': "k' = with_io (k\<lparr>acklist := []\<rparr>) io'" "seg' = s'" by (simp_all add: flush_ack_def io_side_def)
  moreover have "io_side k' = io'" by (simp add: k' with_io_def io_side_def)
  moreover note flush_acks_ok [OF _ assms(2,3,4,5) f] assms(1)
  ultimately show ?thesis by (simp add: rcv_ok_def)
qed

lemma flush_probe_command_ok:
  assumes "io_ok L R (kc_conv k) (kc_mtu k) (io_side k)" and "template_ok R (kc_conv k) seg" "28 \<le> kc_mtu k"
    and "cmd \<in> {KCP_CMD_WASK, KCP_CMD_WINS}" and "flush_probe_command k cmd seg = (k', seg')"
  shows "io_ok L R (kc_conv k) (kc_mtu k) (io_side k') \<and> template_ok R (kc_conv k) seg' \<and> k' = with_io k (io_side k') \<and>
    sg_wnd seg' = sg_wnd seg"
proof -
  have t: "template_ok R (kc_conv k) (seg\<lparr>sg_cmd := cmd\<rparr>)" using assms(2) by (simp add: template_ok_def)
  then have "good_segment L R (kc_conv k) (seg\<lparr>sg_cmd := cmd\<rparr>)" using assms(4) by (intro template_good) auto
  from append_segment_ok [OF assms(1) this, of 28] t assms(3,5) show ?thesis
    by (auto simp: flush_probe_command_def Let_def template_ok_def with_io_def io_side_def)
qed

lemma with_io_simps [simp]: "io_side (with_io k io) = io" "kc_conv (with_io k io) = kc_conv k" "kc_mtu (with_io k io) = kc_mtu k"
  "with_io (with_io k io) io' = with_io k io'" "with_io k (io_side k) = k" "probe (with_io k io) = probe k"
  "(with_io k io)\<lparr>probe := p\<rparr> = with_io (k\<lparr>probe := p\<rparr>) io"
  by (simp_all add: with_io_def io_side_def)

lemma flush_probe_commands_ok:
  assumes "io_ok L R (kc_conv k) (kc_mtu k) (io_side k)" and "template_ok R (kc_conv k) seg" "28 \<le> kc_mtu k"
    and run: "flush_probe_commands k seg = (k', seg')"
  shows "io_ok L R (kc_conv k) (kc_mtu k) (io_side k') \<and> k' = with_io (k\<lparr>probe := 0\<rparr>) (io_side k') \<and> sg_wnd seg' = sg_wnd seg"
proof -
  obtain k1 s1 where k1: "(if probe k AND KCP_ASK_SEND \<noteq> 0 then flush_probe_command k KCP_CMD_WASK seg else (k, seg)) = (k1, s1)" by fastforce
  obtain k2 s2 where k2: "(if probe k1 AND KCP_ASK_TELL \<noteq> 0 then flush_probe_command k1 KCP_CMD_WINS s1 else (k1, s1)) = (k2, s2)" by fastforce
  have 1: "io_ok L R (kc_conv k) (kc_mtu k) (io_side k1) \<and> template_ok R (kc_conv k) s1 \<and> k1 = with_io k (io_side k1) \<and> sg_wnd s1 = sg_wnd seg"
    using flush_probe_command_ok [OF assms(1-3), of KCP_CMD_WASK k1 s1] k1 assms(1,2) by (auto split: if_splits)
  then have c: "kc_conv k1 = kc_conv k" "kc_mtu k1 = kc_mtu k" by (metis with_io_simps(2,3))+
  have 2: "io_ok L R (kc_conv k) (kc_mtu k) (io_side k2) \<and> k2 = with_io k1 (io_side k2) \<and> sg_wnd s2 = sg_wnd seg"
    using flush_probe_command_ok [of L R k1 s1 KCP_CMD_WINS k2 s2] 1 k2 assms(3) c by (auto split: if_splits)
  have "(k', seg') = (k2\<lparr>probe := 0\<rparr>, s2)"
    using run unfolding flush_probe_commands_def k1 Let_def prod.case k2 by simp
  moreover have "k2 = with_io k (io_side k2)" using 1 2 by (metis with_io_simps(4))
  then have "k2\<lparr>probe := 0\<rparr> = with_io (k\<lparr>probe := 0\<rparr>) (io_side k2)" by (metis with_io_simps(7))
  ultimately have "k' = with_io (k\<lparr>probe := 0\<rparr>) (io_side k2)" "seg' = s2" by simp_all
  with 2 show ?thesis by simp
qed

lemma admit_segments_ok:
  assumes "admit_segments k win wnd queue (sn_of m) = (admitted, left, nxt)" and "map payload queue = drop m L" and "m \<le> length L"
  shows "nxt = sn_of (m + length admitted) \<and> m + length admitted \<le> length L \<and> map payload left = drop (m + length admitted) L \<and>
    (\<forall>j < length admitted. matches L (admitted ! j) (m + j)) \<and>
    (\<forall>seg \<in> set admitted. sg_cmd seg = KCP_CMD_PUSH \<and> sg_conv seg = kc_conv k)"
  using assms
proof (induction queue arbitrary: m admitted)
  case (Cons seg queue)
  show ?case
  proof (cases "timediff (sn_of m) (snd_una k + ucast win) < 0")
    case True
    let ?seg = "seg\<lparr>sg_conv := kc_conv k, sg_cmd := KCP_CMD_PUSH, sg_wnd := wnd, sg_ts := current k,
                 sg_sn := sn_of m, sg_una := rcv_nxt k, sg_resendts := current k, sg_rto := rx_rto k,
                 sg_fastack := 0, sg_xmit := 0\<rparr>"
    have next_sn: "sn_of m + 1 = sn_of (Suc m)" by (simp add: sn_of_def)
    from Cons.prems(1) True obtain rest where rest: "admit_segments k win wnd queue (sn_of (Suc m)) = (rest, left, nxt)"
      "admitted = ?seg # rest"
      by (auto simp: Let_def next_sn split: prod.splits)
    have m: "m < length L" using Cons.prems(2) by (metis drop_eq_Nil2 linorder_not_less list.distinct(1) list.simps(9))
    then have "payload seg = L ! m" "map payload queue = drop (Suc m) L"
      using Cons.prems(2) by (simp_all add: Cons_nth_drop_Suc [symmetric])
    moreover from this have "matches L ?seg m" using m by (simp add: matches_def payload_def)
    moreover note Cons.IH [OF rest(1)] m
    ultimately show ?thesis unfolding rest(2) by (auto simp: nth_Cons split: nat.splits)
  next
    case False
    with Cons.prems show ?thesis by simp
  qed
qed simp

lemma transmit_decision_same: "transmit_decision k seg = Some (seg', b) \<Longrightarrow> same_sent seg seg'"
  by (auto simp: transmit_decision_def same_sent_def payload_def Let_def split: if_splits)

lemma flush_segment_ok:
  assumes "sent_segment L m (kc_conv k) seg" and "length (sg_data seg) + 28 \<le> kc_mtu k" "kc_mtu k < 2 ^ 32"
    and "rcv_nxt k = sn_of n" "{..<n} \<subseteq> R" and "io_ok L R (kc_conv k) (kc_mtu k) (fv_io vars)"
    and run: "flush_segment k wnd seg vars = (seg', vars')"
  shows "same_sent seg seg' \<and> io_ok L R (kc_conv k) (kc_mtu k) (fv_io vars')"
proof (cases "transmit_decision k seg")
  case None
  with run assms(6) show ?thesis by (simp add: flush_segment_def same_sent_def)
next
  case (Some d)
  obtain seg1 b c where d: "d = (seg1, b, c)" by (metis prod_cases3)
  let ?seg = "seg1\<lparr>sg_ts := current k, sg_wnd := wnd, sg_una := rcv_nxt k\<rparr>"
  have s: "same_sent seg ?seg" using transmit_decision_same Some d by (auto simp: same_sent_def payload_def)
  then have len: "length (sg_data ?seg) = length (sg_data seg)" by (simp add: same_sent_def payload_def)
  have "sent_segment L m (kc_conv k) ?seg" using same_sent_ok [OF s] assms(1) by simp
  then have "good_segment L R (kc_conv k) ?seg"
    using len assms(2-5) by (auto simp: good_segment_def sent_segment_def)
  from append_segment_ok [OF assms(6) this] len assms(2)
  have "io_ok L R (kc_conv k) (kc_mtu k) (append_segment (kc_mtu k) (28 + length (sg_data ?seg)) ?seg (fv_io vars))" by simp
  with run Some d s show ?thesis by (auto simp: flush_segment_def Let_def)
qed

lemma flush_segments_ok:
  assumes "\<forall>seg \<in> set segs. sent_segment L m (kc_conv k) seg \<and> length (sg_data seg) + 28 \<le> kc_mtu k" "kc_mtu k < 2 ^ 32"
    and "rcv_nxt k = sn_of n" "{..<n} \<subseteq> R" and "io_ok L R (kc_conv k) (kc_mtu k) (fv_io vars)"
    and "flush_segments k wnd segs vars = (segs', vars')"
  shows "list_all2 same_sent segs segs' \<and> io_ok L R (kc_conv k) (kc_mtu k) (fv_io vars')"
  using assms(1,5,6)
proof (induction segs arbitrary: vars segs' vars')
  case (Cons seg segs)
  obtain s1 v1 where 1: "flush_segment k wnd seg vars = (s1, v1)" by fastforce
  obtain r2 v2 where 2: "flush_segments k wnd segs v1 = (r2, v2)" by fastforce
  have "same_sent seg s1 \<and> io_ok L R (kc_conv k) (kc_mtu k) (fv_io v1)"
    using Cons.prems(1) by (intro flush_segment_ok [OF _ _ assms(2-4) Cons.prems(2) 1]) auto
  with Cons.IH [OF _ _ 2] Cons.prems 1 2 show ?case by auto
qed simp

lemma flush_segments_change:
  assumes "flush_segments k wnd segs vars = (segs', vars')" and "fv_change vars < fv_change vars'"
  shows "fastresend k \<noteq> None"
  using assms
proof (induction segs arbitrary: vars segs' vars')
  case (Cons seg segs)
  obtain s1 v1 where 1: "flush_segment k wnd seg vars = (s1, v1)" by fastforce
  obtain r2 v2 where 2: "flush_segments k wnd segs v1 = (r2, v2)" by fastforce
  have "fastresend k = None \<Longrightarrow> fv_change v1 = fv_change vars"
    using 1 by (auto simp: flush_segment_def transmit_decision_def Let_def split: if_splits option.splits)
  moreover have "vars' = v2" using Cons.prems(1) 1 2 by simp
  ultimately show ?case using Cons.IH [OF 2] Cons.prems(2) by fastforce
qed simp

subsection \<open>Flush\<close>

lemma flush_congestion_frame:
  assumes "0 < change \<longrightarrow> fastresend k \<noteq> None"
  shows "\<exists>k'. flush_congestion k win lost change = Some k' \<and> ack_side k' = ack_side k \<and> local_side k' = local_side k \<and>
    snd_core k' = snd_core k \<and> io_side k' = io_side k"
  using assms unfolding flush_congestion_def Let_def
  by (auto simp: ack_side_def local_side_def side_defs snd_core_def io_side_def)

lemma probe_wnd_size_frame:
  "ack_side (probe_wnd_size k) = ack_side k" "local_side (probe_wnd_size k) = local_side k"
  "snd_core (probe_wnd_size k) = snd_core k" "io_side (probe_wnd_size k) = io_side k"
  by (simp_all add: probe_wnd_size_def ack_side_def local_side_def side_defs snd_core_def io_side_def Let_def)

lemma with_io_frame: "ack_side (with_io k io) = ack_side k" "local_side (with_io k io) = local_side k" "snd_core (with_io k io) = snd_core k"
  by (simp_all add: with_io_def ack_side_def local_side_def side_defs snd_core_def)

lemma sent_fits:
  assumes "frags_fit mtu L" "sent_segment L m conv seg"
  shows "length (sg_data seg) + 28 \<le> mtu"
proof -
  from assms(2) obtain i where "i < length L" "payload seg = L ! i" by (auto simp: sent_segment_def matches_def)
  then have "payload seg \<in> set L" by simp
  with assms(1) show ?thesis by (auto simp: frags_fit_def payload_def)
qed

lemma snd_ok_admit:
  assumes ok: "snd_ok L R m k" and adm: "admit_segments k win wnd (snd_queue k) (snd_nxt k) = (admitted, left, nxt)"
  shows "snd_ok L R (m + length admitted) (k\<lparr>snd_queue := left, snd_buf := snd_buf k @ admitted, snd_nxt := nxt\<rparr>)"
proof -
  from ok have nxt: "snd_nxt k = sn_of m" "map payload (snd_queue k) = drop m L" "m \<le> length L"
    and buf: "\<forall>seg \<in> set (snd_buf k). sent_segment L m (kc_conv k) seg"
    and cov: "\<forall>i < m. i \<in> R \<or> (\<exists>seg \<in> set (snd_buf k). matches L seg i)" by (simp_all add: snd_ok_def)
  let ?m = "m + length admitted"
  from admit_segments_ok [OF adm [unfolded nxt(1)] nxt(2,3)] have a: "nxt = sn_of ?m" "?m \<le> length L" "map payload left = drop ?m L"
    and a4: "\<And>j. j < length admitted \<Longrightarrow> matches L (admitted ! j) (m + j)"
    and a5: "\<And>seg. seg \<in> set admitted \<Longrightarrow> sg_cmd seg = KCP_CMD_PUSH \<and> sg_conv seg = kc_conv k" by blast+
  have "sent_segment L ?m (kc_conv k) seg" if "seg \<in> set (snd_buf k @ admitted)" for seg
  proof (cases "seg \<in> set admitted")
    case True
    then obtain j where "j < length admitted" "seg = admitted ! j" by (metis in_set_conv_nth)
    then have "\<exists>i < ?m. matches L seg i" using a4 by (intro exI [of _ "m + j"]) simp
    with a5 [OF True] show ?thesis by (simp only: sent_segment_def simp_thms)
  next
    case False
    then have "sent_segment L m (kc_conv k) seg" using that buf by simp
    then show ?thesis unfolding sent_segment_def by (meson trans_less_add1)
  qed
  moreover have "i \<in> R \<or> (\<exists>seg \<in> set (snd_buf k @ admitted). matches L seg i)" if "i < ?m" for i
  proof (cases "i < m")
    case True
    with cov show ?thesis unfolding set_append by blast
  next
    case False
    then have "matches L (admitted ! (i - m)) i" "admitted ! (i - m) \<in> set admitted" using a4 [of "i - m"] that by simp_all
    then show ?thesis unfolding set_append by blast
  qed
  ultimately show ?thesis using a unfolding snd_ok_def by simp
qed

lemma flush_head_ok:
  assumes rcv: "rcv_ok L' n k" and out: "out_ok L (received L' n k) k" and mtu: "28 \<le> kc_mtu k"
    and segment: "segment = segment_default\<lparr>sg_conv := kc_conv k, sg_cmd := KCP_CMD_ACK, sg_wnd := wnd_unused k, sg_una := rcv_nxt k\<rparr>"
    and f1: "flush_ack k segment = (k1, s1)" and f2: "flush_probe_commands (probe_wnd_size k1) s1 = (k2, s2)"
  shows "out_ok L (received L' n k) k2 \<and> local_side k2 = local_side k \<and> snd_core k2 = snd_core k \<and> acklist k2 = []"
proof -
  let ?R = "received L' n k" and ?kp = "probe_wnd_size k1"
  have "rcv_nxt k = sn_of n" "{..<n} \<subseteq> ?R" using rcv by (auto simp: rcv_ok_def rcv_inv_def received_def)
  then have t: "template_ok ?R (kc_conv k) segment" "sg_cmd segment = KCP_CMD_ACK"
    by (auto simp: segment template_ok_def segment_default_def)
  note 1 = flush_ack_ok [OF rcv _ t mtu f1, of L] out
  have k1: "k1 = with_io (k\<lparr>acklist := []\<rparr>) (io_side k1)" using 1 by (simp add: out_ok_def)
  have "local_side k1 = local_side k" by (subst k1) (simp add: with_io_def local_side_def side_defs)
  moreover have "snd_core k1 = snd_core k" by (subst k1) (simp add: with_io_def snd_core_def)
  moreover have "acklist k1 = []" by (subst k1) (simp add: with_io_def)
  ultimately have kp: "local_side ?kp = local_side k" "snd_core ?kp = snd_core k" "acklist ?kp = []" "io_side ?kp = io_side k1"
    using probe_wnd_size_frame [of k1] by (simp_all add: ack_side_def)
  have ckp: "kc_conv ?kp = kc_conv k" "kc_mtu ?kp = kc_mtu k" using kp(1) by (simp_all add: local_side_def fixed_side_def)
  have 2: "io_ok L ?R (kc_conv k) (kc_mtu k) (io_side k2)" "k2 = with_io (?kp\<lparr>probe := 0\<rparr>) (io_side k2)"
    using flush_probe_commands_ok [OF _ _ _ f2, of L ?R] 1 kp(4) ckp mtu by (simp_all add: out_ok_def)
  have "local_side k2 = local_side k" using kp by (subst 2(2)) (simp add: with_io_def local_side_def side_defs)
  moreover have "snd_core k2 = snd_core k" using kp by (subst 2(2)) (simp add: with_io_def snd_core_def)
  moreover have "acklist k2 = []" using kp by (subst 2(2)) (simp add: with_io_def)
  ultimately show ?thesis using 2(1) by (simp add: out_ok_def local_side_def fixed_side_def)
qed

lemma flush_data_ok:
  assumes snd: "snd_ok L R m k" and out: "out_ok L R' k" and nxt: "rcv_nxt k = sn_of n" "{..<n} \<subseteq> R'"
    and fit: "frags_fit (kc_mtu k) L"
    and adm: "admit_segments k win wnd (snd_queue k) (snd_nxt k) = (admitted, left, nxt')"
    and k3: "k3 = k\<lparr>snd_queue := left, snd_buf := snd_buf k @ admitted, snd_nxt := nxt'\<rparr>"
    and f3: "flush_segments k3 wnd (snd_buf k3) \<lparr>fv_io = io_side k3, fv_lost = False, fv_change = 0\<rparr> = (segs, vars)"
    and k4: "k4 = with_io (k3\<lparr>snd_buf := segs\<rparr>) (emit_output (fv_io vars))"
  shows "snd_ok L R (m + length admitted) k4 \<and> out_ok L R' k4 \<and> local_side k4 = local_side k \<and> acklist k4 = acklist k \<and>
    kc_buf k4 = [] \<and> (0 < fv_change vars \<longrightarrow> fastresend k4 \<noteq> None)"
proof -
  have l3: "local_side k3 = local_side k" "acklist k3 = acklist k" "io_side k3 = io_side k"
    by (simp_all add: k3 local_side_def side_defs io_side_def)
  then have c3: "kc_conv k3 = kc_conv k" "kc_mtu k3 = kc_mtu k" "rcv_nxt k3 = rcv_nxt k" by (simp_all add: local_side_def side_defs)
  have snd3: "snd_ok L R (m + length admitted) k3" unfolding k3 by (rule snd_ok_admit [OF snd adm])
  have sent: "\<forall>seg \<in> set (snd_buf k3). sent_segment L (m + length admitted) (kc_conv k3) seg \<and> length (sg_data seg) + 28 \<le> kc_mtu k3"
    using snd3 sent_fits fit c3(2) by (metis snd_ok_def)
  have 3: "list_all2 same_sent (snd_buf k3) segs" "io_ok L R' (kc_conv k) (kc_mtu k) (fv_io vars)"
    using flush_segments_ok [OF sent _ _ nxt(2) _ f3] c3 nxt(1) fit out l3(3) by (simp_all add: out_ok_def frags_fit_def)
  have "snd_ok L R (m + length admitted) k4"
    by (rule snd_ok_same [OF snd3]) (use 3(1) in \<open>simp_all add: k4 with_io_def snd_core_def\<close>)
  moreover have l4: "local_side k4 = local_side k" "acklist k4 = acklist k" "io_side k4 = emit_output (fv_io vars)"
    using l3 by (simp_all add: k4 with_io_def local_side_def side_defs io_side_def)
  moreover have "out_ok L R' k4" using emit_output_ok [OF 3(2)] l4(1,3) by (simp add: out_ok_def local_side_def fixed_side_def)
  moreover have "kc_buf k4 = []" using emit_output_ok [OF 3(2)] by (simp add: k4 with_io_def)
  moreover have "0 < fv_change vars \<longrightarrow> fastresend k4 \<noteq> None"
    using flush_segments_change [OF f3] l3(1) l4(1) by (auto simp: local_side_def fixed_side_def)
  ultimately show ?thesis by blast
qed

text \<open>A flush never fails, keeps what was received, loses no fragment and emits only packets of the
  stream, none longer than the MTU.\<close>

lemma kcp_flush_ok:
  assumes rcv: "rcv_ok L' n k" and snd: "snd_ok L R m k" and out: "out_ok L (received L' n k) k"
    and fit: "frags_fit (kc_mtu k) L" and upd: "updated k"
  shows "\<exists>k' m'. kcp_flush k = Some (Inr (), k') \<and> local_side k' = local_side k \<and> acklist k' = [] \<and>
    snd_ok L R m' k' \<and> out_ok L (received L' n k) k' \<and> kc_buf k' = []"
proof -
  let ?R = "received L' n k"
  define segment where "segment = segment_default\<lparr>sg_conv := kc_conv k, sg_cmd := KCP_CMD_ACK, sg_wnd := wnd_unused k, sg_una := rcv_nxt k\<rparr>"
  obtain k1 s1 where f1: "flush_ack k segment = (k1, s1)" by fastforce
  obtain k2 s2 where f2: "flush_probe_commands (probe_wnd_size k1) s1 = (k2, s2)" by fastforce
  have 2: "out_ok L ?R k2" "local_side k2 = local_side k" "snd_core k2 = snd_core k" "acklist k2 = []"
    using flush_head_ok [OF rcv out _ segment_def f1 f2] fit by (simp_all add: frags_fit_def)
  then have c2: "rcv_nxt k2 = sn_of n" "{..<n} \<subseteq> ?R" "frags_fit (kc_mtu k2) L" "snd_ok L R m k2"
    using rcv fit snd snd_ok_core [OF 2(3)] by (auto simp: local_side_def side_defs rcv_ok_def rcv_inv_def received_def)
  obtain admitted left nxt' where adm: "admit_segments k2 (flush_window k2) (sg_wnd s2) (snd_queue k2) (snd_nxt k2) = (admitted, left, nxt')"
    by (metis prod_cases3)
  define k3 where "k3 = k2\<lparr>snd_queue := left, snd_buf := snd_buf k2 @ admitted, snd_nxt := nxt'\<rparr>"
  obtain segs vars where f3: "flush_segments k3 (sg_wnd s2) (snd_buf k3)
      \<lparr>fv_io = io_side k3, fv_lost = False, fv_change = 0\<rparr> = (segs, vars)" by fastforce
  define k4 where "k4 = with_io (k3\<lparr>snd_buf := segs\<rparr>) (emit_output (fv_io vars))"
  note 4 = flush_data_ok [OF c2(4) 2(1) c2(1,2,3) adm k3_def f3 k4_def]
  from flush_congestion_frame [of "fv_change vars" k4 "flush_window k2" "fv_lost vars"] 4
  obtain k5 where k5: "flush_congestion k4 (flush_window k2) (fv_lost vars) (fv_change vars) = Some k5"
    "ack_side k5 = ack_side k4" "local_side k5 = local_side k4" "snd_core k5 = snd_core k4" "io_side k5 = io_side k4" by blast
  have run: "kcp_flush k = Some (Inr (), k5)"
    using upd f1 f2 adm f3 k5(1) unfolding kcp_flush_def segment_def k3_def k4_def io_side_def
    by (simp add: Let_def)
  have "out_ok L ?R k5" "kc_buf k5 = []"
    using 4 k5(3,5) by (auto simp: out_ok_def local_side_def fixed_side_def io_side_def)
  then show ?thesis using run 2 4 k5 snd_ok_core [OF k5(4)] by (auto simp: ack_side_def)
qed

end
