(* ===== verification/Kcp_Net.thy ===== *)
theory Kcp_Net
  imports Kcp_Send "HOL-Library.Sublist"
begin

section \<open>Two KCP peers over an unreliable network\<close>

text \<open>
  Two control blocks with the same conversation exchange packets over a network that loses, repeats and
  reorders: a packet, once taken from a peer's output, may be fed to the other peer any number of times,
  at any moment, or never.  \<open>net_step\<close> runs one call of the code on one of the peers and records what was
  sent, delivered and emitted.  The invariant \<open>side_inv\<close> ties the two directions together; the properties
  are its consequences for every schedule with at most \<open>2 ^ 22\<close> sends, which keeps the number of fragments
  (at most 255 each) below \<open>2 ^ 30\<close>.
\<close>

subsection \<open>Definitions\<close>

definition half_inv :: "(u8 \<times> bytes) list \<Rightarrow> (u8 \<times> bytes) list \<Rightarrow> nat set \<Rightarrow> nat \<Rightarrow> nat \<Rightarrow> Kcp \<Rightarrow> bool" where
  "half_inv Li Lo Ro n m k \<longleftrightarrow> rcv_ok Li n k \<and> snd_ok Lo Ro m k \<and> out_ok Lo (received Li n k) k"

definition quiet :: "Kcp \<Rightarrow> Kcp \<Rightarrow> bool" where
  "quiet k k' \<longleftrightarrow> ack_side k' = ack_side k \<and> local_side k' = local_side k \<and> snd_core k' = snd_core k \<and> io_side k' = io_side k"

definition tuned :: "Kcp \<Rightarrow> bool" where
  "tuned k \<longleftrightarrow> 0 < kc_mss k \<and> rx_minrto k \<le> rto_max (kc_timing k)"

record peer =
  pr_kcp :: Kcp
  pr_sent :: "bytes list"
  pr_got :: "bytes list"
  pr_wire :: "bytes list"

datatype net_action = Net_send bool bytes | Net_update bool u32 | Net_flush bool
  | Net_input bool u32 nat | Net_recv bool nat | Net_take bool

fun net_step :: "net_action \<Rightarrow> (bool \<Rightarrow> peer) \<Rightarrow> (bool \<Rightarrow> peer) run" where
  "net_step (Net_send s msg) net = do {
     (r, k) \<leftarrow> kcp_send (pr_kcp (net s)) msg;
     Some (net(s := (net s)\<lparr>pr_kcp := k, pr_sent := (case r of Inl e \<Rightarrow> pr_sent (net s) | Inr w \<Rightarrow> pr_sent (net s) @ [msg])\<rparr>)) }"
| "net_step (Net_update s now) net = do {
     (r, k) \<leftarrow> kcp_update (pr_kcp (net s)) now;
     Some (net(s := (net s)\<lparr>pr_kcp := k\<rparr>)) }"
| "net_step (Net_flush s) net = do {
     (r, k) \<leftarrow> kcp_flush (pr_kcp (net s));
     Some (net(s := (net s)\<lparr>pr_kcp := k\<rparr>)) }"
| "net_step (Net_input s now j) net =
     (if j < length (pr_wire (net (\<not> s))) then do {
        (r, k) \<leftarrow> kcp_input (pr_kcp (net s)) now (pr_wire (net (\<not> s)) ! j);
        Some (net(s := (net s)\<lparr>pr_kcp := k\<rparr>)) }
      else Some net)"
| "net_step (Net_recv s cap) net = do {
     (r, buf, k) \<leftarrow> kcp_recv (pr_kcp (net s)) (replicate cap 0);
     Some (net(s := (net s)\<lparr>pr_kcp := k, pr_got := (case r of Inl e \<Rightarrow> pr_got (net s) | Inr w \<Rightarrow> pr_got (net s) @ [take w buf])\<rparr>)) }"
| "net_step (Net_take s) net =
     (case take_output (pr_kcp (net s)) of (out, k) \<Rightarrow>
        Some (net(s := (net s)\<lparr>pr_kcp := k, pr_wire := pr_wire (net s) @ out\<rparr>)))"

definition net_new :: "u64 \<Rightarrow> KcpParams \<Rightarrow> bool \<Rightarrow> peer" where
  "net_new conv params = (\<lambda>s. \<lparr>pr_kcp = kcp_new conv params, pr_sent = [], pr_got = [], pr_wire = []\<rparr>)"

fun is_send :: "net_action \<Rightarrow> bool" where
  "is_send (Net_send s msg) = True"
| "is_send _ = False"

definition stream :: "usize \<Rightarrow> bytes list \<Rightarrow> (u8 \<times> bytes) list" where
  "stream mss msgs = concat (map (fragments mss) msgs)"

definition static_ok :: "u64 \<Rightarrow> usize \<Rightarrow> Kcp \<Rightarrow> bool" where
  "static_ok conv mtu k \<longleftrightarrow> kc_conv k = conv \<and> kc_mtu k = mtu \<and> kc_mss k = mtu - 28 \<and> tuned k"

definition held :: "usize \<Rightarrow> (bool \<Rightarrow> peer) \<Rightarrow> (bool \<Rightarrow> nat) \<Rightarrow> bool \<Rightarrow> nat set" where
  "held mtu net n s = received (stream (mtu - 28) (pr_sent (net (\<not> s)))) (n s) (pr_kcp (net s))"

definition got_ok :: "usize \<Rightarrow> bytes list \<Rightarrow> nat \<Rightarrow> peer \<Rightarrow> bool" where
  "got_ok mtu sent n p \<longleftrightarrow> (\<exists>rest. sent = pr_got p @ rest) \<and>
     n - length (rcv_queue (pr_kcp p)) = length (stream (mtu - 28) (pr_got p))"

definition side_inv :: "u64 \<Rightarrow> usize \<Rightarrow> (bool \<Rightarrow> peer) \<Rightarrow> (bool \<Rightarrow> nat) \<Rightarrow> (bool \<Rightarrow> nat) \<Rightarrow> bool \<Rightarrow> bool" where
  "side_inv conv mtu net n m s \<longleftrightarrow> static_ok conv mtu (pr_kcp (net s)) \<and>
     half_inv (stream (mtu - 28) (pr_sent (net (\<not> s)))) (stream (mtu - 28) (pr_sent (net s))) (held mtu net n (\<not> s))
       (n s) (m s) (pr_kcp (net s)) \<and>
     (\<forall>p \<in> set (pr_wire (net s)). packet_of (stream (mtu - 28) (pr_sent (net s))) (held mtu net n s) conv p \<and> length p \<le> mtu) \<and>
     got_ok mtu (pr_sent (net (\<not> s))) (n s) (net s) \<and>
     (\<forall>msg \<in> set (pr_sent (net s)). length (fragments (mtu - 28) msg) < 256)"

definition net_inv :: "u64 \<Rightarrow> usize \<Rightarrow> (bool \<Rightarrow> peer) \<Rightarrow> bool" where
  "net_inv conv mtu net \<longleftrightarrow> (\<exists>n m. \<forall>s. side_inv conv mtu net n m s)"

definition budget :: "net_action list \<Rightarrow> usize" where
  "budget acts = 255 * length (filter is_send acts)"

definition demo_params :: KcpParams where
  "demo_params = \<lparr>kp_mtu = 32, kp_send_window = 8, kp_receive_window = 8, kp_nodelay = True, kp_fast_resend = Some 2,
     kp_congestion_control = False, kp_time_scale = 10\<rparr>"

definition demo_schedule :: "net_action list" where
  "demo_schedule = [Net_send True [1, 2, 3, 4, 5, 6], Net_update True 5, Net_take True, Net_input False 9 1,
     Net_input False 9 1, Net_recv False 10, Net_input False 9 0, Net_recv False 10,
     Net_update False 9, Net_take False, Net_input True 12 0]"

definition rto_ok :: "Kcp \<Rightarrow> bool" where
  "rto_ok k \<longleftrightarrow> rx_minrto k \<le> rx_rto k \<and> rx_rto k \<le> rto_max (kc_timing k)"

definition rto_side :: "Kcp \<Rightarrow> u32 \<times> u32 \<times> KcpTiming" where
  "rto_side k = (rx_minrto k, rx_rto k, kc_timing k)"

definition demo_net :: "bool \<Rightarrow> peer" where
  "demo_net = the (fold_run net_step demo_schedule (net_new 7 demo_params))"

definition demo_sender :: Kcp where
  "demo_sender = snd (the (kcp_send (kcp_new 7 demo_params) [1, 2, 3, 4, 5, 6]))"


subsection \<open>One control block\<close>

lemma rcv_inv_append: "rcv_inv L n k \<Longrightarrow> rcv_inv (L @ L') n k"
proof -
  assume inv: "rcv_inv L n k"
  then obtain idx where idx: "rcv_buf_inv L n (rcv_wnd k) (rcv_buf k) idx" by (auto simp: rcv_inv_def)
  have "rcv_buf_inv (L @ L') n (rcv_wnd k) (rcv_buf k) idx"
    using idx list_all2_mono [of "matches L" "rcv_buf k" idx "matches (L @ L')"] matches_append unfolding rcv_buf_inv_def by blast
  moreover have "map ((!) (L @ L')) [n - length (rcv_queue k)..<n] = map ((!) L) [n - length (rcv_queue k)..<n]"
    using inv by (intro map_cong) (auto simp: rcv_inv_def nth_append)
  ultimately show ?thesis using inv unfolding rcv_inv_def by auto
qed

lemma received_append: "received L n k \<subseteq> received (L @ L') n k"
  unfolding received_def using matches_append by blast

lemma received_bounded: "rcv_ok L n k \<Longrightarrow> received L n k \<subseteq> {..<length L}"
  by (auto simp: received_def rcv_ok_def rcv_inv_def matches_def)

lemma rcv_ok_append: "rcv_ok L n k \<Longrightarrow> rcv_ok (L @ L') n k"
  using rcv_inv_append received_append unfolding rcv_ok_def by blast

lemma snd_ok_mono: "snd_ok L R m k \<Longrightarrow> R \<subseteq> R' \<Longrightarrow> snd_ok L R' m k"
  unfolding snd_ok_def by blast

lemma out_ok_mono: "out_ok L R k \<Longrightarrow> R \<subseteq> R' \<Longrightarrow> out_ok (L @ L') R' k"
  unfolding out_ok_def by (rule io_ok_mono)

lemma half_inv_mono:
  assumes "half_inv Li Lo Ro n m k" "Ro \<subseteq> Ro'"
  shows "half_inv (Li @ Li') Lo Ro' n m k"
  using assms rcv_ok_append snd_ok_mono out_ok_mono [of Lo "received Li n k" k "received (Li @ Li') n k" "[]"] received_append
  unfolding half_inv_def by auto

lemma half_inv_send:
  assumes inv: "half_inv Li Lo Ro n m k" and "0 < kc_mss k" and run: "kcp_send k msg = Some (r, k')"
  shows "local_side k' = local_side k \<and> acklist k' = acklist k \<and>
    (case r of Inl e \<Rightarrow> k' = k
     | Inr _ \<Rightarrow> half_inv Li (Lo @ fragments (kc_mss k) msg) Ro n m k' \<and>
         the (fragment_count (kc_mss k) (length msg)) < min 256 (unat (rcv_wnd k)))"
proof -
  from kcp_send_spec [OF assms(2), of msg] obtain c where c: "fragment_count (kc_mss k) (length msg) = Some c"
    "kcp_send k msg = (if unat (rcv_wnd k) \<le> c \<or> 256 \<le> c then Some (Inl UserBufTooBig, k)
     else Some (Inr (length msg), k\<lparr>snd_queue := snd_queue k @ split_fragments (kc_mss k) c msg\<rparr>))" by blast
  show ?thesis
  proof (cases "unat (rcv_wnd k) \<le> c \<or> 256 \<le> c")
    case True
    with c run show ?thesis by simp
  next
    case False
    let ?F = "fragments (kc_mss k) msg"
    from False c run have k': "k' = k\<lparr>snd_queue := snd_queue k @ split_fragments (kc_mss k) c msg\<rparr>" "r = Inr (length msg)" by simp_all
    have F: "map payload (split_fragments (kc_mss k) c msg) = ?F" using c(1) by (simp add: fragments_def)
    have side: "ack_side k' = ack_side k" "local_side k' = local_side k" "io_side k' = io_side k" "kc_conv k' = kc_conv k"
      by (simp_all add: k' ack_side_def local_side_def side_defs io_side_def)
    have "rcv_ok Li n k'" "received Li n k' = received Li n k" using inv rcv_ok_side [OF side(1)] by (simp_all add: half_inv_def)
    moreover have "out_ok (Lo @ ?F) (received Li n k) k'"
      using inv out_ok_mono [of Lo "received Li n k" k "received Li n k" ?F] side
      by (simp add: half_inv_def out_ok_def local_side_def fixed_side_def)
    moreover have "snd_ok (Lo @ ?F) Ro m k'"
    proof -
      have "sent_segment (Lo @ ?F) m conv seg" if "sent_segment Lo m conv seg" for seg conv
        using that matches_append unfolding sent_segment_def by blast
      then show ?thesis using inv F matches_append unfolding half_inv_def snd_ok_def k' by (simp, blast)
    qed
    ultimately show ?thesis using False c(1) k'(2) side by (simp add: half_inv_def ack_side_def)
  qed
qed

lemma half_inv_flush:
  assumes inv: "half_inv Li Lo Ro n m k" and "frags_fit (kc_mtu k) Lo"
  shows "\<exists>r k' m'. kcp_flush k = Some (r, k') \<and> local_side k' = local_side k \<and> half_inv Li Lo Ro n m' k' \<and>
    received Li n k' = received Li n k"
proof (cases "updated k")
  case True
  from inv have parts: "rcv_ok Li n k" "snd_ok Lo Ro m k" "out_ok Lo (received Li n k) k" by (simp_all add: half_inv_def)
  obtain k' m' where k': "kcp_flush k = Some (Inr (), k')"
    "local_side k' = local_side k" "acklist k' = []" "snd_ok Lo Ro m' k'" "out_ok Lo (received Li n k) k'"
    using kcp_flush_ok [OF parts assms(2) True] by blast
  have "rcv_side k' = rcv_side k" using k'(2) by (simp add: local_side_def)
  then have "received Li n k' = received Li n k" "rcv_inv Li n k' = rcv_inv Li n k"
    by (simp_all add: received_def rcv_side_def rcv_inv_def)
  with k' parts(1) have "half_inv Li Lo Ro n m' k'" by (simp add: half_inv_def rcv_ok_def)
  with k'(1,2) \<open>received Li n k' = _\<close> show ?thesis by blast
next
  case False
  then have "kcp_flush k = Some (Inl NeedUpdate, k)" by (simp add: kcp_flush_def)
  with inv show ?thesis by blast
qed

lemma quiet_refl [simp]: "quiet k k"
  by (simp add: quiet_def)

lemma quiet_fields [simp]:
  "quiet k0 (k\<lparr>current := a\<rparr>) = quiet k0 k" "quiet k0 (k\<lparr>updated := b\<rparr>) = quiet k0 k" "quiet k0 (k\<lparr>ts_flush := a\<rparr>) = quiet k0 k"
  "quiet k0 (k\<lparr>probe := a\<rparr>) = quiet k0 k"
  by (simp_all add: quiet_def ack_side_def local_side_def side_defs snd_core_def io_side_def)

lemma half_inv_quiet:
  assumes "half_inv Li Lo Ro n m k" "quiet k k'"
  shows "half_inv Li Lo Ro n m k' \<and> received Li n k' = received Li n k \<and> local_side k' = local_side k"
proof -
  from assms(2) have q: "ack_side k' = ack_side k" "local_side k' = local_side k" "snd_core k' = snd_core k" "io_side k' = io_side k"
    by (simp_all add: quiet_def)
  from assms(1) q rcv_ok_side [OF q(1), of Li n] snd_ok_core [OF q(3), of Lo Ro m] show ?thesis
    by (simp add: half_inv_def out_ok_def local_side_def fixed_side_def)
qed

lemma kcp_update_cases:
  obtains k1 where "quiet k k1" "updated k1" "kcp_update k now = kcp_flush k1 \<or> kcp_update k now = Some (Inr (), k1)"
proof -
  define k1 where "k1 = (if \<not> updated (k\<lparr>current := now\<rparr>) then k\<lparr>current := now, updated := True, ts_flush := now\<rparr> else k\<lparr>current := now\<rparr>)"
  define slap where "slap = timediff now (ts_flush k1)"
  obtain k2 slap2 where k2: "(if slap < - 10000 \<or> 10000 \<le> slap then (k1\<lparr>ts_flush := now\<rparr>, 0) else (k1, slap)) = (k2, slap2)" by fastforce
  have q: "quiet k k1" "updated k1" by (simp_all add: k1_def)
  with k2 have q2: "quiet k k2" "updated k2" by (auto split: if_splits)
  show ?thesis
  proof (cases "0 \<le> slap2")
    case True
    then obtain t where "kcp_update k now = kcp_flush (k2\<lparr>ts_flush := t\<rparr>)"
      unfolding kcp_update_def Let_def k1_def [symmetric] slap_def [symmetric] k2 by auto
    with q2 show ?thesis by (intro that [of "k2\<lparr>ts_flush := t\<rparr>"]) simp_all
  next
    case False
    then have "kcp_update k now = Some (Inr (), k2)"
      unfolding kcp_update_def Let_def k1_def [symmetric] slap_def [symmetric] k2 by simp
    with q2 that show ?thesis by blast
  qed
qed

lemma tuned_fixed: "fixed_side k' = fixed_side k \<Longrightarrow> tuned k' = tuned k"
  by (simp add: tuned_def fixed_side_def)

lemma update_ack_total:
  assumes "tuned k"
  shows "\<exists>k'. update_ack k rtt = Some k' \<and> rx_minrto k \<le> rx_rto k' \<and> rx_rto k' \<le> rto_max (kc_timing k)"
proof -
  have "\<not> rto_max (kc_timing k) < rx_minrto k" using assms by (simp add: tuned_def linorder_not_less)
  then have clamp: "\<exists>c. clamp_run x (rx_minrto k) (rto_max (kc_timing k)) = Some c \<and> rx_minrto k \<le> c \<and> c \<le> rto_max (kc_timing k)" for x
    by (auto simp: clamp_run_def)
  obtain srtt rttval where sr: "(if rx_srtt k = 0 then (rtt, rtt div 2)
       else let delta = (if rtt < rx_srtt k then rx_srtt k - rtt else rtt - rx_srtt k)
            in (max ((7 * rx_srtt k + rtt) div 8) 1, (3 * rx_rttval k + delta) div 4)) = (srtt, rttval)"
    by fastforce
  from clamp obtain c where "clamp_run (srtt + max (interval (kc_timing k)) (4 * rttval)) (rx_minrto k) (rto_max (kc_timing k)) = Some c"
    "rx_minrto k \<le> c" "c \<le> rto_max (kc_timing k)" by blast
  then show ?thesis unfolding update_ack_def sr by simp
qed

lemma input_segment_total:
  assumes "tuned k"
  shows "\<exists>k' vars'. input_segment k vars hdr data = Some (k', vars')"
proof -
  let ?k = "shrink_buf (parse_una (k\<lparr>rmt_wnd := sg_wnd hdr\<rparr>) (sg_una hdr))"
  have "fixed_side ?k = fixed_side k" by (simp add: frame_simps)
  then have "tuned ?k" using assms tuned_fixed by blast
  then have "\<exists>k1. (if 0 \<le> timediff (current ?k) (sg_ts hdr) then update_ack ?k (word_of_int (timediff (current ?k) (sg_ts hdr)))
      else Some ?k) = Some k1" using update_ack_total by (cases "0 \<le> timediff (current ?k) (sg_ts hdr)") fastforce+
  then show ?thesis by (auto simp: input_segment_def input_ack_def Let_def)
qed

lemma input_loop_total:
  assumes "tuned k"
  shows "\<exists>r k'. input_loop k vars buf = Some (r, k')"
  using assms
proof (induction k vars buf rule: input_loop.induct)
  case (1 k vars buf)
  obtain hdr len where h: "segment_header buf = (hdr, len)" by fastforce
  show ?case
  proof (cases "length buf < 28 \<or> sg_conv hdr \<noteq> kc_conv k \<or> length (drop 28 buf) < len \<or>
      sg_cmd hdr \<notin> {81, 82, 83, 84}")
    case True
    with h show ?thesis by (auto simp: input_loop.simps [of k vars buf] Let_def)
  next
    case False
    obtain k1 vars1 where s: "input_segment k vars hdr (take len (drop 28 buf)) = Some (k1, vars1)"
      using input_segment_total [OF "1.prems"] by blast
    have "tuned k1" using "1.prems" input_segment_fixed [OF s] tuned_fixed by blast
    with "1.IH" [of "(hdr, len)" hdr len "drop 28 buf" "(k1, vars1)" k1 vars1] s False h
    have "\<exists>r k'. input_loop k1 vars1 (drop len (drop 28 buf)) = Some (r, k')" by auto
    with s h False show ?thesis by (auto simp: input_loop.simps [of k vars buf] Let_def)
  qed
qed

lemma grow_cwnd_total: "0 < kc_mss k \<Longrightarrow> \<exists>k'. grow_cwnd k = Some k'"
  by (auto simp: grow_cwnd_def grow_incr_def Let_def max_def)

lemma input_loop_fixed: "input_loop k vars buf = Some (r, k') \<Longrightarrow> fixed_side k' = fixed_side k"
  by (rule input_loop_inv [where I = "\<lambda>k'. fixed_side k' = fixed_side k"]) (auto dest: input_segment_fixed)

lemma kcp_input_total:
  assumes "tuned k"
  shows "\<exists>r k'. kcp_input k now buf = Some (r, k')"
proof (cases "length buf < 28")
  case True
  then show ?thesis by (simp add: kcp_input_def)
next
  case False
  have "tuned (k\<lparr>current := now\<rparr>)" using assms by (simp add: tuned_def linorder_not_less)
  then obtain q k1 where l: "input_loop (k\<lparr>current := now\<rparr>) \<lparr>iv_flag = False, iv_max_ack = 0, iv_latest_ts = 0\<rparr> buf = Some (q, k1)"
    using input_loop_total by blast
  have "fixed_side k1 = fixed_side k" using input_loop_fixed [OF l] by (simp add: frame_simps)
  then have mss: "0 < kc_mss k1" using assms by (simp add: fixed_side_def tuned_def)
  then have "0 < kc_mss (parse_fastack k1 sn ts)" for sn ts by (simp add: parse_fastack_def)
  with mss have grow: "\<exists>k'. grow_cwnd (if b then parse_fastack k1 sn ts else k1) = Some k'" for b sn ts
    using grow_cwnd_total by simp
  show ?thesis
  proof (cases q)
    case (Inl e)
    with l False show ?thesis by (simp add: kcp_input_def)
  next
    case (Inr b)
    obtain vars rest where b: "b = (vars, rest)" by fastforce
    define k2 where "k2 = (if iv_flag vars \<and> fastresend k1 \<noteq> None then parse_fastack k1 (iv_max_ack vars) (iv_latest_ts vars) else k1)"
    obtain k3 where "grow_cwnd k2 = Some k3" using grow unfolding k2_def by blast
    moreover have "kcp_input k now buf = do { k' \<leftarrow> (if 0 < timediff (snd_una k2) (snd_una k) \<and> cwnd k2 < rmt_wnd k2 then grow_cwnd k2 else Some k2);
        Some (Inr (length buf - length rest), k') }"
      using False l Inr b unfolding kcp_input_def k2_def by (simp add: Let_def del: not_None_eq split del: if_split)
    ultimately show ?thesis by simp
  qed
qed

lemma kcp_input_fixed:
  assumes "packet_of L R (kc_conv k) buf" and "kcp_input k now buf = Some (r, k')"
  shows "fixed_side k' = fixed_side k"
  using assms
proof (rule kcp_input_good [where I = "\<lambda>k'. fixed_side k' = fixed_side k"])
  show "fixed_side k2 = fixed_side k" if "fixed_side k1 = fixed_side k" "grow_cwnd k1 = Some k2" for k1 k2
    using that(1) grow_cwnd_frame [OF that(2)] by simp
  show "fixed_side k2 = fixed_side k" if "fixed_side k1 = fixed_side k" "input_segment k1 vars (wire_part seg) (sg_data seg) = Some (k2, vars')"
    for k1 vars seg k2 vars' using that input_segment_fixed by metis
qed (simp_all add: frame_simps)

lemma half_inv_input:
  assumes inv: "half_inv Li Lo Ro n m k" and "length Li \<le> 2 ^ 30" "length Lo \<le> 2 ^ 30" "Ro \<subseteq> {..<length Lo}"
    and p: "packet_of Li Ro (kc_conv k) buf" and "tuned k"
  shows "\<exists>r k' n'. kcp_input k now buf = Some (r, k') \<and> n \<le> n' \<and> half_inv Li Lo Ro n' m k' \<and> fixed_side k' = fixed_side k \<and>
    received Li n k \<subseteq> received Li n' k' \<and> length (rcv_queue k') = length (rcv_queue k) + (n' - n)"
proof -
  obtain r k' where run: "kcp_input k now buf = Some (r, k')" using kcp_input_total [OF assms(6)] by blast
  from inv have parts: "rcv_ok Li n k" "snd_ok Lo Ro m k" "out_ok Lo (received Li n k) k" by (simp_all add: half_inv_def)
  from kcp_input_advance [OF parts(1) assms(2) p run] obtain n' where n': "n \<le> n'" "rcv_ok Li n' k'"
    "received Li n k \<subseteq> received Li n' k'" "length (rcv_queue k') = length (rcv_queue k) + (n' - n)"
    unfolding rcv_advance_def by blast
  have fixed: "fixed_side k' = fixed_side k" by (rule kcp_input_fixed [OF p run])
  have "snd_ok Lo Ro m k'" by (rule kcp_input_snd [OF parts(2) assms(3,4) p run])
  moreover have "out_ok Lo (received Li n' k') k'"
    using out_ok_mono [OF parts(3) n'(3), of "[]"] kcp_input_io [OF p run] fixed by (simp add: out_ok_def fixed_side_def)
  ultimately have "half_inv Li Lo Ro n' m k'" using n'(2) by (simp add: half_inv_def)
  with run n' fixed show ?thesis by blast
qed

lemma length_fragments: "0 < mss \<Longrightarrow> fragment_count mss (length msg) = Some (length (fragments mss msg)) \<and> 0 < length (fragments mss msg) \<and>
    length msg \<le> length (fragments mss msg) * mss"
  using fragment_count_covers [of mss msg] by (auto simp: fragments_def)

lemma queue_window:
  assumes "rcv_inv L n k" and "drop (n - length (rcv_queue k)) L = F @ T"
  shows "map payload (rcv_queue k) = take (length (rcv_queue k)) (F @ T)"
proof -
  let ?q = "rcv_queue k"
  have q: "map payload ?q = map ((!) L) [n - length ?q..<n]" "length ?q \<le> n" "n \<le> length L" using assms(1) by (simp_all add: rcv_inv_def)
  have "map ((!) L) [n - length ?q..<n] = take (length ?q) (drop (n - length ?q) L)"
    using q(2,3) by (intro nth_equalityI) auto
  with q(1) assms(2) show ?thesis by simp
qed

lemma recv_waits:
  assumes "rcv_inv L n k" and "drop (n - length (rcv_queue k)) L = fragments mss msg @ T"
    and "0 < mss" "length (fragments mss msg) < 256" "length (rcv_queue k) < length (fragments mss msg)"
  shows "\<exists>e. kcp_recv k buf = Some (Inl e, buf, k)"
proof (cases "rcv_queue k")
  case Nil
  then show ?thesis by (simp add: kcp_recv_def)
next
  case (Cons s q)
  obtain c where c: "length (fragments mss msg) = Suc c" using length_fragments [OF assms(3), of msg] by (metis gr0_conv_Suc)
  have F: "fragments mss msg = map payload (split_fragments mss (Suc c) msg)"
    using length_fragments [OF assms(3), of msg] c by (simp add: fragments_def)
  have "map payload (rcv_queue k) = take (length (rcv_queue k)) (fragments mss msg @ T)" by (rule queue_window [OF assms(1,2)])
  then have "payload s = (word_of_nat c, take mss msg)"
    unfolding F map_payload_split_Suc Cons by simp
  then have frg: "sg_frg s = word_of_nat c" by (simp add: payload_def)
  have "c \<noteq> 0" using assms(5) c Cons by auto
  then have "sg_frg s \<noteq> 0" using frg word8_of_nat_zero [of c] assms(4) c by simp
  moreover have "unat (sg_frg s + 1) = Suc c"
    using frg assms(4) c by (simp add: unat_word_ariths unsigned_of_nat take_bit_nat_eq_self)
  ultimately have "peeksize k = Inl ExpectingFragment"
    using Cons assms(5) c by (simp add: peeksize_def)
  with Cons show ?thesis by (simp add: kcp_recv_def)
qed

lemma recv_message_front:
  assumes "rcv_inv L n k" and "drop (n - length (rcv_queue k)) L = fragments mss msg @ T"
    and "0 < mss" "length (fragments mss msg) < 256" "length (fragments mss msg) \<le> length (rcv_queue k)"
  shows "queue_front (rcv_queue k) mss msg (drop (length (fragments mss msg)) (rcv_queue k))"
proof -
  obtain c where c: "length (fragments mss msg) = Suc c" using length_fragments [OF assms(3), of msg] by (metis gr0_conv_Suc)
  have F: "fragments mss msg = map payload (split_fragments mss (Suc c) msg)"
    using length_fragments [OF assms(3), of msg] c by (simp add: fragments_def)
  have "map payload (rcv_queue k) = take (length (rcv_queue k)) (fragments mss msg @ T)" by (rule queue_window [OF assms(1,2)])
  then have "map payload (take (Suc c) (rcv_queue k)) = fragments mss msg"
    using assms(5) c by (simp add: take_map [symmetric] min_def)
  then show ?thesis
    unfolding queue_front_def using c assms(4) length_fragments [OF assms(3), of msg] F
    by (intro exI [of _ "take (Suc c) (rcv_queue k)"] exI [of _ c]) simp
qed

lemma rcv_inv_pop:
  assumes inv: "rcv_inv L n k" and "d \<le> length (rcv_queue k)"
  shows "rcv_inv L n (k\<lparr>rcv_queue := drop d (rcv_queue k)\<rparr>)"
proof -
  let ?q = "rcv_queue k"
  have q: "map payload ?q = map ((!) L) [n - length ?q..<n]" "length ?q \<le> n" using inv by (simp_all add: rcv_inv_def)
  have "map payload (drop d ?q) = map ((!) L) (drop d [n - length ?q..<n])" using arg_cong [OF q(1), of "drop d"] by (simp only: drop_map)
  also have "drop d [n - length ?q..<n] = [n - length (drop d ?q)..<n]" using q(2) assms(2) by simp
  finally show ?thesis using inv unfolding rcv_inv_def by (simp add: le_diff_conv trans_le_add1)
qed

lemma half_inv_recv:
  assumes inv: "half_inv Li Lo Ro n m k" and short: "length Li \<le> 2 ^ 30"
    and front: "drop (n - length (rcv_queue k)) Li = fragments mss msg @ T" and "0 < mss" "length (fragments mss msg) < 256"
  shows "(\<exists>e. kcp_recv k buf = Some (Inl e, buf, k)) \<or>
    (\<exists>k' n'. kcp_recv k buf = Some (Inr (length msg), msg @ drop (length msg) buf, k') \<and> n \<le> n' \<and> half_inv Li Lo Ro n' m k' \<and>
      fixed_side k' = fixed_side k \<and> received Li n k \<subseteq> received Li n' k' \<and>
      n' - length (rcv_queue k') = (n - length (rcv_queue k)) + length (fragments mss msg))"
proof -
  from inv have parts: "rcv_ok Li n k" "snd_ok Lo Ro m k" "out_ok Lo (received Li n k) k" by (simp_all add: half_inv_def)
  then have rinv: "rcv_inv Li n k" by (simp add: rcv_ok_def)
  let ?d = "length (fragments mss msg)"
  consider (waits) "length (rcv_queue k) < ?d" | (small) "?d \<le> length (rcv_queue k)" "length buf < length msg"
    | (full) "?d \<le> length (rcv_queue k)" "length msg \<le> length buf" by linarith
  then show ?thesis
  proof cases
    case waits
    then show ?thesis using recv_waits [OF rinv front assms(4,5)] by blast
  next
    case small
    have "rcv_queue k \<noteq> []" using small(1) length_fragments [OF assms(4), of msg] by auto
    then have "kcp_recv k buf = Some (Inl UserBufTooSmall, buf, k)"
      using peeksize_message [OF recv_message_front [OF rinv front assms(4,5) small(1)]] small(2) by (simp add: kcp_recv_def)
    then show ?thesis by blast
  next
    case full
    let ?k = "k\<lparr>rcv_queue := drop ?d (rcv_queue k)\<rparr>"
    from kcp_recv_message [OF recv_message_front [OF rinv front assms(4,5) full(1)] full(2)] obtain k' where
      k': "kcp_recv k buf = Some (Inr (length msg), msg @ drop (length msg) buf, k')"
        "k' = move_buf ?k \<or> k' = (move_buf ?k)\<lparr>probe := probe k OR KCP_ASK_TELL\<rparr>" by blast
    have "received Li n ?k = received Li n k" by (simp add: received_def)
    moreover from this have "rcv_ok Li n ?k" using parts(1) rcv_inv_pop [OF rinv full(1)] by (simp add: rcv_ok_def)
    ultimately obtain n' where n': "n \<le> n'" "rcv_ok Li n' (move_buf ?k)" "received Li n k \<subseteq> received Li n' (move_buf ?k)"
      "length (rcv_queue (move_buf ?k)) = length (rcv_queue ?k) + (n' - n)"
      using move_buf_advance [OF _ short, of n ?k] unfolding rcv_advance_def by auto
    have side: "snd_side (move_buf ?k) = snd_side k" "fixed_side (move_buf ?k) = fixed_side k"
      unfolding move_buf_frame by (simp_all add: side_defs)
    have "snd_ok Lo Ro m (move_buf ?k)" using parts(2) snd_ok_core [OF sides_core [OF side]] by simp
    moreover have "out_ok Lo (received Li n' (move_buf ?k)) (move_buf ?k)"
      using out_ok_mono [OF parts(3) n'(3), of "[]"] snd_side_io [OF side(1)] side(2) by (simp add: out_ok_def fixed_side_def)
    ultimately have h: "half_inv Li Lo Ro n' m (move_buf ?k)" using n'(2) by (simp add: half_inv_def)
    have "quiet (move_buf ?k) k'" using k'(2) by auto
    from half_inv_quiet [OF h this] have "half_inv Li Lo Ro n' m k'" "received Li n' k' = received Li n' (move_buf ?k)"
      "local_side k' = local_side (move_buf ?k)" by simp_all
    moreover from this have "fixed_side k' = fixed_side k" "rcv_queue k' = rcv_queue (move_buf ?k)"
      using side(2) by (simp_all add: local_side_def rcv_side_def)
    moreover have "length (rcv_queue k) \<le> n" using rinv by (simp add: rcv_inv_def)
    ultimately show ?thesis using k'(1) n' full(1) by (intro disjI2 exI [of _ k'] exI [of _ n']) simp
  qed
qed

lemma half_inv_recv_empty:
  assumes "rcv_inv L n k" and "n - length (rcv_queue k) = length L"
  shows "kcp_recv k buf = Some (Inl RecvQueueEmpty, buf, k)"
proof -
  have "rcv_queue k = []" using assms by (auto simp: rcv_inv_def)
  then show ?thesis by (simp add: kcp_recv_def)
qed

subsection \<open>The pair\<close>

lemma stream_append [simp]: "stream mss (a @ b) = stream mss a @ stream mss b" "stream mss [] = []" "stream mss [x] = fragments mss x"
  by (simp_all add: stream_def)

text \<open>One peer moves: what it must keep for both directions to stay consistent.\<close>

lemma net_move:
  assumes inv: "\<forall>s. side_inv conv mtu net n m s"
    and sent: "pr_sent p' = pr_sent (net s) @ msgs" and fit: "\<forall>msg \<in> set msgs. length (fragments (mtu - 28) msg) < 256"
    and static: "static_ok conv mtu (pr_kcp p')"
    and half: "half_inv (stream (mtu - 28) (pr_sent (net (\<not> s)))) (stream (mtu - 28) (pr_sent p')) (held mtu net n (\<not> s)) n' m' (pr_kcp p')"
    and grow: "held mtu net n s \<subseteq> received (stream (mtu - 28) (pr_sent (net (\<not> s)))) n' (pr_kcp p')"
    and wire: "\<forall>p \<in> set (pr_wire p'). p \<in> set (pr_wire (net s)) \<or>
      packet_of (stream (mtu - 28) (pr_sent p')) (received (stream (mtu - 28) (pr_sent (net (\<not> s)))) n' (pr_kcp p')) conv p \<and> length p \<le> mtu"
    and got: "got_ok mtu (pr_sent (net (\<not> s))) n' p'"
  shows "\<forall>t. side_inv conv mtu (net(s := p')) (n(s := n')) (m(s := m')) t"
proof
  fix t
  let ?net = "net(s := p')" and ?n = "n(s := n')"
  note old = inv [THEN spec, of s] and other = inv [THEN spec, of "\<not> s"]
  have h1: "held mtu ?net ?n s = received (stream (mtu - 28) (pr_sent (net (\<not> s)))) n' (pr_kcp p')"
    by (simp add: held_def)
  have h2: "held mtu net n (\<not> s) \<subseteq> held mtu ?net ?n (\<not> s)"
    using received_append by (simp add: held_def sent)
  show "side_inv conv mtu ?net ?n (m(s := m')) t"
  proof (cases "t = s")
    case True
    have "half_inv (stream (mtu - 28) (pr_sent (net (\<not> s)))) (stream (mtu - 28) (pr_sent p')) (held mtu ?net ?n (\<not> s)) n' m' (pr_kcp p')"
      using half_inv_mono [OF half h2, of "[]"] by simp
    moreover have "packet_of (stream (mtu - 28) (pr_sent p')) (held mtu ?net ?n s) conv p \<and> length p \<le> mtu" if "p \<in> set (pr_wire p')" for p
    proof (cases "p \<in> set (pr_wire (net s))")
      case True
      then have "packet_of (stream (mtu - 28) (pr_sent (net s))) (held mtu net n s) conv p" "length p \<le> mtu"
        using old by (simp_all add: side_inv_def)
      then show ?thesis using packet_of_mono grow unfolding h1 sent by simp
    qed (use wire that h1 in auto)
    ultimately show ?thesis using True static got fit old sent by (auto simp: side_inv_def)
  next
    case False
    then have t: "t = (\<not> s)" by auto
    have "half_inv (stream (mtu - 28) (pr_sent (net s)) @ stream (mtu - 28) msgs) (stream (mtu - 28) (pr_sent (net (\<not> s)))) (held mtu ?net ?n s)
        (n (\<not> s)) (m (\<not> s)) (pr_kcp (net (\<not> s)))"
      using other grow half_inv_mono unfolding side_inv_def h1 by auto
    moreover have "packet_of (stream (mtu - 28) (pr_sent (net (\<not> s)))) (held mtu ?net ?n (\<not> s)) conv p \<and> length p \<le> mtu"
      if "p \<in> set (pr_wire (net (\<not> s)))" for p
      using that other h2 packet_of_mono [of _ "held mtu net n (\<not> s)" conv p "held mtu ?net ?n (\<not> s)" "[]"] by (simp add: side_inv_def)
    moreover have "got_ok mtu (pr_sent p') (n (\<not> s)) (net (\<not> s))" using other sent by (auto simp: side_inv_def got_ok_def)
    ultimately show ?thesis using t other sent by (simp add: side_inv_def)
  qed
qed

lemma stream_fits:
  assumes "28 < mtu" "mtu < 2 ^ 32"
  shows "frags_fit mtu (stream (mtu - 28) msgs)"
proof -
  have "length (snd x) \<le> mtu - 28" if "x \<in> set (fragments (mtu - 28) msg)" for x msg
    using that split_fragments_size by (fastforce simp: fragments_def payload_def)
  then have "\<forall>x \<in> set (stream (mtu - 28) msgs). length (snd x) \<le> mtu - 28" by (auto simp: stream_def)
  with assms show ?thesis by (fastforce simp: frags_fit_def)
qed

lemma static_fixed: "fixed_side k' = fixed_side k \<Longrightarrow> static_ok conv mtu k' = static_ok conv mtu k"
  using tuned_fixed by (simp add: static_ok_def fixed_side_def tuned_def)

text \<open>A step that neither sends nor delivers a message.\<close>

lemma net_quiet_move:
  assumes inv: "\<forall>s. side_inv conv mtu net n m s" and "fixed_side k' = fixed_side (pr_kcp (net s))"
    and half: "half_inv (stream (mtu - 28) (pr_sent (net (\<not> s)))) (stream (mtu - 28) (pr_sent (net s))) (held mtu net n (\<not> s)) n' m' k'"
    and grow: "held mtu net n s \<subseteq> received (stream (mtu - 28) (pr_sent (net (\<not> s)))) n' k'"
    and queue: "n' - length (rcv_queue k') = n s - length (rcv_queue (pr_kcp (net s)))"
    and wire: "\<forall>p \<in> set w'. p \<in> set (pr_wire (net s)) \<or> packet_of (stream (mtu - 28) (pr_sent (net s)))
      (received (stream (mtu - 28) (pr_sent (net (\<not> s)))) n' k') conv p \<and> length p \<le> mtu"
  shows "net_inv conv mtu (net(s := (net s)\<lparr>pr_kcp := k', pr_wire := w'\<rparr>))"
proof -
  have old: "static_ok conv mtu (pr_kcp (net s))" "got_ok mtu (pr_sent (net (\<not> s))) (n s) (net s)"
    using inv by (simp_all add: side_inv_def)
  have "\<forall>t. side_inv conv mtu (net(s := (net s)\<lparr>pr_kcp := k', pr_wire := w'\<rparr>)) (n(s := n')) (m(s := m')) t"
    by (rule net_move [OF inv, where msgs = "[]"])
      (use assms old static_fixed [OF assms(2)] in \<open>simp_all add: got_ok_def\<close>)
  then show ?thesis unfolding net_inv_def by blast
qed

lemma net_flush_ok:
  assumes inv: "\<forall>s. side_inv conv mtu net n m s" and mtu: "28 < mtu" "mtu < 2 ^ 32"
    and q: "quiet (pr_kcp (net s)) k1"
  shows "\<exists>r k'. kcp_flush k1 = Some (r, k') \<and> net_inv conv mtu (net(s := (net s)\<lparr>pr_kcp := k'\<rparr>))"
    and "net_inv conv mtu (net(s := (net s)\<lparr>pr_kcp := k1\<rparr>))"
proof -
  let ?Li = "stream (mtu - 28) (pr_sent (net (\<not> s)))" and ?Lo = "stream (mtu - 28) (pr_sent (net s))"
  have half: "half_inv ?Li ?Lo (held mtu net n (\<not> s)) (n s) (m s) (pr_kcp (net s))" and static: "static_ok conv mtu (pr_kcp (net s))"
    using inv by (simp_all add: side_inv_def)
  have h1: "half_inv ?Li ?Lo (held mtu net n (\<not> s)) (n s) (m s) k1" "received ?Li (n s) k1 = held mtu net n s"
    "local_side k1 = local_side (pr_kcp (net s))"
    using half_inv_quiet [OF half q] by (simp_all add: held_def)
  then have l1: "fixed_side k1 = fixed_side (pr_kcp (net s))" "rcv_queue k1 = rcv_queue (pr_kcp (net s))"
    by (simp_all add: local_side_def rcv_side_def)
  have "frags_fit (kc_mtu k1) ?Lo" using stream_fits [OF mtu] static l1(1) by (simp add: static_ok_def fixed_side_def)
  from half_inv_flush [OF h1(1) this] obtain r k' m' where k': "kcp_flush k1 = Some (r, k')" "local_side k' = local_side k1"
    "half_inv ?Li ?Lo (held mtu net n (\<not> s)) (n s) m' k'" "received ?Li (n s) k' = received ?Li (n s) k1" by blast
  have "fixed_side k' = fixed_side (pr_kcp (net s))" "rcv_queue k' = rcv_queue (pr_kcp (net s))"
    using k'(2) l1 by (simp_all add: local_side_def rcv_side_def)
  then have "net_inv conv mtu (net(s := (net s)\<lparr>pr_kcp := k', pr_wire := pr_wire (net s)\<rparr>))"
    using k'(3,4) h1(2) by (intro net_quiet_move [OF inv]) simp_all
  then show "\<exists>r k'. kcp_flush k1 = Some (r, k') \<and> net_inv conv mtu (net(s := (net s)\<lparr>pr_kcp := k'\<rparr>))" using k'(1) by simp
  have "net_inv conv mtu (net(s := (net s)\<lparr>pr_kcp := k1, pr_wire := pr_wire (net s)\<rparr>))"
    using h1 l1 by (intro net_quiet_move [OF inv, where n' = "n s" and m' = "m s"]) simp_all
  then show "net_inv conv mtu (net(s := (net s)\<lparr>pr_kcp := k1\<rparr>))" by simp
qed

lemma net_take_ok:
  assumes inv: "\<forall>s. side_inv conv mtu net n m s"
  shows "net_inv conv mtu (net(s := (net s)\<lparr>pr_kcp := (pr_kcp (net s))\<lparr>kc_output := []\<rparr>, pr_wire := pr_wire (net s) @ kc_output (pr_kcp (net s))\<rparr>))"
proof -
  let ?Li = "stream (mtu - 28) (pr_sent (net (\<not> s)))" and ?Lo = "stream (mtu - 28) (pr_sent (net s))" and ?k = "pr_kcp (net s)"
  have half: "half_inv ?Li ?Lo (held mtu net n (\<not> s)) (n s) (m s) ?k" and static: "static_ok conv mtu ?k"
    using inv by (simp_all add: side_inv_def)
  have same: "received ?Li (n s) (?k\<lparr>kc_output := []\<rparr>) = received ?Li (n s) ?k" by (simp add: received_def)
  have "half_inv ?Li ?Lo (held mtu net n (\<not> s)) (n s) (m s) (?k\<lparr>kc_output := []\<rparr>)"
    using half unfolding half_inv_def same by (simp add: rcv_ok_def rcv_inv_def received_def snd_ok_def out_ok_def io_ok_def io_side_def)
  moreover have "\<forall>p \<in> set (kc_output ?k). packet_of ?Lo (received ?Li (n s) ?k) conv p \<and> length p \<le> mtu"
    using half static by (simp add: half_inv_def out_ok_def io_ok_def io_side_def static_ok_def)
  ultimately show ?thesis
    by (intro net_quiet_move [OF inv, where n' = "n s" and m' = "m s"]) (use same in \<open>auto simp: held_def fixed_side_def\<close>)
qed

lemma net_input_ok:
  assumes inv: "\<forall>s. side_inv conv mtu net n m s" and short: "\<forall>s. length (stream (mtu - 28) (pr_sent (net s))) \<le> 2 ^ 30"
    and p: "p \<in> set (pr_wire (net (\<not> s)))"
  shows "\<exists>r k'. kcp_input (pr_kcp (net s)) now p = Some (r, k') \<and> net_inv conv mtu (net(s := (net s)\<lparr>pr_kcp := k'\<rparr>))"
proof -
  let ?Li = "stream (mtu - 28) (pr_sent (net (\<not> s)))" and ?Lo = "stream (mtu - 28) (pr_sent (net s))" and ?k = "pr_kcp (net s)"
  have half: "half_inv ?Li ?Lo (held mtu net n (\<not> s)) (n s) (m s) ?k" and static: "static_ok conv mtu ?k"
    using inv by (simp_all add: side_inv_def)
  have other: "half_inv ?Lo ?Li (held mtu net n s) (n (\<not> s)) (m (\<not> s)) (pr_kcp (net (\<not> s)))"
    using inv [THEN spec, of "\<not> s"] by (simp add: side_inv_def)
  have bound: "held mtu net n (\<not> s) \<subseteq> {..<length ?Lo}"
    using received_bounded [of ?Lo "n (\<not> s)" "pr_kcp (net (\<not> s))"] other by (simp add: held_def half_inv_def)
  have "packet_of ?Li (held mtu net n (\<not> s)) (kc_conv ?k) p"
    using inv [THEN spec, of "\<not> s"] p static by (simp add: side_inv_def static_ok_def)
  moreover have "tuned ?k" using static by (simp add: static_ok_def)
  ultimately obtain r k' n' where k': "kcp_input ?k now p = Some (r, k')" "n s \<le> n'"
    "half_inv ?Li ?Lo (held mtu net n (\<not> s)) n' (m s) k'" "fixed_side k' = fixed_side ?k"
    "received ?Li (n s) ?k \<subseteq> received ?Li n' k'" "length (rcv_queue k') = length (rcv_queue ?k) + (n' - n s)"
    using half_inv_input [OF half short [THEN spec] short [THEN spec] bound] by blast
  have "length (rcv_queue ?k) \<le> n s" using half by (simp add: half_inv_def rcv_ok_def rcv_inv_def)
  then have "n' - length (rcv_queue k') = n s - length (rcv_queue ?k)" using k'(2,6) by linarith
  then have "net_inv conv mtu (net(s := (net s)\<lparr>pr_kcp := k', pr_wire := pr_wire (net s)\<rparr>))"
    using k'(3,4,5) unfolding held_def [of mtu net n s, symmetric] by (intro net_quiet_move [OF inv]) simp_all
  with k'(1) show ?thesis by simp
qed

lemma net_send_ok:
  assumes inv: "\<forall>s. side_inv conv mtu net n m s" and mtu: "28 < mtu"
  shows "\<exists>r k'. kcp_send (pr_kcp (net s)) msg = Some (r, k') \<and>
    net_inv conv mtu (net(s := (net s)\<lparr>pr_kcp := k', pr_sent := (case r of Inl e \<Rightarrow> pr_sent (net s) | Inr w \<Rightarrow> pr_sent (net s) @ [msg])\<rparr>)) \<and>
    (\<forall>w. r = Inr w \<longrightarrow> length (fragments (mtu - 28) msg) < 256)"
proof -
  let ?Li = "stream (mtu - 28) (pr_sent (net (\<not> s)))" and ?Lo = "stream (mtu - 28) (pr_sent (net s))" and ?k = "pr_kcp (net s)"
  have half: "half_inv ?Li ?Lo (held mtu net n (\<not> s)) (n s) (m s) ?k" and static: "static_ok conv mtu ?k"
    and got: "got_ok mtu (pr_sent (net (\<not> s))) (n s) (net s)"
    using inv by (simp_all add: side_inv_def)
  have mss: "kc_mss ?k = mtu - 28" "0 < kc_mss ?k" using static mtu by (simp_all add: static_ok_def)
  have "\<exists>r k'. kcp_send ?k msg = Some (r, k')" using kcp_send_spec [OF mss(2), of msg] by (elim exE conjE) (simp split: if_split)
  then obtain r k' where run: "kcp_send ?k msg = Some (r, k')" by blast
  note sent = half_inv_send [OF half mss(2) run]
  show ?thesis
  proof (cases r)
    case (Inl e)
    with sent have "k' = ?k" by simp
    then have same: "net(s := (net s)\<lparr>pr_kcp := k'\<rparr>) = net" by simp
    have "net_inv conv mtu net" unfolding net_inv_def using inv by blast
    with run Inl show ?thesis by (simp add: same)
  next
    case (Inr w)
    then have h: "half_inv ?Li (?Lo @ fragments (mtu - 28) msg) (held mtu net n (\<not> s)) (n s) (m s) k'"
      "length (fragments (mtu - 28) msg) < 256" "local_side k' = local_side ?k"
      using sent length_fragments [OF mss(2), of msg] unfolding mss(1) by simp_all
    let ?p = "(net s)\<lparr>pr_kcp := k', pr_sent := pr_sent (net s) @ [msg]\<rparr>"
    have l: "rcv_queue k' = rcv_queue ?k" "static_ok conv mtu k'" "received ?Li (n s) k' = received ?Li (n s) ?k"
      using h(3) static static_fixed [of k' ?k] by (simp_all add: local_side_def rcv_side_def received_def)
    have "\<forall>t. side_inv conv mtu (net(s := ?p)) (n(s := n s)) (m(s := m s)) t"
      by (rule net_move [OF inv, where msgs = "[msg]"])
        (use h l got in \<open>simp_all add: got_ok_def held_def\<close>)
    then have "net_inv conv mtu (net(s := ?p))" unfolding net_inv_def by blast
    with run Inr h(2) show ?thesis by simp
  qed
qed

lemma net_recv_ok:
  assumes inv: "\<forall>s. side_inv conv mtu net n m s" and short: "\<forall>s. length (stream (mtu - 28) (pr_sent (net s))) \<le> 2 ^ 30"
    and mtu: "28 < mtu"
  shows "\<exists>r buf' k'. kcp_recv (pr_kcp (net s)) buf = Some (r, buf', k') \<and>
    net_inv conv mtu (net(s := (net s)\<lparr>pr_kcp := k', pr_got := (case r of Inl e \<Rightarrow> pr_got (net s) | Inr w \<Rightarrow> pr_got (net s) @ [take w buf'])\<rparr>))"
proof -
  let ?Li = "stream (mtu - 28) (pr_sent (net (\<not> s)))" and ?Lo = "stream (mtu - 28) (pr_sent (net s))" and ?k = "pr_kcp (net s)"
  have half: "half_inv ?Li ?Lo (held mtu net n (\<not> s)) (n s) (m s) ?k" and static: "static_ok conv mtu ?k"
    and fits: "\<forall>msg \<in> set (pr_sent (net (\<not> s))). length (fragments (mtu - 28) msg) < 256"
    using inv [THEN spec, of s] inv [THEN spec, of "\<not> s"] by (simp_all add: side_inv_def)
  have "net_inv conv mtu net" unfolding net_inv_def using inv by blast
  then have fail: ?thesis if "kcp_recv ?k buf = Some (Inl e, buf, ?k)" for e using that by simp
  from inv [THEN spec, of s] obtain rest where rest: "pr_sent (net (\<not> s)) = pr_got (net s) @ rest"
    and at: "n s - length (rcv_queue ?k) = length (stream (mtu - 28) (pr_got (net s)))" by (auto simp: side_inv_def got_ok_def)
  show ?thesis
  proof (cases rest)
    case Nil
    then have "n s - length (rcv_queue ?k) = length ?Li" using rest at by simp
    moreover have "rcv_inv ?Li (n s) ?k" using half by (simp add: half_inv_def rcv_ok_def)
    ultimately show ?thesis using half_inv_recv_empty fail by blast
  next
    case (Cons msg rest')
    have front: "drop (n s - length (rcv_queue ?k)) ?Li = fragments (mtu - 28) msg @ stream (mtu - 28) rest'"
      unfolding at rest Cons by (simp add: stream_def)
    have fit: "length (fragments (mtu - 28) msg) < 256" using fits rest Cons by simp
    have mss: "0 < mtu - 28" using mtu by simp
    consider e where "kcp_recv ?k buf = Some (Inl e, buf, ?k)"
      | k' n' where "kcp_recv ?k buf = Some (Inr (length msg), msg @ drop (length msg) buf, k')" "n s \<le> n'"
        "half_inv ?Li ?Lo (held mtu net n (\<not> s)) n' (m s) k'" "fixed_side k' = fixed_side ?k" "received ?Li (n s) ?k \<subseteq> received ?Li n' k'"
        "n' - length (rcv_queue k') = (n s - length (rcv_queue ?k)) + length (fragments (mtu - 28) msg)"
      using half_inv_recv [OF half short [THEN spec] front mss fit, of buf] by blast
    then show ?thesis
    proof cases
      case (2 k' n')
      let ?p = "(net s)\<lparr>pr_kcp := k', pr_got := pr_got (net s) @ [msg]\<rparr>"
      have "static_ok conv mtu k'" using static static_fixed [OF 2(4)] by simp
      moreover have "got_ok mtu (pr_sent (net (\<not> s))) n' ?p" using 2(6) at rest Cons by (simp add: got_ok_def)
      ultimately have "\<forall>t. side_inv conv mtu (net(s := ?p)) (n(s := n')) (m(s := m s)) t"
        using 2(3,5) by (intro net_move [OF inv, where msgs = "[]"]) (simp_all add: held_def)
      then have "net_inv conv mtu (net(s := ?p))" unfolding net_inv_def by blast
      with 2(1) show ?thesis by simp
    qed (rule fail)
  qed
qed

lemma net_step_ok:
  assumes inv: "net_inv conv mtu net" and mtu: "28 < mtu" "mtu < 2 ^ 32"
    and short: "\<forall>s. length (stream (mtu - 28) (pr_sent (net s))) \<le> 2 ^ 30"
  shows "\<exists>net'. net_step a net = Some net' \<and> net_inv conv mtu net' \<and>
    (\<forall>s. length (stream (mtu - 28) (pr_sent (net' s))) \<le> length (stream (mtu - 28) (pr_sent (net s))) + budget [a])"
proof -
  from inv obtain n m where sides: "\<forall>s. side_inv conv mtu net n m s" by (auto simp: net_inv_def)
  show ?thesis
  proof (cases a)
    case (Net_send s msg)
    from net_send_ok [OF sides mtu(1), of s msg] obtain r k' where r: "kcp_send (pr_kcp (net s)) msg = Some (r, k')"
      "net_inv conv mtu (net(s := (net s)\<lparr>pr_kcp := k', pr_sent := (case r of Inl e \<Rightarrow> pr_sent (net s) | Inr w \<Rightarrow> pr_sent (net s) @ [msg])\<rparr>))"
      "\<forall>w. r = Inr w \<longrightarrow> length (fragments (mtu - 28) msg) < 256" by blast
    with Net_send show ?thesis by (cases r) (simp_all add: budget_def)
  next
    case (Net_update s now)
    obtain k1 where k1: "quiet (pr_kcp (net s)) k1"
      "kcp_update (pr_kcp (net s)) now = kcp_flush k1 \<or> kcp_update (pr_kcp (net s)) now = Some (Inr (), k1)"
      by (rule kcp_update_cases)
    from net_flush_ok [OF sides mtu k1(1)] k1(2) Net_update show ?thesis by auto
  next
    case (Net_flush s)
    with net_flush_ok(1) [OF sides mtu quiet_refl, of s] show ?thesis by auto
  next
    case (Net_input s now j)
    with net_input_ok [OF sides short nth_mem, of j s now] inv show ?thesis by auto
  next
    case (Net_recv s cap)
    with net_recv_ok [OF sides short mtu(1), of s "replicate cap 0"] show ?thesis by auto
  next
    case (Net_take s)
    with net_take_ok [OF sides, of s] show ?thesis by (auto simp: take_output_def)
  qed
qed

lemma net_run_ok:
  assumes "net_inv conv mtu net" "28 < mtu" "mtu < 2 ^ 32"
    and "\<forall>s. length (stream (mtu - 28) (pr_sent (net s))) + budget acts \<le> 2 ^ 30"
  shows "\<exists>net'. fold_run net_step acts net = Some net' \<and> net_inv conv mtu net' \<and> (\<forall>s. length (stream (mtu - 28) (pr_sent (net' s))) \<le> 2 ^ 30)"
  using assms(1,4)
proof (induction acts arbitrary: net)
  case Nil
  then show ?case by (simp add: budget_def)
next
  case (Cons a acts)
  have b: "budget (a # acts) = budget [a] + budget acts" by (simp add: budget_def)
  have "\<forall>s. length (stream (mtu - 28) (pr_sent (net s))) \<le> 2 ^ 30" using Cons.prems(2) by (meson add_leD1)
  from net_step_ok [OF Cons.prems(1) assms(2,3) this, of a] obtain net1 where net1: "net_step a net = Some net1" "net_inv conv mtu net1"
    "\<forall>s. length (stream (mtu - 28) (pr_sent (net1 s))) \<le> length (stream (mtu - 28) (pr_sent (net s))) + budget [a]" by blast
  have "\<forall>s. length (stream (mtu - 28) (pr_sent (net1 s))) + budget acts \<le> 2 ^ 30"
  proof
    fix s
    show "length (stream (mtu - 28) (pr_sent (net1 s))) + budget acts \<le> 2 ^ 30"
      using net1(3) [THEN spec, of s] Cons.prems(2) [THEN spec, of s] unfolding b by linarith
  qed
  from Cons.IH [OF net1(2) this] net1(1) show ?case by simp
qed

lemma timing_new_range: "rto_nodelay (timing_new sc) \<le> rto_max (timing_new sc)" "rto_normal (timing_new sc) \<le> rto_max (timing_new sc)"
proof -
  have u: "unat (ucast sc :: u32) = unat sc" "unat sc < 256"
    using unsigned_less [of sc, where ?'a = nat] by (simp_all add: unsigned_ucast_eq take_bit_nat_eq_self)
  then show "rto_nodelay (timing_new sc) \<le> rto_max (timing_new sc)" "rto_normal (timing_new sc) \<le> rto_max (timing_new sc)"
    by (simp_all add: timing_new_def Let_def word_le_nat_alt unat_word_ariths)
qed

lemma net_new_ok:
  assumes "28 < kp_mtu params" "kp_mtu params < 2 ^ 32"
  shows "net_inv conv (kp_mtu params) (net_new conv params)"
proof -
  let ?k = "kcp_new conv params"
  have f: "kc_conv ?k = conv" "kc_mtu ?k = kp_mtu params" "kc_mss ?k = kp_mtu params - 28" "rcv_buf ?k = []" "rcv_queue ?k = []"
    "snd_buf ?k = []" "snd_queue ?k = []" "acklist ?k = []" "kc_buf ?k = []" "kc_output ?k = []" "snd_nxt ?k = 0" "rcv_nxt ?k = 0"
    "kc_timing ?k = timing_new (kp_time_scale params)"
    "rx_minrto ?k = (if kp_nodelay params then rto_nodelay (timing_new (kp_time_scale params)) else rto_normal (timing_new (kp_time_scale params)))"
    using assms by (simp_all add: kcp_new_def Let_def)
  have "static_ok conv (kp_mtu params) ?k" using assms timing_new_range by (simp add: static_ok_def tuned_def f)
  moreover have "half_inv [] [] {} 0 0 ?k"
    using assms by (simp add: half_inv_def rcv_ok_def rcv_inv_def rcv_buf_inv_def received_def snd_ok_def out_ok_def io_ok_def io_side_def f sn_of_def)
  ultimately have "side_inv conv (kp_mtu params) (net_new conv params) (\<lambda>_. 0) (\<lambda>_. 0) s" for s
    by (simp add: side_inv_def net_new_def held_def got_ok_def received_def f)
  then show ?thesis unfolding net_inv_def by blast
qed

lemma net_reached:
  assumes "28 < kp_mtu params" "kp_mtu params < 2 ^ 32" "length (filter is_send acts) \<le> 2 ^ 22"
  shows "\<exists>net n m. fold_run net_step acts (net_new conv params) = Some net \<and> (\<forall>s. side_inv conv (kp_mtu params) net n m s) \<and>
    (\<forall>s. length (stream (kp_mtu params - 28) (pr_sent (net s))) \<le> 2 ^ 30)"
proof -
  have "\<forall>s. length (stream (kp_mtu params - 28) (pr_sent (net_new conv params s))) + budget acts \<le> 2 ^ 30"
    using assms(3) by (simp add: net_new_def budget_def)
  from net_run_ok [OF net_new_ok [OF assms(1,2)] assms(1,2) this] show ?thesis by (auto simp: net_inv_def)
qed

lemma demo_delivers:
  "map_option (\<lambda>net. (pr_sent (net True), pr_got (net False), wait_snd (pr_kcp (net True)), map length (pr_wire (net True))))
     (fold_run net_step demo_schedule (net_new 7 demo_params)) = Some ([[1, 2, 3, 4, 5, 6]], [[1, 2, 3, 4, 5, 6]], 0, [32, 30])"
  by code_simp

lemma demo_net_run:
  "fold_run net_step demo_schedule (net_new 7 demo_params) = Some demo_net" "wait_snd (pr_kcp (demo_net True)) = 0"
  "map length (pr_wire (demo_net True)) = [32, 30]"
  using demo_delivers by (auto simp: demo_net_def)

text \<open>C1.  Reliable, in-order, exactly-once delivery.  Whatever the application calls on two peers of one
  conversation (sends, receives with any buffer, updates at any time, flushes) and whatever the network
  loses, repeats or reorders, no call panics and the messages each peer has received are a prefix of the
  messages the other peer sent, byte for byte, for any schedule with at most \<open>2 ^ 22\<close> sends.\<close>

theorem kcp_delivers_in_order:
  assumes "28 < kp_mtu params" "kp_mtu params < 2 ^ 32" "length (filter is_send acts) \<le> 2 ^ 22"
  shows "\<exists>net. fold_run net_step acts (net_new conv params) = Some net \<and>
    (\<forall>s. prefix (pr_got (net s)) (pr_sent (net (\<not> s))))"
proof -
  from net_reached [OF assms, of conv] obtain net n m where net: "fold_run net_step acts (net_new conv params) = Some net"
    "\<forall>s. side_inv conv (kp_mtu params) net n m s" by blast
  have "prefix (pr_got (net s)) (pr_sent (net (\<not> s)))" for s
    using net(2) [THEN spec, of s] by (auto simp: side_inv_def got_ok_def prefix_def)
  with net(1) show ?thesis by blast
qed

theorem kcp_delivers_in_order_witness:
  "\<exists>net. fold_run net_step demo_schedule (net_new 7 demo_params) = Some net \<and>
    (\<forall>s. prefix (pr_got (net s)) (pr_sent (net (\<not> s)))) \<and> pr_got (net False) = [[1, 2, 3, 4, 5, 6]]"
proof -
  have "length (filter is_send demo_schedule) \<le> 2 ^ 22" by (simp add: demo_schedule_def)
  from kcp_delivers_in_order [OF _ _ this, of demo_params 7] demo_delivers show ?thesis
    by (auto simp: demo_params_def)
qed

lemma buffered_count:
  assumes inv: "rcv_inv L n k" and short: "length L \<le> 2 ^ 30" and all: "{..<length L} \<subseteq> received L n k"
  shows "length L = n + length (rcv_buf k)"
proof -
  from inv obtain idx where idx: "list_all2 (matches L) (rcv_buf k) idx" "sorted_wrt (<) idx" "\<forall>i \<in> set idx. n \<le> i"
    by (auto simp: rcv_inv_def rcv_buf_inv_def)
  have "received L n k = {..<n} \<union> set idx"
  proof -
    have "i \<in> set idx" if "seg \<in> set (rcv_buf k)" "matches L seg i" for seg i
    proof -
      from that(1) idx(1) obtain j where "j \<in> set idx" "matches L seg j" by (metis (no_types, lifting) in_set_conv_nth list_all2_conv_all_nth)
      with that(2) short matches_unique show ?thesis by blast
    qed
    moreover have "\<exists>seg \<in> set (rcv_buf k). matches L seg i" if "i \<in> set idx" for i
      using that idx(1) by (metis (no_types, lifting) in_set_conv_nth list_all2_conv_all_nth)
    ultimately show ?thesis unfolding received_def by blast
  qed
  moreover have "set idx \<subseteq> {..<length L}"
    using idx(1) by (auto simp: list_all2_conv_all_nth in_set_conv_nth matches_def)
  moreover have "n \<le> length L" using inv by (simp add: rcv_inv_def)
  ultimately have "{..<length L} = {..<n} \<union> set idx" using all by auto
  moreover have "{..<n} \<inter> set idx = {}" using idx(3) by auto
  ultimately have "length L = n + card (set idx)" by (metis card_Un_disjoint card_lessThan finite_lessThan finite_set)
  moreover have "distinct idx" using idx(2) by (simp add: strict_sorted_iff)
  ultimately show ?thesis using list_all2_lengthD [OF idx(1)] distinct_card by metis
qed

text \<open>C3.  Nothing is forgotten before it arrived.  When a peer has no fragment left to send or
  to have acknowledged, the other peer holds every fragment ever sent to it: the fragments of the messages
  it has received plus those in its receive queue and its reorder buffer make up all that was sent.\<close>

theorem kcp_loses_nothing:
  assumes "28 < kp_mtu params" "kp_mtu params < 2 ^ 32" "length (filter is_send acts) \<le> 2 ^ 22"
    and "fold_run net_step acts (net_new conv params) = Some net" and "wait_snd (pr_kcp (net s)) = 0"
  shows "length (stream (kp_mtu params - 28) (pr_sent (net s))) =
    length (stream (kp_mtu params - 28) (pr_got (net (\<not> s)))) +
    length (rcv_queue (pr_kcp (net (\<not> s)))) + length (rcv_buf (pr_kcp (net (\<not> s))))"
proof -
  let ?L = "stream (kp_mtu params - 28) (pr_sent (net s))" and ?o = "pr_kcp (net (\<not> s))"
  from net_reached [OF assms(1-3), of conv] assms(4) obtain n m where inv: "\<forall>s. side_inv conv (kp_mtu params) net n m s"
    "length ?L \<le> 2 ^ 30" by auto
  have snd: "snd_ok ?L (received ?L (n (\<not> s)) ?o) (m s) (pr_kcp (net s))"
    using inv(1) [THEN spec, of s] by (simp add: side_inv_def half_inv_def held_def)
  from inv(1) [THEN spec, of "\<not> s"] have other: "rcv_inv ?L (n (\<not> s)) ?o"
    "n (\<not> s) - length (rcv_queue ?o) = length (stream (kp_mtu params - 28) (pr_got (net (\<not> s))))"
    by (simp_all add: side_inv_def half_inv_def rcv_ok_def got_ok_def)
  have "snd_buf (pr_kcp (net s)) = []" "snd_queue (pr_kcp (net s)) = []" using assms(5) by (simp_all add: wait_snd_def)
  with snd have "\<forall>i < m s. i \<in> received ?L (n (\<not> s)) ?o" "length ?L \<le> m s" by (auto simp: snd_ok_def)
  then have "{..<length ?L} \<subseteq> received ?L (n (\<not> s)) ?o" by auto
  from buffered_count [OF other(1) inv(2) this] other show ?thesis by (auto simp: rcv_inv_def)
qed

theorem kcp_loses_nothing_witness:
  "length (stream (32 - 28) (pr_sent (demo_net True))) = length (stream (32 - 28) (pr_got (demo_net (\<not> True)))) +
    length (rcv_queue (pr_kcp (demo_net (\<not> True)))) + length (rcv_buf (pr_kcp (demo_net (\<not> True))))"
  using kcp_loses_nothing [of demo_params demo_schedule 7 demo_net True] demo_net_run
  by (simp add: demo_params_def demo_schedule_def)

text \<open>C38.  No packet a peer emits is longer than the MTU it was created with.\<close>

theorem kcp_packets_fit:
  assumes "28 < kp_mtu params" "kp_mtu params < 2 ^ 32" "length (filter is_send acts) \<le> 2 ^ 22"
    and "fold_run net_step acts (net_new conv params) = Some net" and "p \<in> set (pr_wire (net s))"
  shows "length p \<le> kp_mtu params"
proof -
  from net_reached [OF assms(1-3), of conv] assms(4) obtain n m where "\<forall>s. side_inv conv (kp_mtu params) net n m s" by auto
  with assms(5) show ?thesis by (simp add: side_inv_def)
qed

theorem kcp_packets_fit_witness: "length (hd (pr_wire (demo_net True))) \<le> 32"
proof -
  have "pr_wire (demo_net True) \<noteq> []" using demo_net_run by auto
  with kcp_packets_fit [of demo_params demo_schedule 7 demo_net "hd (pr_wire (demo_net True))" True] demo_net_run show ?thesis
    by (simp add: demo_params_def demo_schedule_def)
qed

subsection \<open>Timers, retransmission time-out and untrusted input\<close>

lemma rto_ok_side: "rto_side k' = rto_side k \<Longrightarrow> rto_ok k' = rto_ok k"
  by (simp add: rto_side_def rto_ok_def)

lemma rto_frames [frame_simps]:
  "rto_side (shrink_buf k) = rto_side k" "rto_side (parse_una k una) = rto_side k" "rto_side (parse_ack k sn) = rto_side k"
  "rto_side (parse_fastack k sn ts) = rto_side k" "rto_side (k\<lparr>rmt_wnd := w\<rparr>) = rto_side k" "rto_side (k\<lparr>probe := p\<rparr>) = rto_side k"
  "rto_side (k\<lparr>current := t\<rparr>) = rto_side k" "rto_side (k\<lparr>cwnd := c\<rparr>) = rto_side k" "rto_side (k\<lparr>incr := j\<rparr>) = rto_side k"
  "rto_side (move_buf k) = rto_side k"
  by (simp_all add: rto_side_def shrink_buf_def parse_una_def parse_ack_def parse_fastack_def move_buf_def split: prod.splits)

lemma input_push_rto [frame_simps]: "rto_side (input_push k seg) = rto_side k"
  by (simp add: input_push_def parse_data_def ack_push_def Let_def frame_simps split: prod.splits) (simp add: rto_side_def)

lemma update_ack_rto:
  assumes "update_ack k rtt = Some k'"
  shows "rto_ok k'"
proof -
  have fixed: "fixed_side k' = fixed_side k" using update_ack_frame [OF assms] by simp
  have "rx_minrto k \<le> rto_max (kc_timing k)"
    using assms by (auto simp: update_ack_def clamp_run_def Let_def linorder_not_less split: if_splits prod.splits)
  moreover obtain x where "clamp_run x (rx_minrto k) (rto_max (kc_timing k)) = Some (rx_rto k')"
    using assms by (auto simp: update_ack_def Let_def split: Option.bind_splits prod.splits)
  ultimately show ?thesis
    using fixed by (auto simp: rto_ok_def fixed_side_def clamp_run_def split: if_splits)
qed

lemma input_segment_rto:
  assumes "input_segment k vars hdr data = Some (k', vars')" "rto_ok k"
  shows "rto_ok k'"
proof -
  let ?k = "shrink_buf (parse_una (k\<lparr>rmt_wnd := sg_wnd hdr\<rparr>) (sg_una hdr))"
  have ok: "rto_ok ?k" using assms(2) rto_ok_side [of ?k k] by (simp add: frame_simps)
  from assms(1) show ?thesis
  proof (cases rule: input_segmentE)
    case ack
    from ack(2) obtain k1 where k1: "k1 = ?k \<or> (\<exists>rtt. update_ack ?k rtt = Some k1)" "k' = shrink_buf (parse_ack k1 (sg_sn hdr))"
      by (rule input_ackE)
    then have "rto_ok k1" using ok update_ack_rto by blast
    then show ?thesis using rto_ok_side [of k' k1] unfolding k1(2) by (simp add: frame_simps)
  next
    case push
    then show ?thesis using ok rto_ok_side [of k' ?k] by (simp only: frame_simps)
  next
    case (probe p)
    then show ?thesis using ok rto_ok_side [of k' ?k] by (simp only: frame_simps)
  next
    case none
    with ok show ?thesis by simp
  qed
qed

lemma grow_cwnd_rto:
  assumes "grow_cwnd k = Some k'"
  shows "rto_side k' = rto_side k"
proof -
  from assms obtain k1 where k1: "grow_incr k = Some k1" "k' = limit_cwnd k1"
    by (auto simp: grow_cwnd_def split: Option.bind_splits)
  from k1(1) have "rto_side k1 = rto_side k"
    by (auto simp: grow_incr_def Let_def frame_simps split: if_splits)
  with k1(2) show ?thesis by (simp add: limit_cwnd_def frame_simps)
qed

lemma kcp_input_rto:
  assumes "rto_ok k" "kcp_input k now buf = Some (r, k')"
  shows "rto_ok k'"
proof -
  have start: "rto_ok (k\<lparr>current := now\<rparr>)" using assms(1) by (simp add: rto_ok_def)
  have loop: "rto_ok k1" if "input_loop (k\<lparr>current := now\<rparr>) vars buf = Some (q, k1)" for vars q k1
    using that start by (rule input_loop_inv) (rule input_segment_rto)
  from assms(2) show ?thesis
  proof (cases rule: kcp_input_cases)
    case short
    then show ?thesis using assms(1) by simp
  next
    case (error e)
    then show ?thesis using loop by blast
  next
    case (ok vars rest k1 k2)
    have "rto_side k2 = rto_side k1" using ok(3) by (auto simp: frame_simps)
    moreover have "rto_side k' = rto_side k2" using ok(4) grow_cwnd_rto by auto
    ultimately have "rto_side k' = rto_side k1" by simp
    then show ?thesis using loop [OF ok(2)] rto_ok_side by blast
  qed
qed

lemma timing_new_nat:
  "unat (rto_nodelay (timing_new sc)) = 3 * unat sc" "unat (rto_normal (timing_new sc)) = 10 * unat sc"
  "unat (rto_initial (timing_new sc)) = 20 * unat sc" "unat (rto_max (timing_new sc)) = 6000 * unat sc"
proof -
  have u: "unat (ucast sc :: u32) = unat sc" "unat sc < 256"
    using unsigned_less [of sc, where ?'a = nat] by (simp_all add: unsigned_ucast_eq take_bit_nat_eq_self)
  then show "unat (rto_nodelay (timing_new sc)) = 3 * unat sc" "unat (rto_normal (timing_new sc)) = 10 * unat sc"
    "unat (rto_initial (timing_new sc)) = 20 * unat sc" "unat (rto_max (timing_new sc)) = 6000 * unat sc"
    by (simp_all add: timing_new_def Let_def unat_word_ariths)
qed

lemma kcp_new_rto: "rto_ok (kcp_new conv params)"
  by (simp add: rto_ok_def kcp_new_def Let_def word_le_nat_alt timing_new_nat)

lemma unat_of_delay: "0 \<le> d \<Longrightarrow> d < 2 ^ 31 \<Longrightarrow> unat (word_of_int d :: u32) = nat d"
  by (simp add: unsigned_of_int take_bit_int_eq_self nat_take_bit_eq [symmetric] take_bit_nat_eq_self)

lemma check_segments_bound:
  "check_segments now segs tm = Some t \<Longrightarrow> t \<le> tm \<and> (\<forall>seg \<in> set segs. int (unat t) \<le> timediff (sg_resendts seg) now)"
proof (induction now segs tm rule: check_segments.induct)
  case (2 now seg rest tm)
  let ?d = "timediff (sg_resendts seg) now"
  have pos: "0 < ?d" and rec: "check_segments now rest (min tm (word_of_int ?d)) = Some t"
    using 2(2) by (auto simp: Let_def split: if_splits)
  have lt: "?d < 2 ^ 31" unfolding timediff_def using sint_lt [of "sg_resendts seg - now"] by simp
  have "unat (word_of_int ?d :: u32) = nat ?d"
    using pos lt by (simp add: unat_of_delay)
  moreover have t: "t \<le> min tm (word_of_int ?d)" and all: "\<forall>seg \<in> set rest. int (unat t) \<le> timediff (sg_resendts seg) now"
    using 2(1) [OF refl _ rec] pos by simp_all
  ultimately have "unat t \<le> nat ?d" by (metis min.bounded_iff word_le_nat_alt)
  then have "int (unat t) \<le> ?d" using pos by linarith
  with t all show ?case by simp
qed simp

lemma kcp_check_bound:
  assumes "0 < kcp_check k now"
  shows "updated k \<and> kcp_check k now \<le> interval (kc_timing k) \<and> int (unat (kcp_check k now)) \<le> timediff (ts_flush k) now \<and>
    (\<forall>seg \<in> set (snd_buf k). int (unat (kcp_check k now)) \<le> timediff (sg_resendts seg) now)"
proof -
  have upd: "updated k" using assms by (auto simp: kcp_check_def split: if_splits)
  let ?late = "10000 \<le> timediff now (ts_flush k) \<or> timediff now (ts_flush k) < - 10000"
  have nl: "\<not> ?late" using assms upd by (auto simp: kcp_check_def Let_def timediff_def)
  have nd: "\<not> 0 \<le> timediff now (ts_flush k)" using assms upd nl by (auto simp: kcp_check_def Let_def)
  let ?tf = "word_of_int (timediff (ts_flush k) now) :: u32"
  from assms upd nl nd obtain tp where tp: "check_segments now (snd_buf k) (- 1) = Some tp"
    "kcp_check k now = min (min tp ?tf) (interval (kc_timing k))"
    by (auto simp: kcp_check_def Let_def split: option.splits)
  note c = check_segments_bound [OF tp(1)]
  have le: "kcp_check k now \<le> tp" "kcp_check k now \<le> ?tf" "kcp_check k now \<le> interval (kc_timing k)" 
    unfolding tp(2) by (meson min.cobounded1 min.cobounded2 order_trans)+
  have neg: "timediff (ts_flush k) now = - timediff now (ts_flush k)"
    by (rule timediff_int) (use nl nd in \<open>simp_all add: timediff_def\<close>)
  then have "unat ?tf = nat (timediff (ts_flush k) now)"
    using nl nd by (intro unat_of_delay) simp_all
  then have "unat (kcp_check k now) \<le> nat (timediff (ts_flush k) now)" using le(2) by (metis word_le_nat_alt)
  then have "int (unat (kcp_check k now)) \<le> timediff (ts_flush k) now" using nd neg by linarith
  moreover have "int (unat (kcp_check k now)) \<le> timediff (sg_resendts seg) now" if "seg \<in> set (snd_buf k)" for seg
  proof -
    have "int (unat tp) \<le> timediff (sg_resendts seg) now" using c that by blast
    moreover have "unat (kcp_check k now) \<le> unat tp" using le(1) by (simp add: word_le_nat_alt)
    ultimately show ?thesis by linarith
  qed
  ultimately show ?thesis using upd le(3) by blast
qed




text \<open>C39.  A receiver whose queue starts with the fragments \<open>kcp_send\<close> queued for a message announces the
  length of the message and returns exactly its bytes.\<close>

theorem kcp_send_recv_roundtrip:
  assumes "0 < kc_mss a" "kcp_send a m = Some (Inr w, a')" "rcv_queue b = drop (length (snd_queue a)) (snd_queue a') @ rest"
    and "length m \<le> length buf"
  shows "w = length m \<and> peeksize b = Inr (length m) \<and>
    (\<exists>b'. kcp_recv b buf = Some (Inr (length m), m @ drop (length m) buf, b'))"
proof -
  obtain n where n: "fragment_count (kc_mss a) (length m) = Some n" "0 < n" "length m \<le> n * kc_mss a"
    using fragment_count_covers [OF assms(1)] by blast
  from assms(2) n(1) have sent: "n < 256" "a' = a\<lparr>snd_queue := snd_queue a @ split_fragments (kc_mss a) n m\<rparr>" "w = length m"
    by (auto simp: kcp_send_def split: if_splits)
  obtain c where c: "n = Suc c" using n(2) by (metis gr0_conv_Suc)
  have "queue_front (rcv_queue b) (kc_mss a) m rest"
    unfolding queue_front_def using assms(3) sent n(3) c
    by (intro exI [of _ "split_fragments (kc_mss a) n m"] exI [of _ c]) simp
  with peeksize_message kcp_recv_message [OF _ assms(4)] sent(3) show ?thesis by blast
qed

theorem kcp_send_recv_roundtrip_witness:
  "6 = length [1, 2, 3, 4, 5, 6 :: u8] \<and> peeksize ((kcp_new 7 demo_params)\<lparr>rcv_queue := snd_queue demo_sender\<rparr>) = Inr (length [1, 2, 3, 4, 5, 6 :: u8]) \<and>
    (\<exists>b'. kcp_recv ((kcp_new 7 demo_params)\<lparr>rcv_queue := snd_queue demo_sender\<rparr>) (replicate 8 0) =
       Some (Inr (length [1, 2, 3, 4, 5, 6 :: u8]), [1, 2, 3, 4, 5, 6] @ drop (length [1, 2, 3, 4, 5, 6 :: u8]) (replicate 8 0), b'))"
proof (rule kcp_send_recv_roundtrip [where a = "kcp_new 7 demo_params" and a' = demo_sender and rest = "[]"])
  show "0 < kc_mss (kcp_new 7 demo_params)" by code_simp
  have "fst (the (kcp_send (kcp_new 7 demo_params) [1, 2, 3, 4, 5, 6])) = Inr 6"
    "kcp_send (kcp_new 7 demo_params) [1, 2, 3, 4, 5, 6] \<noteq> None" by code_simp+
  then show "kcp_send (kcp_new 7 demo_params) [1, 2, 3, 4, 5, 6] = Some (Inr 6, demo_sender)"
    by (auto simp: demo_sender_def)
  show "rcv_queue ((kcp_new 7 demo_params)\<lparr>rcv_queue := snd_queue demo_sender\<rparr>) =
      drop (length (snd_queue (kcp_new 7 demo_params))) (snd_queue demo_sender) @ []"
    by (simp add: kcp_new_def Let_def)
qed simp

text \<open>Whatever acknowledgements arrive, genuine or not, the retransmission time-out stays between the
  configured minimum and maximum.\<close>

lemma kcp_rto_stays_in_range:
  assumes "fold_run (\<lambda>(now, buf) k. map_option snd (kcp_input k now buf)) inputs (kcp_new conv params) = Some k"
  shows "rx_minrto k \<le> rx_rto k \<and> rx_rto k \<le> rto_max (kc_timing k)"
proof -
  have "rto_ok k"
    using assms kcp_new_rto
  proof (rule fold_run_inv)
    show "rto_ok k2" if "x \<in> set inputs" "rto_ok k1" "(case x of (now, buf) \<Rightarrow> \<lambda>k. map_option snd (kcp_input k now buf)) k1 = Some k2"
      for x k1 k2
      using that(2,3) kcp_input_rto by (cases x) auto
  qed
  then show ?thesis by (simp add: rto_ok_def)
qed

text \<open>The delay \<open>kcp_check\<close> asks for never sleeps past work that is due: a positive delay is at most
  the update interval, the time to the next flush and the time to every retransmission.\<close>

lemma kcp_check_no_overshoot:
  assumes "0 < kcp_check k now"
  shows "updated k \<and> kcp_check k now \<le> interval (kc_timing k) \<and> int (unat (kcp_check k now)) \<le> timediff (ts_flush k) now \<and>
    (\<forall>seg \<in> set (snd_buf k). int (unat (kcp_check k now)) \<le> timediff (sg_resendts seg) now)"
  using assms by (rule kcp_check_bound)



end
