(* ===== verification/Endpoint_Correct.thy ===== *)
theory Endpoint_Correct
  imports Endpoint_Sessions Kcp_Net
begin

section \<open>Correctness of the endpoint\<close>

text \<open>
  Runs of the endpoint: a sequence of events and polls with the labels they produce.  Every run is a
  path of the session system.  From this follow the invariant of the sessions (bounded send queue,
  deadlines and close reasons present), the protocol the shell sees of each session, and, with the
  filter's lemmas, that a repeated packet has no effect.
\<close>

subsection \<open>Definitions\<close>

definition sized :: "Kcp \<Rightarrow> usize \<times> fixed_part" where
  "sized k = (wait_snd k, fixed_side k)"

definition session_ok :: "KcpParams \<Rightarrow> usize \<Rightarrow> ConvId \<Rightarrow> EndpointSession \<Rightarrow> bool" where
  "session_ok params window c s \<longleftrightarrow>
     fixed_side (ss_kcp s) = fixed_side (kcp_new c params) \<and> wait_snd (ss_kcp s) \<le> window \<and>
     (ss_phase s = PendingRemote \<longrightarrow> ss_peer_seq s \<noteq> None \<and> ss_pending_close s = None) \<and>
     (ss_phase s \<noteq> Open \<longrightarrow> ss_close_deadline_at s \<noteq> None) \<and>
     (ss_phase s = ClosingLocal \<longrightarrow> ss_pending_close s \<noteq> None) \<and>
     (ss_close_queued s \<longrightarrow> ss_pending_close s \<noteq> None)"

definition sessions_ok :: "KcpParams \<Rightarrow> usize \<Rightarrow> (ConvId \<rightharpoonup> EndpointSession) \<Rightarrow> bool" where
  "sessions_ok params window S \<longleftrightarrow> (\<forall>c s. S c = Some s \<longrightarrow> session_ok params window c s)"

datatype view = Idle | Opened | Asked | Lingering

fun view_step :: "ConvId \<Rightarrow> view \<Rightarrow> session_event \<Rightarrow> view option" where
  "view_step c v (Asked_open d) = (if d \<noteq> c then Some v else if v = Idle \<or> v = Lingering then Some Opened else None)"
| "view_step c v (Asked_write d bs) = (if d \<noteq> c then Some v else if v = Opened then Some Opened else None)"
| "view_step c v (Asked_close d r) = (if d \<noteq> c then Some v else if v = Opened then Some Asked else None)"
| "view_step c v (Did (OpenSession d)) = (if d \<noteq> c then Some v else if v = Idle \<or> v = Lingering then Some Opened else None)"
| "view_step c v (Did (WriteSession d bs)) = (if d \<noteq> c then Some v else if v = Opened then Some Opened else None)"
| "view_step c v (Did (CloseSession d r)) = (if d \<noteq> c then Some v else
     case v of Opened \<Rightarrow> Some Lingering | Asked \<Rightarrow> Some Idle | Lingering \<Rightarrow> (if r = Reset then Some Idle else None) | Idle \<Rightarrow> None)"
| "view_step c v (Did (SendTransportPacket ch bs)) = Some v"

definition view_run :: "ConvId \<Rightarrow> session_event list \<Rightarrow> view option" where
  "view_run c es = fold (\<lambda>e v. Option.bind v (\<lambda>v. view_step c v e)) es (Some Idle)"

fun phase_view :: "EndpointSession option \<Rightarrow> view \<Rightarrow> bool" where
  "phase_view None v \<longleftrightarrow> v = Idle \<or> v = Lingering"
| "phase_view (Some s) v = (case ss_phase s of PendingRemote \<Rightarrow> v = Idle \<or> v = Lingering | Open \<Rightarrow> v = Opened
     | ClosingLocal \<Rightarrow> v = Asked | ClosingRemote \<Rightarrow> v = Lingering)"

datatype endpoint_op = Ep_event u64 CoreEvent | Ep_poll u64 "window_table \<Rightarrow> window_table"

fun op_requests :: "CoreEvent \<Rightarrow> CoreEventResult \<Rightarrow> session_event list" where
  "op_requests SessionOpen (SessionCreated c) = [Asked_open c]"
| "op_requests (SessionWrite c bs) EventNone = [Asked_write c bs]"
| "op_requests (SessionClose c reason) EventNone = [Asked_close c reason]"
| "op_requests _ _ = []"

fun endpoint_do :: "crypto \<Rightarrow> endpoint_op \<Rightarrow> EndpointCore \<Rightarrow> (EndpointCore \<times> session_event list) run" where
  "endpoint_do cr (Ep_event elapsed_ms event) core = do {
     (core', actions, result) \<leftarrow> endpoint_handle_event cr core elapsed_ms event [];
     Some (core', op_requests event result @ map Did actions)
   }"
| "endpoint_do cr (Ep_poll elapsed_ms hash_iter) core = do {
     (core', actions) \<leftarrow> endpoint_poll cr hash_iter core elapsed_ms [];
     Some (core', map Did actions)
   }"

fun endpoint_run :: "crypto \<Rightarrow> endpoint_op list \<Rightarrow> EndpointCore \<Rightarrow> (EndpointCore \<times> session_event list) run" where
  "endpoint_run cr [] core = Some (core, [])"
| "endpoint_run cr (x # xs) core = do {
     (core1, es) \<leftarrow> endpoint_do cr x core;
     (core2, fs) \<leftarrow> endpoint_run cr xs core1;
     Some (core2, es @ fs)
   }"

fun op_time :: "endpoint_op \<Rightarrow> u64" where
  "op_time (Ep_event elapsed_ms event) = elapsed_ms"
| "op_time (Ep_poll elapsed_ms hash_iter) = elapsed_ms"

definition ep_path :: "EndpointCore \<Rightarrow> session_event list \<Rightarrow> EndpointCore \<Rightarrow> bool" where
  "ep_path core es core' \<longleftrightarrow> ep_static core' = ep_static core \<and> (ep_net_ok core \<longrightarrow> ep_net_ok core') \<and>
     session_path (ep_kcp_params core) (ep_window core) (session_map core) es (session_map core')"

definition ep_tick :: "u64 \<Rightarrow> u64 \<Rightarrow> int" where
  "ep_tick boot elapsed_ms = (uint boot + uint elapsed_ms) div 1024"

fun ep_schedule :: "u64 \<Rightarrow> u64 \<Rightarrow> endpoint_op list \<Rightarrow> bool" where
  "ep_schedule boot clock [] \<longleftrightarrow> True"
| "ep_schedule boot clock (x # xs) \<longleftrightarrow> clock \<le> op_time x \<and> unat boot + unat (op_time x) < 2 ^ 64 \<and>
     ep_tick boot (op_time x) - ep_tick boot 0 + 704 < 2 ^ 25 \<and>
     (case x of Ep_poll _ hash_iter \<Rightarrow> \<forall>m. mset (hash_iter m) = mset m | _ \<Rightarrow> True) \<and>
     ep_schedule boot (op_time x) xs"

definition filter_goes :: "int \<Rightarrow> int \<times> SequenceFilter \<Rightarrow> int \<times> SequenceFilter \<Rightarrow> bool" where
  "filter_goes start s s' \<longleftrightarrow> filter_inv start s' \<and> (\<forall>j. filter_blocked start s j \<longrightarrow> filter_blocked start s' j)"

definition only_at :: "ConvId \<Rightarrow> EndpointCore \<Rightarrow> EndpointCore \<Rightarrow> bool" where
  "only_at c core core' \<longleftrightarrow> (\<forall>d. d \<noteq> c \<longrightarrow> session_map core' d = session_map core d)"

subsection \<open>What the KCP operations keep\<close>

lemma move_buf_wait [simp]: "wait_snd (move_buf k) = wait_snd k"
  by (simp add: wait_snd_def move_buf_def split: prod.splits)

lemma input_push_wait: "wait_snd (input_push k seg) = wait_snd k"
  by (auto simp: input_push_def parse_data_def ack_push_def wait_snd_def Let_def move_buf_def split: prod.splits)

lemma length_remove_acked: "length (remove_acked sn xs) \<le> length xs"
  by (induction sn xs rule: remove_acked.induct) auto

lemma ack_wait:
  "wait_snd (parse_una k una) \<le> wait_snd k" "wait_snd (parse_ack k sn) \<le> wait_snd k"
  "wait_snd (shrink_buf k) = wait_snd k" "wait_snd (k\<lparr>rmt_wnd := w\<rparr>) = wait_snd k" "wait_snd (k\<lparr>probe := p\<rparr>) = wait_snd k"
  "wait_snd (k\<lparr>current := t\<rparr>) = wait_snd k"
  using length_remove_acked [of sn "snd_buf k"]
  by (auto simp: wait_snd_def parse_una_def parse_ack_def shrink_buf_def length_dropWhile_le)

lemma update_ack_wait: "update_ack k rtt = Some k' \<Longrightarrow> wait_snd k' = wait_snd k"
  using update_ack_frame [of k rtt k'] by (simp add: snd_side_def wait_snd_def)

lemma grow_cwnd_wait: "grow_cwnd k = Some k' \<Longrightarrow> wait_snd k' = wait_snd k"
  using grow_cwnd_frame [of k k'] by (simp add: snd_side_def wait_snd_def)

lemma parse_fastack_wait: "wait_snd (parse_fastack k sn ts) = wait_snd k"
  using list_all2_lengthD [OF count_fastack_same, of "snd_buf k" sn ts] by (simp add: wait_snd_def parse_fastack_def)

lemma input_segment_wait:
  assumes "input_segment k vars hdr data = Some (k', vars')"
  shows "wait_snd k' \<le> wait_snd k"
proof -
  let ?k = "shrink_buf (parse_una (k\<lparr>rmt_wnd := sg_wnd hdr\<rparr>) (sg_una hdr))"
  have le: "wait_snd ?k \<le> wait_snd k" using ack_wait(1) [of "k\<lparr>rmt_wnd := sg_wnd hdr\<rparr>" "sg_una hdr"] by (simp add: ack_wait)
  from assms show ?thesis
  proof (cases rule: input_segmentE)
    case ack
    from ack(2) obtain k1 where k1: "k1 = ?k \<or> (\<exists>rtt. update_ack ?k rtt = Some k1)" "k' = shrink_buf (parse_ack k1 (sg_sn hdr))"
      by (rule input_ackE)
    then have "wait_snd k1 = wait_snd ?k" using update_ack_wait by blast
    then show ?thesis using le ack_wait(2) [of k1 "sg_sn hdr"] unfolding k1(2) by (simp add: ack_wait)
  next
    case push
    then show ?thesis using le by (simp add: input_push_wait)
  next
    case (probe p)
    then show ?thesis using le by (simp add: ack_wait)
  next
    case none
    then show ?thesis using le by simp
  qed
qed

lemma kcp_input_keeps:
  assumes "kcp_input k now buf = Some (r, k')"
  shows "wait_snd k' \<le> wait_snd k \<and> fixed_side k' = fixed_side k"
proof -
  have loop: "wait_snd k1 \<le> wait_snd k \<and> fixed_side k1 = fixed_side k" if "input_loop (k\<lparr>current := now\<rparr>) vars buf = Some (q, k1)" for vars q k1
    using that
  proof (rule input_loop_inv [where I = "\<lambda>k'. wait_snd k' \<le> wait_snd k \<and> fixed_side k' = fixed_side k"])
    show "wait_snd k2 \<le> wait_snd k \<and> fixed_side k2 = fixed_side k"
      if "wait_snd k1 \<le> wait_snd k \<and> fixed_side k1 = fixed_side k" "input_segment k1 vars hdr data = Some (k2, vars')" for k1 vars hdr data k2 vars'
      using that(1) input_segment_wait [OF that(2)] input_segment_fixed [OF that(2)] by simp
  qed (simp add: ack_wait frame_simps)
  from assms show ?thesis
  proof (cases rule: kcp_input_cases)
    case short
    then show ?thesis by simp
  next
    case (error e)
    then show ?thesis using loop by blast
  next
    case (ok vars rest k1 k2)
    have "wait_snd k2 = wait_snd k1" "fixed_side k2 = fixed_side k1" using ok(3) parse_fastack_wait by (auto simp: frame_simps)
    moreover have "wait_snd k' = wait_snd k2" "fixed_side k' = fixed_side k2" using ok(4) grow_cwnd_wait grow_cwnd_frame by auto
    ultimately show ?thesis using loop [OF ok(2)] by simp
  qed
qed

lemma kcp_recv_keeps:
  assumes "kcp_recv k buf = Some (r, buf', k')"
  shows "wait_snd k' = wait_snd k \<and> fixed_side k' = fixed_side k"
proof -
  have "k' = k \<or> (\<exists>rest. k' = move_buf (k\<lparr>rcv_queue := rest\<rparr>) \<or> k' = (move_buf (k\<lparr>rcv_queue := rest\<rparr>))\<lparr>probe := probe (move_buf (k\<lparr>rcv_queue := rest\<rparr>)) OR KCP_ASK_TELL\<rparr>)"
    using assms by (auto simp: kcp_recv_def Let_def split: if_splits sum.splits Option.bind_splits)
  moreover have "fixed_side (k\<lparr>rcv_queue := rest\<rparr>) = fixed_side k" "wait_snd (k\<lparr>rcv_queue := rest\<rparr>) = wait_snd k" for rest
    by (simp_all add: fixed_side_def wait_snd_def)
  ultimately show ?thesis by (auto simp: frame_simps ack_wait)
qed

lemma admit_segments_length: "admit_segments k win wnd queue nxt = (adm, left, nxt') \<Longrightarrow> length adm + length left = length queue"
  by (induction k win wnd queue nxt arbitrary: adm rule: admit_segments.induct) (auto simp: Let_def split: if_splits prod.splits)

lemma length_flush_segments: "flush_segments k wnd segs vars = (segs', vars') \<Longrightarrow> length segs' = length segs"
  by (induction segs arbitrary: vars segs') (auto simp: Let_def split: prod.splits)

lemma sized_frames:
  "sized (with_io k io) = sized k" "sized (k\<lparr>acklist := a\<rparr>) = sized k" "sized (k\<lparr>probe := p\<rparr>) = sized k" "sized (probe_wnd_size k) = sized k"
  "sized (k\<lparr>kc_output := out\<rparr>) = sized k" "sized (k\<lparr>current := t\<rparr>) = sized k" "sized (k\<lparr>updated := b\<rparr>) = sized k" "sized (k\<lparr>ts_flush := t\<rparr>) = sized k"
  by (simp_all add: sized_def wait_snd_def fixed_side_def with_io_def probe_wnd_size_def Let_def)

lemma flush_ack_sized: "flush_ack k seg = (k', seg') \<Longrightarrow> sized k' = sized k"
  by (auto simp: flush_ack_def sized_frames split: prod.splits)

lemma flush_probe_commands_sized:
  assumes "flush_probe_commands k seg = (k', seg')"
  shows "sized k' = sized k"
proof -
  have cmd: "sized (fst (flush_probe_command k cmd seg)) = sized k" for k cmd seg
    by (simp add: flush_probe_command_def Let_def sized_frames)
  obtain k1 s1 where k1: "(if probe k AND KCP_ASK_SEND \<noteq> 0 then flush_probe_command k KCP_CMD_WASK seg else (k, seg)) = (k1, s1)" by fastforce
  obtain k2 s2 where k2: "(if probe k1 AND KCP_ASK_TELL \<noteq> 0 then flush_probe_command k1 KCP_CMD_WINS s1 else (k1, s1)) = (k2, s2)" by fastforce
  have "sized k1 = sized k" using k1 cmd by (metis fst_conv)
  moreover have "sized k2 = sized k1" using k2 cmd by (metis fst_conv)
  moreover have "(k', seg') = (k2\<lparr>probe := 0\<rparr>, s2)"
    using assms unfolding flush_probe_commands_def k1 Let_def prod.case k2 by simp
  ultimately show ?thesis by (simp add: sized_frames)
qed

lemma flush_congestion_sized:
  assumes "flush_congestion k win lost change = Some k'"
  shows "sized k' = sized k"
proof -
  have "0 < change \<longrightarrow> fastresend k \<noteq> None" using assms by (auto simp: flush_congestion_def split: Option.bind_splits if_splits)
  from flush_congestion_frame [OF this, of win lost] assms show ?thesis
    by (auto simp: sized_def wait_snd_def snd_core_def local_side_def)
qed

lemma kcp_flush_sized:
  assumes "kcp_flush k = Some (r, k')"
  shows "sized k' = sized k"
proof (cases "updated k")
  case False
  with assms show ?thesis by (simp add: kcp_flush_def)
next
  case True
  define segment where "segment = segment_default\<lparr>sg_conv := kc_conv k, sg_cmd := KCP_CMD_ACK, sg_wnd := wnd_unused k, sg_una := rcv_nxt k\<rparr>"
  obtain k1 s1 where f1: "flush_ack k segment = (k1, s1)" by fastforce
  obtain k2 s2 where f2: "flush_probe_commands (probe_wnd_size k1) s1 = (k2, s2)" by fastforce
  obtain admitted left nxt' where adm: "admit_segments k2 (flush_window k2) (sg_wnd s2) (snd_queue k2) (snd_nxt k2) = (admitted, left, nxt')"
    by (metis prod_cases3)
  define k3 where "k3 = k2\<lparr>snd_queue := left, snd_buf := snd_buf k2 @ admitted, snd_nxt := nxt'\<rparr>"
  obtain segs vars where f3: "flush_segments k3 (sg_wnd s2) (snd_buf k3)
      \<lparr>fv_io = (kc_buf k3, kc_output k3), fv_lost = False, fv_change = 0\<rparr> = (segs, vars)" by fastforce
  define k4 where "k4 = with_io (k3\<lparr>snd_buf := segs\<rparr>) (emit_output (fv_io vars))"
  have "flush_congestion k4 (flush_window k2) (fv_lost vars) (fv_change vars) = Some k'"
    using assms True f1 f2 adm f3 unfolding kcp_flush_def segment_def k3_def k4_def
    by (auto simp: Let_def split: Option.bind_splits)
  then have "sized k' = sized k4" by (rule flush_congestion_sized)
  moreover have "sized k4 = sized k3" using length_flush_segments [OF f3]
    by (simp add: k4_def sized_frames) (simp add: sized_def wait_snd_def fixed_side_def)
  moreover have "sized k3 = sized k2" using admit_segments_length [OF adm] by (simp add: k3_def sized_def wait_snd_def fixed_side_def)
  moreover have "sized k2 = sized k" using flush_probe_commands_sized [OF f2] flush_ack_sized [OF f1] by (simp add: sized_frames)
  ultimately show ?thesis by simp
qed

lemma kcp_update_sized:
  assumes "kcp_update k now = Some (r, k')"
  shows "sized k' = sized k"
proof -
  obtain k1 where k1: "quiet k k1" "kcp_update k now = kcp_flush k1 \<or> kcp_update k now = Some (Inr (), k1)"
    by (rule kcp_update_cases)
  have "sized k1 = sized k" using k1(1) by (simp add: quiet_def sized_def wait_snd_def snd_core_def local_side_def)
  moreover have "sized k' = sized k1" using k1(2)
  proof
    assume "kcp_update k now = kcp_flush k1"
    with assms show ?thesis by (intro kcp_flush_sized) simp
  next
    assume "kcp_update k now = Some (Inr (), k1)"
    with assms show ?thesis by simp
  qed
  ultimately show ?thesis by simp
qed

lemma session_flush_now_sized:
  assumes "session_flush_now s t = Some (out, s')"
  shows "\<exists>k. s' = s\<lparr>ss_kcp := k\<rparr> \<and> sized k = sized (ss_kcp s)"
proof -
  from assms obtain r1 k1 r2 k2 where k: "kcp_update (ss_kcp s) (ucast t) = Some (r1, k1)" "kcp_flush k1 = Some (r2, k2)"
    "s' = s\<lparr>ss_kcp := k2\<lparr>kc_output := []\<rparr>\<rparr>"
    by (auto simp: session_flush_now_def take_output_def split: Option.bind_splits)
  have "sized (k2\<lparr>kc_output := []\<rparr>) = sized (ss_kcp s)" using kcp_update_sized [OF k(1)] kcp_flush_sized [OF k(2)] by (simp add: sized_frames)
  with k(3) show ?thesis by blast
qed

lemma session_poll_sized:
  assumes "session_poll s t = Some (out, s')"
  shows "\<exists>k. s' = s\<lparr>ss_kcp := k\<rparr> \<and> sized k = sized (ss_kcp s)"
proof -
  from assms obtain r k where k: "kcp_update (ss_kcp s) (ucast t) = Some (r, k)" "s' = s\<lparr>ss_kcp := k\<lparr>kc_output := []\<rparr>\<rparr>"
    by (auto simp: session_poll_def take_output_def split: Option.bind_splits)
  have "sized (k\<lparr>kc_output := []\<rparr>) = sized (ss_kcp s)" using kcp_update_sized [OF k(1)] by (simp add: sized_frames)
  with k(2) show ?thesis by blast
qed

lemma recv_messages_sized: "recv_messages k = Some (msgs, k') \<Longrightarrow> sized k' = sized k"
proof (induction k arbitrary: msgs rule: recv_messages.induct)
  case (1 k)
  show ?case
  proof (cases "peeksize k")
    case (Inl e)
    with "1.prems" show ?thesis by (auto simp: recv_messages.simps [of k] split: if_splits)
  next
    case (Inr len)
    with "1.prems" obtain w data k1 msg rest where r: "kcp_recv k (replicate len 0) = Some (Inr w, data, k1)"
      "session_message_decode data = Some msg" "recv_messages k1 = Some (rest, k')"
      by (auto simp: recv_messages.simps [of k] split: option.splits sum.splits Option.bind_splits)
    have "sized k' = sized k1" using "1.IH" [OF Inr r(1) refl refl refl r(2,3)] by simp
    then show ?thesis using kcp_recv_keeps [OF r(1)] by (simp add: sized_def)
  qed
qed

declare recv_messages.simps [simp del]

lemma session_input_packet_keeps:
  assumes "session_input_packet s t packet = Some (msgs, out, s')"
  shows "\<exists>k. s' = s\<lparr>ss_kcp := k\<rparr> \<and> wait_snd k \<le> wait_snd (ss_kcp s) \<and> fixed_side k = fixed_side (ss_kcp s)"
proof -
  from assms obtain r k s1 k' where i: "kcp_input (ss_kcp s) (ucast t) packet = Some (r, k)"
    "session_flush_now (s\<lparr>ss_kcp := k\<rparr>) t = Some (out, s1)" "recv_messages (ss_kcp s1) = Some (msgs, k')" "s' = s1\<lparr>ss_kcp := k'\<rparr>"
    by (auto simp: session_input_packet_def split: Option.bind_splits)
  from session_flush_now_sized [OF i(2)] obtain k1 where k1: "s1 = s\<lparr>ss_kcp := k1\<rparr>" "sized k1 = sized k" by auto
  have "sized k' = sized k" using recv_messages_sized [OF i(3)] k1 by simp
  moreover have "s' = s\<lparr>ss_kcp := k'\<rparr>" using i(4) k1(1) by simp
  ultimately show ?thesis using kcp_input_keeps [OF i(1)] by (auto simp: sized_def)
qed

subsection \<open>The session invariant\<close>

lemma kcp_send_keeps:
  assumes "kcp_send k msg = Some (Inr w, k')"
  shows "\<exists>n. fragment_count (kc_mss k) (length msg) = Some n \<and> wait_snd k' = wait_snd k + n \<and> fixed_side k' = fixed_side k"
proof -
  from assms obtain n where n: "fragment_count (kc_mss k) (length msg) = Some n"
    "k' = k\<lparr>snd_queue := snd_queue k @ split_fragments (kc_mss k) n msg\<rparr>"
    by (auto simp: kcp_send_def split: Option.bind_splits if_splits)
  then show ?thesis by (simp add: wait_snd_def fixed_side_def)
qed

lemma session_send_message_keeps:
  assumes "session_send_message s t msg = Some (out, s')"
  shows "\<exists>k n. s' = s\<lparr>ss_kcp := k\<rparr> \<and> fragment_count (kc_mss (ss_kcp s)) (length (session_message_encode msg)) = Some n \<and>
    wait_snd k = wait_snd (ss_kcp s) + n \<and> fixed_side k = fixed_side (ss_kcp s)"
proof -
  from assms obtain w k where k: "kcp_send (ss_kcp s) (session_message_encode msg) = Some (Inr w, k)"
    "session_flush_now (s\<lparr>ss_kcp := k\<rparr>) t = Some (out, s')"
    by (auto simp: session_send_message_def unwrap_def split: Option.bind_splits sum.splits)
  from session_flush_now_sized [OF k(2)] obtain k' where "s' = s\<lparr>ss_kcp := k'\<rparr>" "sized k' = sized k" by auto
  with kcp_send_keeps [OF k(1)] show ?thesis by (auto simp: sized_def)
qed

lemma fragment_count_one: "fragment_count mss 1 = Some n \<Longrightarrow> n = 1"
  by (cases "mss = 1") (auto simp: fragment_count_def split: if_splits)

lemma fragment_count_two: "fragment_count mss 2 = Some n \<Longrightarrow> 2 \<le> mss \<Longrightarrow> n = 1"
  by (cases "mss = 2") (auto simp: fragment_count_def split: if_splits)

lemma fragment_count_pos:
  assumes "0 < n" "0 < mss"
  shows "fragment_count mss n = Some (if n mod mss \<noteq> 0 then n div mss + 1 else n div mss)"
proof -
  have "0 < n div mss" if "n mod mss = 0"
    using that assms by (metis div_greater_zero_iff dvd_imp_le mod_eq_0_iff_dvd)
  then show ?thesis using assms by (cases "n mod mss = 0") (auto simp: fragment_count_def max_def)
qed

lemma fixed_mss: "fixed_side k = fixed_side (kcp_new c params) \<Longrightarrow> kc_mss k = usize_sub (kp_mtu params) KCP_OVERHEAD"
  by (simp add: fixed_side_def kcp_new_def usize_sub_def Let_def)

lemma session_okI_kcp:
  assumes "session_ok params window c s" "fixed_side k = fixed_side (ss_kcp s)" "wait_snd k \<le> window"
  shows "session_ok params window c (s\<lparr>ss_kcp := k\<rparr>)"
  using assms by (simp add: session_ok_def)

lemma session_new_ok:
  assumes "phase = PendingRemote \<longrightarrow> p \<noteq> None" "phase \<noteq> Open \<longrightarrow> d \<noteq> None" "phase \<noteq> ClosingLocal"
  shows "session_ok params window c ((session_new c params phase)\<lparr>ss_peer_seq := p, ss_close_deadline_at := d\<rparr>)"
  using assms by (simp add: session_ok_def session_new_def wait_snd_def kcp_new_def Let_def)

lemma session_step_ok:
  assumes "session_step params window S es S'" "sessions_ok params window S" "1 \<le> window" "2 \<le> usize_sub (kp_mtu params) KCP_OVERHEAD"
  shows "sessions_ok params window S'"
proof -
  have upd: "sessions_ok params window (S(c \<mapsto> s))" if "session_ok params window c s" for c s
    using assms(2) that by (simp add: sessions_ok_def)
  have del: "sessions_ok params window (S(c := None))" for c
    using assms(2) by (simp add: sessions_ok_def)
  have ok: "session_ok params window c s" if "S c = Some s" for c s
    using assms(2) that by (simp add: sessions_ok_def)
  from assms(1) show ?thesis
  proof cases
    case (st_pending c d p)
    then show ?thesis using session_new_ok [of PendingRemote "Some p" "Some d"] by (auto intro: upd)
  next
    case (st_input c s p t packet msgs out s')
    from session_input_packet_keeps [OF st_input(5)] obtain k where k: "s' = s\<lparr>ss_peer_seq := Some p, ss_kcp := k\<rparr>"
      "wait_snd k \<le> wait_snd (ss_kcp s)" "fixed_side k = fixed_side (ss_kcp s)" by auto
    then have "session_ok params window c s'" using ok [OF st_input(3)] by (auto simp: session_ok_def)
    then show ?thesis unfolding st_input(2) by (rule upd)
  next
    case (st_poll c s t out s')
    from session_poll_sized [OF st_poll(4)] obtain k where "s' = s\<lparr>ss_kcp := k\<rparr>" "sized k = sized (ss_kcp s)" by auto
    then have "session_ok params window c s'" using ok [OF st_poll(3)] by (auto simp: session_ok_def sized_def)
    then show ?thesis unfolding st_poll(2) by (rule upd)
  next
    case (st_accept c s)
    then show ?thesis using ok [of c s] by (auto intro!: upd simp: session_ok_def)
  next
    case (st_remote_close c s r d)
    then show ?thesis using ok [of c s] by (auto intro!: upd simp: session_ok_def)
  next
    case (st_close_message c s t r out s')
    from session_send_message_keeps [OF st_close_message(7)] obtain k n where k: "s' = s\<lparr>ss_close_queued := True, ss_kcp := k\<rparr>"
      "fragment_count (kc_mss (ss_kcp s)) 2 = Some n" "wait_snd k = wait_snd (ss_kcp s) + n" "fixed_side k = fixed_side (ss_kcp s)" by (auto simp: numeral_2_eq_2)
    have "n = 1" using k(2) fixed_mss [of "ss_kcp s" c params] ok [OF st_close_message(3)] assms(4) fragment_count_two by (simp add: session_ok_def)
    then have "session_ok params window c s'" using ok [OF st_close_message(3)] k st_close_message by (auto simp: session_ok_def)
    then show ?thesis unfolding st_close_message(2) by (rule upd)
  next
    case (st_open c t out s')
    from session_send_message_keeps [OF st_open(3)] obtain k n where k: "s' = (session_new c params Open)\<lparr>ss_kcp := k\<rparr>"
      "fragment_count (kc_mss (ss_kcp (session_new c params Open))) 1 = Some n"
      "wait_snd k = n" "fixed_side k = fixed_side (kcp_new c params)" by (auto simp: session_new_def wait_snd_def kcp_new_def Let_def)
    have "session_ok params window c s'" using k assms(3) fragment_count_one [OF k(2)] by (simp add: session_ok_def session_new_def)
    then show ?thesis unfolding st_open(2) by (rule upd)
  next
    case (st_write c s mss bs t out s')
    from session_send_message_keeps [OF st_write(7)] obtain k n where k: "s' = s\<lparr>ss_kcp := k\<rparr>"
      "fragment_count (kc_mss (ss_kcp s)) (1 + length bs) = Some n" "wait_snd k = wait_snd (ss_kcp s) + n" "fixed_side k = fixed_side (ss_kcp s)" by auto
    have "kc_mss (ss_kcp s) = mss" using ok [OF st_write(3)] st_write(5) by (auto simp: session_ok_def dest: fixed_mss)
    then have "n = (if (1 + length bs) mod mss \<noteq> 0 then (1 + length bs) div mss + 1 else (1 + length bs) div mss)"
      using k(2) fragment_count_pos [of "1 + length bs" mss] st_write(4) by simp
    then show ?thesis using st_write(6) k ok [OF st_write(3)] unfolding st_write(2) by (intro upd) (simp add: session_okI_kcp)
  next
    case (st_close c s r d)
    then show ?thesis using ok [of c s] by (auto intro!: upd simp: session_ok_def)
  qed (use assms(2) del in simp_all)
qed

lemma session_path_ok:
  assumes "session_path params window S es S'" "sessions_ok params window S" "1 \<le> window" "2 \<le> usize_sub (kp_mtu params) KCP_OVERHEAD"
  shows "sessions_ok params window S'"
  using assms by (induction rule: session_path.induct) (blast intro: session_step_ok)+

subsection \<open>The protocol with the shell\<close>

lemma view_step_ok:
  assumes "session_step params window S es S'" "phase_view (S c) v"
  shows "es = [] \<and> phase_view (S' c) v \<or>
    (\<exists>e. es = [e] \<and> (case view_step c v e of Some v' \<Rightarrow> phase_view (S' c) v' | None \<Rightarrow> \<nexists>a. e = Did a))"
proof -
  have kcp: "phase_view (Some (s\<lparr>ss_kcp := k\<rparr>)) v' = phase_view (Some s) v'"
    "phase_view (Some (s\<lparr>ss_peer_seq := p\<rparr>)) v' = phase_view (Some s) v'"
    "phase_view (Some (s\<lparr>ss_close_queued := b\<rparr>)) v' = phase_view (Some s) v'" for s k v' p b by simp_all
  from assms(1) show ?thesis
  proof cases
    case (st_input d s p t packet msgs out s')
    from session_input_packet_keeps [OF st_input(5)] obtain k where "s' = s\<lparr>ss_peer_seq := Some p, ss_kcp := k\<rparr>" by auto
    then show ?thesis using st_input assms(2) by (auto simp: kcp)
  next
    case (st_poll d s t out s')
    from session_poll_sized [OF st_poll(4)] obtain k where "s' = s\<lparr>ss_kcp := k\<rparr>" by auto
    then show ?thesis using st_poll assms(2) by auto
  next
    case (st_close_message d s t r out s')
    from session_send_message_keeps [OF st_close_message(7)] obtain k where "s' = s\<lparr>ss_close_queued := True, ss_kcp := k\<rparr>" by auto
    then show ?thesis using st_close_message assms(2) by auto
  next
    case (st_open d t out s')
    from session_send_message_keeps [OF st_open(3)] obtain k where "s' = (session_new d params Open)\<lparr>ss_kcp := k\<rparr>" by auto
    then show ?thesis using st_open assms(2) by (auto simp: session_new_def)
  next
    case (st_write d s mss bs t out s')
    from session_send_message_keeps [OF st_write(7)] obtain k where "s' = s\<lparr>ss_kcp := k\<rparr>" by auto
    then show ?thesis using st_write assms(2) by (auto split: SessionPhase.splits)
  qed (use assms(2) in \<open>auto simp: session_new_def split: SessionPhase.splits view.splits\<close>)
qed

subsection \<open>Events\<close>

lemma receive_transport_packet_SomeD:
  "receive_transport_packet cr key m bs = Some (Some e, m') \<Longrightarrow> decode_transport_packet cr key bs = Some (Inr e) \<and> m' = m"
  by (auto simp: receive_transport_packet_def split: Option.bind_splits sum.splits TransportPacketError.splits)

lemma handle_transport_packet_cases:
  assumes "handle_transport_packet cr core t bs actions = Some st'"
  obtains (ignored) core' where "st' = (core', actions)" "ep_same core core'"
  | (accepted) e f' m where "decode_transport_packet cr (ec_envelope_key (ep_config core)) bs = Some (Inr e)"
      "check_and_insert (ep_sequence_filter core) (endpoint_time core t) (env_time e) (env_seq_id e) (env_seq_no e) = Some (Inr f')"
      "ep_acts (core\<lparr>ep_sequence_filter := f', ep_metrics := m\<rparr>, actions) st'"
proof -
  have same: "ep_same core (core\<lparr>ep_metrics := m\<rparr>)" "ep_same core (count_dropped (core\<lparr>ep_metrics := m\<rparr>))" for m
    using ep_same_trans [OF ep_same_frame(3) ep_same_frame(2)] by simp_all
  from assms obtain received m1 where r: "receive_transport_packet cr (ec_envelope_key (ep_config core)) (ep_metrics core) bs = Some (received, m1)"
    by (auto simp: handle_transport_packet_def Let_def split: Option.bind_splits)
  show ?thesis
  proof (cases received)
    case None
    with assms r show ?thesis using ignored same by (auto simp: handle_transport_packet_def Let_def)
  next
    case (Some e)
    note d = receive_transport_packet_SomeD [OF r [unfolded Some]]
    show ?thesis
    proof (cases "env_route_plan e = []")
      case False
      with assms r Some show ?thesis using ignored same by (auto simp: handle_transport_packet_def Let_def)
    next
      case True
      let ?core = "core\<lparr>ep_metrics := m1\<rparr>"
      from assms r Some True obtain decrypted where o: "open_endpoint_message cr ?core (envelope_stamp e) (env_payload e) = Some decrypted"
        by (auto simp: handle_transport_packet_def Let_def split: Option.bind_splits)
      show ?thesis
      proof (cases decrypted)
        case None
        with assms r Some True o show ?thesis using ignored same by (auto simp: handle_transport_packet_def Let_def)
      next
        case message: (Some message)
        with assms r Some True o obtain ok f1 m2 where c: "check_sequence (ep_sequence_filter core) m1 (endpoint_time core t) (envelope_stamp e) = Some (ok, f1, m2)"
          by (auto simp: handle_transport_packet_def Let_def split: Option.bind_splits)
        show ?thesis
        proof (cases ok)
          case False
          with c have "f1 = ep_sequence_filter core" by (auto simp: check_sequence_def split: Option.bind_splits sum.splits SequenceDrop.splits)
          with assms r Some True o message c False have "st' = (core\<lparr>ep_metrics := m2\<rparr>, actions)"
            by (auto simp: handle_transport_packet_def Let_def)
          then show ?thesis using ignored same by blast
        next
          case ok: True
          with c have ins: "check_and_insert (ep_sequence_filter core) (endpoint_time core t) (env_time e) (env_seq_id e) (env_seq_no e) = Some (Inr f1)"
            by (auto simp: check_sequence_def envelope_stamp_def split: Option.bind_splits sum.splits SequenceDrop.splits)
          from assms r Some True o message c ok obtain m core1 actions1 where
            k: "dispatch_message cr (core\<lparr>ep_sequence_filter := f1, ep_metrics := m\<rparr>) t (es_seq_id (envelope_stamp e)) message actions = Some (core1, actions1)"
              "send_reply cr core1 t (envelope_stamp e) (reply_depth_of message) actions1 = Some st'"
            by (auto simp: handle_transport_packet_def Let_def split: Option.bind_splits)
          have "ep_acts (core\<lparr>ep_sequence_filter := f1, ep_metrics := m\<rparr>, actions) st'"
            using dispatch_message_acts [OF k(1)] send_reply_acts [OF k(2)] by (rule ep_acts_trans)
          then show ?thesis using accepted d ins by blast
        qed
      qed
    qed
  qed
qed

lemma retry_failed_send_acts:
  assumes "retry_failed_send cr core t ch bs actions = Some st'"
  shows "ep_acts (core, actions) st'"
proof -
  from assms obtain m planner pid due where p: "note_local_send_failure (ep_route_planner core) ch t = Some planner" and c:
    "st' = (core\<lparr>ep_metrics := m, ep_route_planner := planner, ep_outstanding := bt_remove pid (ep_outstanding core), ep_next_feedback_at := due\<rparr>, actions) \<or>
     (\<exists>stamp body sample. send_envelope cr (core\<lparr>ep_metrics := m, ep_route_planner := planner,
          ep_outstanding := bt_remove pid (ep_outstanding core), ep_next_feedback_at := due\<rparr>) t stamp body sample actions = Some st')"
    by (fastforce simp: retry_failed_send_def Let_def split: Option.bind_splits EndpointMessage.splits simp del: not_None_eq)
  let ?core = "core\<lparr>ep_metrics := m, ep_route_planner := planner, ep_outstanding := bt_remove pid (ep_outstanding core), ep_next_feedback_at := due\<rparr>"
  have "set (bt_remove pid (ep_outstanding core)) \<subseteq> set (ep_outstanding core)" by (auto simp: bt_remove_def)
  then have "ep_net_ok ?core" if "ep_net_ok core"
    using that planner_failure [OF _ p] unfolding ep_net_ok_def by auto
  then have "ep_same core ?core" unfolding ep_same_def ep_keeps_def by (simp add: ep_static_def session_map_def)
  then have "ep_acts (core, actions) (?core, actions)" by (rule ep_acts_quiet)
  then show ?thesis using c ep_acts_trans send_envelope_acts by (cases st') blast
qed

subsection \<open>Runs\<close>

lemma ep_acts_path:
  assumes "ep_acts (core, actions) (core', actions')"
  obtains new where "actions' = actions @ new" "ep_keeps core core'"
    "session_path (ep_kcp_params core) (ep_window core) (session_map core) (map Did new) (session_map core')"
  using assms by (auto simp: ep_acts_def)

lemma static_fields:
  "ep_static core' = ep_static core \<Longrightarrow> ep_kcp_params core' = ep_kcp_params core \<and> ep_window core' = ep_window core \<and>
     ep_config core' = ep_config core \<and> endpoint_time core' t = endpoint_time core t"
  by (simp add: ep_static_def ep_window_def endpoint_time_def)

lemma ep_path_refl [simp]: "ep_path core [] core"
  by (simp add: ep_path_def path_refl)

lemma ep_path_trans: "ep_path core es core1 \<Longrightarrow> ep_path core1 fs core2 \<Longrightarrow> ep_path core (es @ fs) core2"
  by (auto simp: ep_path_def dest!: static_fields intro: path_append)

lemma request_then_acts:
  assumes step: "session_step (ep_kcp_params core) (ep_window core) (session_map core) [q] (session_map core1)"
    and same: "ep_keeps core core1"
    and acts: "ep_acts (core1, actions) (core', actions')"
  shows "\<exists>new. actions' = actions @ new \<and> ep_path core (q # map Did new) core' \<and> ep_sequence_filter core' = ep_sequence_filter core"
proof -
  from acts obtain new where n: "actions' = actions @ new" "ep_keeps core1 core'"
    "session_path (ep_kcp_params core1) (ep_window core1) (session_map core1) (map Did new) (session_map core')" by (rule ep_acts_path)
  with path_append [OF path_one [OF step]] ep_keeps_static [OF same] ep_keeps_trans [OF same n(2)] show ?thesis
    by (auto simp: ep_path_def ep_keeps_def)
qed

lemma session_open_path:
  assumes "session_open cr core t actions = Some (core', actions', r)"
  shows "\<exists>new c. r = SessionCreated c \<and> actions' = actions @ new \<and> ep_path core (Asked_open c # map Did new) core' \<and>
    ep_sequence_filter core' = ep_sequence_filter core"
proof -
  let ?c = "ep_next_conv_id core"
  let ?core = "set_session ?c (session_new ?c (ep_kcp_params core) Open) (core\<lparr>ep_next_conv_id := ?c + 1\<rparr>)"
  from assms have r: "r = SessionCreated ?c" "send_session_message cr ?core t ?c SessionMessage_Open actions = Some (core', actions')"
    by (auto simp: session_open_def Let_def split: Option.bind_splits)
  have m: "session_map (core\<lparr>ep_next_conv_id := ?c + 1\<rparr>) = session_map core" "ep_keeps core (core\<lparr>ep_next_conv_id := ?c + 1\<rparr>)"
    using ep_same_frame(6) [of core "?c + 1"] by (simp_all add: ep_same_def)
  from r(2) show ?thesis
  proof (rule send_session_message_cases)
    fix s out s'
    assume s: "session_map ?core ?c = Some s" "session_send_message s t SessionMessage_Open = Some (out, s')"
      and a: "ep_acts (set_session ?c s' ?core, actions) (core', actions')"
    have "session_step (ep_kcp_params core) (ep_window core) (session_map core) [Asked_open ?c] (session_map (set_session ?c s' ?core))"
      using s m by (auto intro: st_open)
    from request_then_acts [OF this _ a] m r(1) show ?thesis by auto
  qed
qed

lemma session_write_path:
  assumes "session_write cr core t c bs actions = Some (core', actions', r)"
  shows "r = SessionWriteBlocked \<and> core' = core \<and> actions' = actions \<or>
    r = EventNone \<and> (\<exists>new. actions' = actions @ new \<and> ep_path core (Asked_write c bs # map Did new) core' \<and>
      ep_sequence_filter core' = ep_sequence_filter core)"
proof -
  define mss where "mss = usize_sub (kp_mtu (ep_kcp_params core)) KCP_OVERHEAD"
  define n where "n = (if (1 + length bs) mod mss \<noteq> 0 then (1 + length bs) div mss + 1 else (1 + length bs) div mss)"
  from assms obtain s where s: "session_map core c = Some s" by (auto simp: session_write_def session_map_def split: Option.bind_splits)
  from assms s have mss: "0 < mss" by (cases "mss = 0") (simp_all add: session_write_def session_map_def mss_def Let_def)
  have run: "session_write cr core t c bs actions = (if ep_window core < wait_snd (ss_kcp s) + n then Some (core, actions, SessionWriteBlocked)
     else do { (core', actions') \<leftarrow> send_session_message cr core t c (SessionMessage_Data bs) actions; Some (core', actions', EventNone) })"
    using s mss unfolding session_write_def session_map_def ep_window_def mss_def [symmetric] n_def by (simp add: Let_def)
  show ?thesis
  proof (cases "ep_window core < wait_snd (ss_kcp s) + n")
    case True
    with run assms show ?thesis by simp
  next
    case False
    with run assms have "r = EventNone" "send_session_message cr core t c (SessionMessage_Data bs) actions = Some (core', actions')"
      by (auto split: Option.bind_splits)
    from this(2) show ?thesis
    proof (rule send_session_message_cases)
      fix s1 out s'
      assume s1: "session_map core c = Some s1" "session_send_message s1 t (SessionMessage_Data bs) = Some (out, s')"
        and a: "ep_acts (set_session c s' core, actions) (core', actions')"
      have "session_step (ep_kcp_params core) (ep_window core) (session_map core) [Asked_write c bs] (session_map (set_session c s' core))"
        using s s1 mss False by (auto intro!: st_write [where mss = mss] simp: mss_def n_def)
      from request_then_acts [OF this _ a] \<open>r = EventNone\<close> show ?thesis by auto
    qed
  qed
qed

lemma session_close_path:
  assumes "session_close cr core t c reason actions = Some (core', actions', r)"
  shows "r = EventNone \<and> (\<exists>new. actions' = actions @ new \<and> ep_path core (Asked_close c reason # map Did new) core' \<and>
      ep_sequence_filter core' = ep_sequence_filter core)"
proof -
  from assms obtain s where s: "session_map core c = Some s" by (auto simp: session_close_def session_map_def split: Option.bind_splits)
  define s' where "s' = s\<lparr>ss_phase := ClosingLocal, ss_close_deadline_at := Some (t + ep_close_deadline_ms core), ss_pending_close := Some reason\<rparr>"
  from assms s have q: "r = EventNone" "queue_local_close cr (set_session c s' core) t c actions = Some (core', actions')"
    by (auto simp: session_close_def session_map_def s'_def Let_def split: Option.bind_splits)
  have "session_step (ep_kcp_params core) (ep_window core) (session_map core) [Asked_close c reason] (session_map (set_session c s' core))"
    using s by (auto simp: s'_def intro: st_close)
  from request_then_acts [OF this _ queue_local_close_acts [OF q(2)]] q(1) show ?thesis by auto
qed

lemma acts_then_path:
  assumes "ep_acts (core, actions) (core', actions')"
  shows "\<exists>new. actions' = actions @ new \<and> ep_path core (map Did new) core'"
  using assms by (rule ep_acts_path) (auto simp: ep_path_def ep_keeps_def)

lemma endpoint_handle_event_path:
  assumes "endpoint_handle_event cr core t ev actions = Some (core', actions', r)"
  shows "\<exists>new. actions' = actions @ new \<and> ep_path core (op_requests ev r @ map Did new) core'"
proof (cases ev)
  case (TransportPacketReceived ch bs)
  let ?core = "core\<lparr>ep_metrics := (ep_metrics core)\<lparr>packets_received := packets_received (ep_metrics core) + 1\<rparr>\<rparr>"
  from assms TransportPacketReceived have h: "handle_transport_packet cr ?core t bs actions = Some (core', actions')"
    by (auto simp: Let_def split: Option.bind_splits)
  have m: "ep_path core es core' = ep_path (core\<lparr>ep_metrics := m\<rparr>) es core'" "ep_path (core\<lparr>ep_sequence_filter := f\<rparr>) es core' = ep_path core es core'" for es m f core core'
    by (simp_all add: ep_path_def ep_static_def session_map_def ep_window_def)
  from h show ?thesis
  proof (cases rule: handle_transport_packet_cases)
    case (ignored core1)
    then show ?thesis using TransportPacketReceived
      by (auto simp: ep_path_def ep_same_def ep_keeps_def ep_static_def session_map_def intro: path_refl)
  next
    case (accepted e f' mm)
    from acts_then_path [OF accepted(3)] show ?thesis using TransportPacketReceived by (simp add: m [symmetric] m(2))
  qed
next
  case (TransportPacketSendFailed ch bs)
  with assms have "retry_failed_send cr core t ch bs actions = Some (core', actions')" by (auto split: Option.bind_splits)
  from acts_then_path [OF retry_failed_send_acts [OF this]] show ?thesis using TransportPacketSendFailed by simp
next
  case SessionOpen
  then show ?thesis using assms session_open_path by fastforce
next
  case (SessionWrite c bs)
  then show ?thesis using assms session_write_path [of cr core t c bs actions core' actions' r] by auto
next
  case (SessionClose c reason)
  then show ?thesis using assms session_close_path [of cr core t c reason actions core' actions' r] by auto
qed

lemma endpoint_do_path:
  assumes "endpoint_do cr x core = Some (core', es)"
  shows "ep_path core es core'"
proof (cases x)
  case (Ep_event t ev)
  with assms obtain actions r where "endpoint_handle_event cr core t ev [] = Some (core', actions, r)" "es = op_requests ev r @ map Did actions"
    by (auto split: Option.bind_splits)
  then show ?thesis using endpoint_handle_event_path by fastforce
next
  case (Ep_poll t h)
  with assms obtain actions where p: "endpoint_poll cr h core t [] = Some (core', actions)" "es = map Did actions"
    by (auto split: Option.bind_splits)
  from acts_then_path [OF endpoint_poll_acts [OF p(1)]] p(2) show ?thesis
    by (simp add: ep_path_def ep_static_def session_map_def ep_window_def)
qed

lemma endpoint_run_path: "endpoint_run cr xs core = Some (core', es) \<Longrightarrow> ep_path core es core'"
proof (induction xs arbitrary: core es)
  case (Cons x xs)
  then show ?case using endpoint_do_path by (fastforce split: Option.bind_splits intro: ep_path_trans)
qed simp

lemma endpoint_new_start:
  assumes "endpoint_new cr config = Some core"
  shows "session_map core = Map.empty" "ep_sequence_filter core = filter_default"
    "ep_window core = unat (kcf_send_window (kcp_defaults (ec_kcp config)))" "1 \<le> ep_window core"
    "ep_config core = config\<lparr>ec_kcp := kcp_defaults (ec_kcp config)\<rparr>" "ep_net_ok core"
proof -
  show "ep_net_ok core" using assms planner_start word_and_le1
    by (auto simp: endpoint_new_def ep_net_ok_def bt_ordered_def Let_def split: Option.bind_splits prod.splits)
  show "session_map core = Map.empty" "ep_sequence_filter core = filter_default"
    "ep_config core = config\<lparr>ec_kcp := kcp_defaults (ec_kcp config)\<rparr>"
    using assms by (auto simp: endpoint_new_def session_map_def Let_def split: Option.bind_splits prod.splits)
  then show w: "ep_window core = unat (kcf_send_window (kcp_defaults (ec_kcp config)))" by (simp add: ep_window_def)
  have "kcf_send_window (kcp_defaults (ec_kcp config)) \<noteq> 0" by (simp add: kcp_defaults_def kcp_config_default_def)
  then show "1 \<le> ep_window core" unfolding w by (simp add: unat_gt_0 Suc_leI)
qed

lemma session_path_append_view:
  assumes "session_path params window S es S'" "phase_view (S c) v"
    and "p @ [Did a] @ q = es" "fold (\<lambda>e v. Option.bind v (\<lambda>v. view_step c v e)) p (Some v) = Some v'"
  shows "view_step c v' (Did a) \<noteq> None"
  using assms
proof (induction arbitrary: v p rule: session_path.induct)
  case (path_step S es S1 fs S2)
  from view_step_ok [OF path_step.hyps(1) path_step.prems(1)] show ?case
  proof (elim disjE exE conjE)
    assume "es = []" "phase_view (S1 c) v"
    then show ?thesis using path_step by auto
  next
    fix e
    assume e: "es = [e]" "case view_step c v e of Some v' \<Rightarrow> phase_view (S1 c) v' | None \<Rightarrow> \<nexists>a. e = Did a"
    show ?thesis
    proof (cases p)
      case Nil
      with path_step.prems e show ?thesis by (auto split: option.splits)
    next
      case (Cons e' p')
      with path_step.prems e have p: "e' = e" "p' @ [Did a] @ q = fs" by auto
      have dead: "fold (\<lambda>e v. Option.bind v (\<lambda>v. view_step c v e)) es None = None" for es by (induction es) auto
      with path_step.prems(3) Cons p obtain v1 where v1: "view_step c v e = Some v1" by (cases "view_step c v e") auto
      with path_step.IH [of v1 p'] path_step.prems e p Cons show ?thesis by auto
    qed
  qed
qed simp

subsection \<open>Replays\<close>

lemma ep_tick_mono: "a \<le> b \<Longrightarrow> ep_tick boot a \<le> ep_tick boot b"
  by (simp add: ep_tick_def word_le_def zdiv_mono1)

lemma endpoint_time_tick:
  "unat (ec_boot_time_ms (ep_config core)) + unat t < 2 ^ 64 \<Longrightarrow> endpoint_time core t = tick_time (ep_tick (ec_boot_time_ms (ep_config core)) t)"
  by (simp add: endpoint_time_def ep_tick_def current_tick_tick_time)

lemma ep_acts_filter: "ep_acts (core, actions) st' \<Longrightarrow> ep_sequence_filter (fst st') = ep_sequence_filter core"
  by (auto simp: ep_acts_def ep_keeps_def)

lemma filter_goes_trans: "filter_goes start s s1 \<Longrightarrow> filter_goes start s1 s2 \<Longrightarrow> filter_goes start s s2"
  by (auto simp: filter_goes_def)

lemma filter_goes_wait: "filter_inv start (clock, f) \<Longrightarrow> clock \<le> now \<Longrightarrow> filter_goes start (clock, f) (now, f)"
  using filter_later by (auto simp: filter_goes_def simp del: filter_inv.simps)

lemma filter_goes_step:
  "filter_inv start s \<Longrightarrow> filter_adm start s x \<Longrightarrow> filter_step s x = Some (r, s') \<Longrightarrow> filter_goes start s s'"
  using filter_step_all [of start s x] by (auto simp: filter_goes_def)

lemma ep_event_quiet:
  assumes "endpoint_handle_event cr core t ev actions = Some (core', actions', r)" "\<nexists>ch bs. ev = TransportPacketReceived ch bs"
  shows "ep_sequence_filter core' = ep_sequence_filter core"
proof (cases ev)
  case (TransportPacketReceived ch bs)
  then show ?thesis using assms(2) by blast
next
  case (TransportPacketSendFailed ch bs)
  with assms have "retry_failed_send cr core t ch bs actions = Some (core', actions')" by (auto split: Option.bind_splits)
  from ep_acts_filter [OF retry_failed_send_acts [OF this]] show ?thesis by simp
next
  case SessionOpen
  with assms session_open_path [of cr core t actions core' actions' r] show ?thesis by auto
next
  case (SessionWrite c bs)
  with assms session_write_path [of cr core t c bs actions core' actions' r] show ?thesis by auto
next
  case (SessionClose c reason)
  with assms session_close_path [of cr core t c reason actions core' actions' r] show ?thesis by auto
qed

lemma ep_received_cases:
  assumes "endpoint_do cr (Ep_event t (TransportPacketReceived ch bs)) core = Some (core', es)"
  obtains (ignored) "ep_same core core'" "es = []"
  | (accepted) e f' where "decode_transport_packet cr (ec_envelope_key (ep_config core)) bs = Some (Inr e)"
      "check_and_insert (ep_sequence_filter core) (endpoint_time core t) (env_time e) (env_seq_id e) (env_seq_no e) = Some (Inr f')"
      "ep_sequence_filter core' = f'"
proof -
  let ?core = "core\<lparr>ep_metrics := (ep_metrics core)\<lparr>packets_received := packets_received (ep_metrics core) + 1\<rparr>\<rparr>"
  from assms obtain actions where h: "handle_transport_packet cr ?core t bs [] = Some (core', actions)" "es = map Did actions"
    by (auto simp: Let_def split: Option.bind_splits)
  from h(1) show ?thesis
  proof (cases rule: handle_transport_packet_cases)
    case (ignored core1)
    then show ?thesis using that(1) h(2) ep_same_trans [OF ep_same_frame(3)] by simp
  next
    case (accepted e f' m)
    then show ?thesis using that(2) [of e f'] ep_acts_filter [OF accepted(3)] by (simp add: endpoint_time_def)
  qed
qed

lemma endpoint_do_filter:
  assumes inv: "filter_inv (ep_tick boot 0) (clock, ep_sequence_filter core)" and boot: "ec_boot_time_ms (ep_config core) = boot"
    and run: "endpoint_do cr x core = Some (core', es)"
    and sched: "clock \<le> ep_tick boot (op_time x)" "unat boot + unat (op_time x) < 2 ^ 64" "ep_tick boot (op_time x) - ep_tick boot 0 + 704 < 2 ^ 25"
      "case x of Ep_poll _ hash_iter \<Rightarrow> \<forall>m. mset (hash_iter m) = mset m | _ \<Rightarrow> True"
  shows "filter_goes (ep_tick boot 0) (clock, ep_sequence_filter core) (ep_tick boot (op_time x), ep_sequence_filter core')"
proof -
  let ?now = "ep_tick boot (op_time x)"
  have time: "endpoint_time core (op_time x) = tick_time ?now" using endpoint_time_tick [of core "op_time x"] boot sched(2) by simp
  have same: "?thesis" if "ep_sequence_filter core' = ep_sequence_filter core" unfolding that using inv sched(1) by (rule filter_goes_wait)
  show ?thesis
  proof (cases x)
    case (Ep_event t ev)
    show ?thesis
    proof (cases "\<exists>ch bs. ev = TransportPacketReceived ch bs")
      case False
      with run Ep_event show ?thesis using ep_event_quiet same by (fastforce split: Option.bind_splits)
    next
      case True
      then obtain ch bs where x: "x = Ep_event t (TransportPacketReceived ch bs)" using Ep_event by blast
      from run [unfolded x] show ?thesis
      proof (cases rule: ep_received_cases)
        case ignored
        then show ?thesis using same by (simp add: ep_same_def ep_keeps_def)
      next
        case (accepted e f')
        have "filter_step (clock, ep_sequence_filter core) (Check ?now (env_time e) (env_seq_id e) (env_seq_no e)) =
            Some (Some (env_time e, env_seq_id e, env_seq_no e), ?now, f')" using accepted(2) time x by simp
        from filter_goes_step [OF inv _ this] sched accepted(3) show ?thesis by simp
      qed
    qed
  next
    case (Ep_poll t h)
    with run obtain actions where "endpoint_poll cr h core t [] = Some (core', actions)" by (auto split: Option.bind_splits)
    from ep_acts_filter [OF endpoint_poll_acts [OF this]]
    have f: "ep_sequence_filter core' = snd (remove_expired h (ep_sequence_filter core) (endpoint_time core t) SEQUENCE_SOFT_CAP)" by simp
    have "filter_step (clock, ep_sequence_filter core) (Expire ?now SEQUENCE_SOFT_CAP h) = Some (None, ?now, ep_sequence_filter core')"
      using f time Ep_poll by simp
    from filter_goes_step [OF inv _ this] sched Ep_poll show ?thesis by simp
  qed
qed

lemma endpoint_do_static: "endpoint_do cr x core = Some (core', es) \<Longrightarrow> ep_config core' = ep_config core"
  using endpoint_do_path [of cr x core core' es] by (simp add: ep_path_def ep_static_def)

lemma endpoint_run_filter:
  assumes "filter_inv (ep_tick boot 0) (ep_tick boot clock, ep_sequence_filter core)" "ec_boot_time_ms (ep_config core) = boot"
    and "endpoint_run cr xs core = Some (core', es)" "ep_schedule boot clock (xs @ ys)"
  shows "\<exists>clock'. filter_goes (ep_tick boot 0) (ep_tick boot clock, ep_sequence_filter core) (ep_tick boot clock', ep_sequence_filter core') \<and>
    ep_schedule boot clock' ys \<and> ep_config core' = ep_config core"
  using assms
proof (induction xs arbitrary: core es clock)
  case Nil
  then show ?case by (auto simp: filter_goes_def)
next
  case (Cons x xs)
  then obtain core1 e1 e2 where r: "endpoint_do cr x core = Some (core1, e1)" "endpoint_run cr xs core1 = Some (core', e2)"
    by (auto split: Option.bind_splits)
  from Cons.prems(4) have s: "clock \<le> op_time x" "unat boot + unat (op_time x) < 2 ^ 64" "ep_tick boot (op_time x) - ep_tick boot 0 + 704 < 2 ^ 25"
    "case x of Ep_poll _ hash_iter \<Rightarrow> \<forall>m. mset (hash_iter m) = mset m | _ \<Rightarrow> True" "ep_schedule boot (op_time x) (xs @ ys)" by simp_all
  have g: "filter_goes (ep_tick boot 0) (ep_tick boot clock, ep_sequence_filter core) (ep_tick boot (op_time x), ep_sequence_filter core1)"
    using endpoint_do_filter [OF Cons.prems(1,2) r(1) ep_tick_mono [OF s(1)] s(2-4)] .
  then have "filter_inv (ep_tick boot 0) (ep_tick boot (op_time x), ep_sequence_filter core1)" by (simp only: filter_goes_def)
  from Cons.IH [OF this _ r(2) s(5)] obtain clock' where
    c: "filter_goes (ep_tick boot 0) (ep_tick boot (op_time x), ep_sequence_filter core1) (ep_tick boot clock', ep_sequence_filter core')"
       "ep_schedule boot clock' ys" "ep_config core' = ep_config core1" using Cons.prems(2) endpoint_do_static [OF r(1)] by auto
  from filter_goes_trans [OF g c(1)] c(2,3) endpoint_do_static [OF r(1)] show ?case by auto
qed

lemma ep_received_blocks:
  assumes inv: "filter_inv (ep_tick boot 0) (ep_tick boot clock, ep_sequence_filter core)" and boot: "ec_boot_time_ms (ep_config core) = boot"
    and sched: "ep_schedule boot clock [Ep_event t (TransportPacketReceived ch bs)]"
    and run: "endpoint_do cr (Ep_event t (TransportPacketReceived ch bs)) core = Some (core', es)"
  obtains (ignored) "ep_same core core'" "es = []"
  | (accepted) e where "decode_transport_packet cr (ec_envelope_key (ep_config core)) bs = Some (Inr e)"
      "filter_inv (ep_tick boot 0) (ep_tick boot t, ep_sequence_filter core')"
      "\<not> filter_blocked (ep_tick boot 0) (ep_tick boot clock, ep_sequence_filter core) (env_time e, env_seq_id e, env_seq_no e)"
      "filter_blocked (ep_tick boot 0) (ep_tick boot t, ep_sequence_filter core') (env_time e, env_seq_id e, env_seq_no e)"
  using run
proof (cases rule: ep_received_cases)
  case ignored
  then show ?thesis by (rule that(1))
next
  case (accepted e f')
  have time: "endpoint_time core t = tick_time (ep_tick boot t)" using endpoint_time_tick [of core t] boot sched by simp
  have "filter_adm (ep_tick boot 0) (ep_tick boot clock, ep_sequence_filter core) (Check (ep_tick boot t) (env_time e) (env_seq_id e) (env_seq_no e))"
    using sched ep_tick_mono [of clock t boot] by simp
  from filter_step_all [OF inv this] accepted(2,3) time show ?thesis
    by (intro that(2) [OF accepted(1)]) (auto simp del: filter_inv.simps filter_blocked.simps)
qed

subsection \<open>Polling finishes sessions\<close>

lemma only_at_trans: "only_at c core core1 \<Longrightarrow> only_at c core1 core2 \<Longrightarrow> only_at c core core2"
  by (simp add: only_at_def)

lemma only_at_simps [simp]:
  "only_at c core core" "only_at c core (set_session c s core)" "only_at c core (drop_session c core)" "only_at c core (count_dropped core)"
  by (simp_all add: only_at_def)

lemma finish_closed_session_done:
  assumes "finish_closed_session core t c actions = Some (core', actions')"
  shows "only_at c core core' \<and> (\<forall>s. session_map core' c = Some s \<longrightarrow> \<not> session_done s t)"
proof (cases "session_map core c")
  case None
  with assms show ?thesis by (simp add: finish_closed_session_def session_map_def)
next
  case (Some s)
  show ?thesis
  proof (cases "session_done s t")
    case False
    with assms Some show ?thesis by (auto simp: finish_closed_session_def session_map_def)
  next
    case True
    with assms Some have "session_map core' = (session_map core)(c := None)"
      by (auto simp: finish_closed_session_def session_map_def [of core] Let_def split: if_splits Option.bind_splits)
    then show ?thesis by (simp add: only_at_def)
  qed
qed

lemma send_session_message_at:
  assumes "send_session_message cr core t c msg actions = Some (core', actions')"
  shows "only_at c core core'"
proof -
  from assms obtain s out s' core1 actions1 where s: "send_kcp_packets cr (set_session c s' core) t out actions = Some (core1, actions1)"
      "finish_closed_session core1 t c actions1 = Some (core', actions')"
    by (auto simp: send_session_message_def session_map_def split: Option.bind_splits)
  have "only_at c core core1" using send_kcp_packets_map [OF s(1)] by (simp add: only_at_def)
  then show ?thesis using finish_closed_session_done [OF s(2)] only_at_trans by blast
qed

lemma queue_local_close_at:
  assumes "queue_local_close cr core t c actions = Some (core', actions')"
  shows "only_at c core core'"
proof -
  from assms have "core' = core \<or> (\<exists>s r. send_session_message cr (set_session c s core) t c (SessionMessage_Close r) actions = Some (core', actions'))"
    by (auto simp: queue_local_close_def split: option.splits if_splits Option.bind_splits)
  then show ?thesis
  proof (elim disjE exE)
    fix s r assume "send_session_message cr (set_session c s core) t c (SessionMessage_Close r) actions = Some (core', actions')"
    then show ?thesis by (rule only_at_trans [OF only_at_simps(2) send_session_message_at])
  qed simp
qed

lemma poll_session_done:
  assumes "poll_session cr t c st = Some st'"
  shows "only_at c (fst st) (fst st') \<and> (\<forall>s. session_map (fst st') c = Some s \<longrightarrow> \<not> session_done s t)"
proof -
  obtain core actions where st: "st = (core, actions)" by fastforce
  with assms obtain core1 actions1 s out s' core2 actions2 where q: "queue_local_close cr core t c actions = Some (core1, actions1)"
    and k: "send_kcp_packets cr (set_session c s' core1) t out actions1 = Some (core2, actions2)"
    and e: "finish_closed_session core2 t c actions2 = Some st'"
    by (auto simp: poll_session_def session_map_def split: Option.bind_splits)
  have "only_at c core core2" using queue_local_close_at [OF q] send_kcp_packets_map [OF k] by (simp add: only_at_def)
  moreover have "only_at c core2 (fst st') \<and> (\<forall>s. session_map (fst st') c = Some s \<longrightarrow> \<not> session_done s t)"
    using finish_closed_session_done e by (cases st') simp
  ultimately show ?thesis using only_at_trans by (auto simp: st)
qed

lemma poll_sessions_done:
  assumes "fold_run (poll_session cr t) cs st = Some st'"
  shows "(\<forall>c \<in> set cs. \<forall>s. session_map (fst st') c = Some s \<longrightarrow> \<not> session_done s t) \<and>
    (\<forall>c. c \<notin> set cs \<longrightarrow> session_map (fst st') c = session_map (fst st) c)"
  using assms
proof (induction cs arbitrary: st)
  case (Cons c cs)
  then obtain st1 where s1: "poll_session cr t c st = Some st1" "fold_run (poll_session cr t) cs st1 = Some st'"
    by (auto split: Option.bind_splits)
  note p = poll_session_done [OF s1(1)] and i = Cons.IH [OF s1(2)]
  show ?case
  proof (intro conjI ballI allI impI)
    fix d s assume d: "d \<in> set (c # cs)" "session_map (fst st') d = Some s"
    then show "\<not> session_done s t" using p i by (cases "d \<in> set cs") auto
  next
    fix d assume "d \<notin> set (c # cs)"
    then show "session_map (fst st') d = session_map (fst st) d" using p i by (simp add: only_at_def)
  qed
qed simp

lemma poll_keepalive_map: "poll_keepalive cr core t actions = Some (core', actions') \<Longrightarrow> session_map core' = session_map core"
  by (auto simp: poll_keepalive_def Let_def ep_sends_def ep_same_def session_map_def dest!: send_endpoint_message_same split: if_splits Option.bind_splits)

lemma endpoint_poll_done:
  assumes "endpoint_poll cr hash_iter core t actions = Some (core', actions')" "session_map core' c = Some s"
  shows "\<not> session_done s t"
proof -
  from assms(1) obtain core2 actions2 core4 actions4 where
    p: "fold_run (poll_session cr t) (bt_keys (ep_sessions core2))
      (core2\<lparr>ep_tombstones := filter (\<lambda>(_, expire_at). t < expire_at) (ep_tombstones core2)\<rparr>, actions2) = Some (core4, actions4)"
    and k: "poll_keepalive cr core4 t actions4 = Some (core', actions')"
    by (auto simp: endpoint_poll_def Let_def split: Option.bind_splits)
  from assms(2) have s: "session_map core4 c = Some s" using poll_keepalive_map [OF k] by simp
  show ?thesis
  proof (cases "c \<in> set (bt_keys (ep_sessions core2))")
    case True
    with poll_sessions_done [OF p] s show ?thesis by auto
  next
    case False
    then have "session_map (core2\<lparr>ep_tombstones := filter (\<lambda>(_, expire_at). t < expire_at) (ep_tombstones core2)\<rparr>) c = None"
      by (simp add: bt_keys_def session_map_def map_of_eq_None_iff)
    with poll_sessions_done [OF p] s False show ?thesis by auto
  qed
qed

end
