(* ===== verification/Endpoint_Safe.thy ===== *)
theory Endpoint_Safe
  imports Endpoint_Correct
begin

section \<open>When the endpoint returns\<close>

text \<open>
  The conditions under which the operations of the endpoint return.  \<open>config_ok\<close> is the soundness of a
  configuration, as a computable predicate; \<open>core_good\<close> is the invariant it establishes and every
  operation keeps: the sizes fit (\<open>config_fits\<close>), the planner and the samples belong to the graph, the
  sessions and their KCP sides are well-formed.  From it follow that packets have room for the
  longest route (the overhead is shown to be the longest path), that every packet the endpoint emits
  opens to its message, and that timers and requests return.
\<close>

subsection \<open>Definitions\<close>

definition io_fit :: "usize \<Rightarrow> bytes \<times> bytes list \<Rightarrow> bool" where
  "io_fit mtu io \<longleftrightarrow> length (fst io) \<le> mtu \<and> (\<forall>p \<in> set (snd io). length p \<le> mtu)"

definition kcp_fit :: "Kcp \<Rightarrow> bool" where
  "kcp_fit k \<longleftrightarrow> kc_mss k + 28 = kc_mtu k \<and> (\<forall>seg \<in> set (snd_queue k @ snd_buf k). length (sg_data seg) \<le> kc_mss k) \<and>
     io_fit (kc_mtu k) (io_side k)"

definition queued :: "Kcp \<Rightarrow> bytes set" where
  "queued k = sg_data ` set (snd_queue k @ snd_buf k)"

definition sheds :: "Kcp \<Rightarrow> Kcp \<Rightarrow> bool" where
  "sheds k k' \<longleftrightarrow> fixed_side k' = fixed_side k \<and> io_side k' = io_side k \<and> queued k' \<subseteq> queued k"

definition sessions_fit :: "(ConvId \<rightharpoonup> EndpointSession) \<Rightarrow> bool" where
  "sessions_fit S \<longleftrightarrow> (\<forall>c s. S c = Some s \<longrightarrow> kcp_fit (ss_kcp s))"

fun graph_path :: "RouteNode list \<Rightarrow> nat \<Rightarrow> RouteEdge list \<Rightarrow> bool" where
  "graph_path nodes a [] \<longleftrightarrow> True"
| "graph_path nodes a (e # path) \<longleftrightarrow> a < length nodes \<and> e \<in> set (rn_edges (nodes ! a)) \<and> graph_path nodes (unat (re_next e)) path"

definition longest_from :: "RouteNode list \<Rightarrow> nat \<Rightarrow> nat \<Rightarrow> bool" where
  "longest_from nodes a n \<longleftrightarrow> (\<exists>path. graph_path nodes a path \<and> length path = n) \<and> (\<forall>path. graph_path nodes a path \<longrightarrow> length path \<le> n)"

definition config_fits :: "EndpointCore \<Rightarrow> bool" where
  "config_fits core \<longleftrightarrow>
     (let config = ep_config core; g = rcf_graph (ec_route config); params = ep_kcp_params core
      in graph_ordered g \<and> channels_distinct (planner_nodes (planner_new (ec_route config))) \<and>
         2 \<le> length (rg_nodes g) \<and> length (rg_nodes g) \<le> 65 \<and>
         rcf_feedback_interval_ms (ec_route config) \<noteq> 0 \<and> ec_padding_reserve config \<noteq> 0 \<and>
         scheduled_packet_overhead config = Some (ep_scheduled_packet_overhead core) \<and>
         kp_mtu params + 17 + ep_scheduled_packet_overhead core = effective_transport_mtu (rcf_min_mtu (ec_route config)) \<and>
         30 \<le> kp_mtu params \<and> 2 \<le> unat (kp_receive_window params) \<and> 1 \<le> ep_window core)"

definition sends_ok :: "crypto \<Rightarrow> EndpointCore \<Rightarrow> EndpointMessage \<Rightarrow> CoreAction list \<Rightarrow> bool" where
  "sends_ok cr core msg new \<longleftrightarrow> new = [] \<or> (\<exists>ch bs e. new = [SendTransportPacket ch bs] \<and>
     length bs \<le> effective_transport_mtu (rcf_min_mtu (ec_route (ep_config core))) \<and>
     decode_transport_packet cr (ec_envelope_key (ep_config core)) bs = Some (Inr e) \<and>
     plan_built (ec_route (ep_config core)) (ch # env_route_plan e) \<and>
     env_payload e = seal_endpoint_message cr core (envelope_stamp e) msg)"

definition core_ready :: "crypto \<Rightarrow> EndpointCore \<Rightarrow> bool" where
  "core_ready cr core \<longleftrightarrow> config_fits core \<and> ep_net_ok core \<and> aead_correct cr"

definition core_good :: "crypto \<Rightarrow> EndpointCore \<Rightarrow> bool" where
  "core_good cr core \<longleftrightarrow> core_ready cr core \<and> sessions_ok (ep_kcp_params core) (ep_window core) (session_map core) \<and> sessions_fit (session_map core)"

definition config_ok :: "EndpointConfig \<Rightarrow> bool" where
  "config_ok config \<longleftrightarrow>
     (let route = ec_route config; g = rcf_graph route
      in graph_ordered g \<and> channels_distinct (planner_nodes (planner_new route)) \<and>
         2 \<le> length (rg_nodes g) \<and> length (rg_nodes g) \<le> 65 \<and>
         rcf_feedback_interval_ms route \<noteq> 0 \<and> ec_padding_reserve config \<noteq> 0 \<and> kcf_receive_window (ec_kcp config) \<noteq> 1 \<and>
         (case scheduled_packet_overhead config of None \<Rightarrow> False
          | Some overhead \<Rightarrow> overhead + 47 \<le> effective_transport_mtu (rcf_min_mtu route)))"

subsection \<open>KCP operations return\<close>

lemma emit_output_fit: "io_fit mtu io \<Longrightarrow> io_fit mtu (emit_output io)"
  by (auto simp: io_fit_def emit_output_def split: prod.splits)

lemma append_segment_fit:
  assumes "io_fit mtu io" "28 + length (sg_data seg) \<le> mtu"
  shows "io_fit mtu (append_segment mtu (28 + length (sg_data seg)) seg io)"
  using assms by (cases io) (auto simp: io_fit_def append_segment_def emit_output_def)

lemma flush_ack_fit:
  assumes "flush_ack k seg = (k', seg')" "kcp_fit k" "sg_data seg = []"
  shows "kcp_fit k' \<and> sg_data seg' = []"
proof -
  have f: "\<exists>io' seg'. fold (\<lambda>(sn, ts) (io, seg). let seg' = seg\<lparr>sg_sn := sn, sg_ts := ts\<rparr>
            in (append_segment (kc_mtu k) KCP_OVERHEAD seg' io, seg')) acks (io, seg) = (io', seg') \<and>
        io_fit (kc_mtu k) io' \<and> sg_data seg' = []"
    if "io_fit (kc_mtu k) io" "sg_data seg = []" for acks io seg
    using that
  proof (induction acks arbitrary: io seg)
    case (Cons a acks)
    obtain sn ts where a: "a = (sn, ts)" by fastforce
    let ?seg = "seg\<lparr>sg_sn := sn, sg_ts := ts\<rparr>"
    have "io_fit (kc_mtu k) (append_segment (kc_mtu k) KCP_OVERHEAD ?seg io)"
      using append_segment_fit [OF Cons.prems(1), of ?seg] Cons.prems(2) assms(2) by (simp add: kcp_fit_def)
    from Cons.IH [OF this, of ?seg] Cons.prems(2) show ?case by (simp add: a Let_def)
  qed simp
  have io: "io_fit (kc_mtu k) (kc_buf k, kc_output k)" using assms(2) by (simp add: kcp_fit_def io_side_def)
  from f [OF io assms(3), of "acklist k"] assms(1,2) show ?thesis
    by (auto simp: flush_ack_def kcp_fit_def with_io_def io_side_def)
qed

lemma flush_probe_commands_fit:
  assumes "flush_probe_commands k seg = (k', seg')" "kcp_fit k" "sg_data seg = []"
  shows "kcp_fit k'"
proof -
  have cmd: "kcp_fit (fst (flush_probe_command k cmd seg)) \<and> sg_data (snd (flush_probe_command k cmd seg)) = []"
    if "kcp_fit k" "sg_data seg = []" for k cmd seg
    using that append_segment_fit [of "kc_mtu k" "io_side k" "seg\<lparr>sg_cmd := cmd\<rparr>"]
    by (auto simp: flush_probe_command_def Let_def kcp_fit_def with_io_def io_side_def)
  obtain k1 s1 where k1: "(if probe k AND KCP_ASK_SEND \<noteq> 0 then flush_probe_command k KCP_CMD_WASK seg else (k, seg)) = (k1, s1)" by fastforce
  obtain k2 s2 where k2: "(if probe k1 AND KCP_ASK_TELL \<noteq> 0 then flush_probe_command k1 KCP_CMD_WINS s1 else (k1, s1)) = (k2, s2)" by fastforce
  have "kcp_fit k1 \<and> sg_data s1 = []" using k1 cmd assms(2,3) by (metis fst_conv snd_conv)
  then have "kcp_fit k2" using k2 cmd by (metis fst_conv)
  moreover have "k' = k2\<lparr>probe := 0\<rparr>"
    using assms(1) unfolding flush_probe_commands_def k1 Let_def prod.case k2 by simp
  ultimately show ?thesis by (simp add: kcp_fit_def io_side_def)
qed

lemma admit_segments_data:
  assumes "admit_segments k win wnd queue nxt = (adm, left, nxt')" "\<forall>seg \<in> set queue. P (sg_data seg)"
  shows "\<forall>seg \<in> set adm \<union> set left. P (sg_data seg)"
  using assms by (induction k win wnd queue nxt arbitrary: adm rule: admit_segments.induct) (auto simp: Let_def split: if_splits prod.splits)

lemma flush_segments_fit:
  assumes "flush_segments k wnd segs vars = (segs', vars')" "io_fit (kc_mtu k) (fv_io vars)"
    "\<forall>seg \<in> set segs. length (sg_data seg) + 28 \<le> kc_mtu k"
  shows "io_fit (kc_mtu k) (fv_io vars') \<and> (\<forall>seg \<in> set segs'. length (sg_data seg) + 28 \<le> kc_mtu k)"
  using assms
proof (induction segs arbitrary: vars segs')
  case (Cons seg segs)
  obtain seg1 vars1 where s: "flush_segment k wnd seg vars = (seg1, vars1)" by fastforce
  obtain rest where r: "flush_segments k wnd segs vars1 = (rest, vars')" "segs' = seg1 # rest"
    using Cons.prems(1) s by (auto split: prod.splits)
  have "io_fit (kc_mtu k) (fv_io vars1) \<and> length (sg_data seg1) + 28 \<le> kc_mtu k"
  proof (cases "transmit_decision k seg")
    case None
    with s Cons.prems show ?thesis by (simp add: flush_segment_def)
  next
    case (Some d)
    obtain seg2 to fast where d: "d = (seg2, to, fast)" by (cases d)
    have "sg_data seg2 = sg_data seg" using transmit_decision_same [of k seg seg2 "(to, fast)"] Some d by (simp add: same_sent_def payload_def)
    then show ?thesis using s Some d Cons.prems append_segment_fit [OF Cons.prems(2), of "seg2\<lparr>sg_ts := current k, sg_wnd := wnd, sg_una := rcv_nxt k\<rparr>"]
      by (auto simp: flush_segment_def Let_def add.commute)
  qed
  with Cons.IH [OF r(1)] Cons.prems(3) r(2) show ?case by auto
qed simp

lemma flush_updated:
  "flush_ack k seg = (k', seg') \<Longrightarrow> updated k' = updated k"
  "updated (probe_wnd_size k) = updated k"
  "flush_probe_commands k seg = (k', seg') \<Longrightarrow> updated k' = updated k"
  "flush_congestion k win lost change = Some k' \<Longrightarrow> updated k' = updated k"
proof -
  show "flush_ack k seg = (k', seg') \<Longrightarrow> updated k' = updated k"
    by (auto simp: flush_ack_def with_io_def split: prod.splits)
  show "updated (probe_wnd_size k) = updated k" by (simp add: probe_wnd_size_def Let_def)
  show "flush_congestion k win lost change = Some k' \<Longrightarrow> updated k' = updated k"
    by (auto simp: flush_congestion_def Let_def split: if_splits Option.bind_splits)
  have cmd: "updated (fst (flush_probe_command k cmd seg)) = updated k" for k cmd seg
    by (simp add: flush_probe_command_def Let_def with_io_def)
  show "flush_probe_commands k seg = (k', seg') \<Longrightarrow> updated k' = updated k"
    using cmd by (auto simp: flush_probe_commands_def Let_def split: prod.splits if_splits) (metis fst_conv)+
qed

lemma kcp_flush_total:
  assumes "updated k" "kcp_fit k"
  shows "\<exists>k'. kcp_flush k = Some (Inr (), k') \<and> kcp_fit k' \<and> updated k'"
proof -
  define segment where "segment = segment_default\<lparr>sg_conv := kc_conv k, sg_cmd := KCP_CMD_ACK, sg_wnd := wnd_unused k, sg_una := rcv_nxt k\<rparr>"
  obtain k1 s1 where f1: "flush_ack k segment = (k1, s1)" by fastforce
  obtain k2 s2 where f2: "flush_probe_commands (probe_wnd_size k1) s1 = (k2, s2)" by fastforce
  obtain admitted left nxt' where adm: "admit_segments k2 (flush_window k2) (sg_wnd s2) (snd_queue k2) (snd_nxt k2) = (admitted, left, nxt')"
    by (metis prod_cases3)
  define k3 where "k3 = k2\<lparr>snd_queue := left, snd_buf := snd_buf k2 @ admitted, snd_nxt := nxt'\<rparr>"
  obtain segs vars where f3: "flush_segments k3 (sg_wnd s2) (snd_buf k3)
      \<lparr>fv_io = io_side k3, fv_lost = False, fv_change = 0\<rparr> = (segs, vars)" by fastforce
  define k4 where "k4 = with_io (k3\<lparr>snd_buf := segs\<rparr>) (emit_output (fv_io vars))"
  have "sg_data segment = []" by (simp add: segment_def segment_default_def)
  with flush_ack_fit [OF f1 assms(2)] have "kcp_fit k1" "sg_data s1 = []" by simp_all
  then have "kcp_fit (probe_wnd_size k1)" "sg_data s1 = []" by (simp_all add: kcp_fit_def probe_wnd_size_def io_side_def Let_def)
  with flush_probe_commands_fit [OF f2] have fit2: "kcp_fit k2" by simp
  have "\<forall>seg \<in> set admitted \<union> set left. length (sg_data seg) \<le> kc_mss k2"
    using fit2 by (intro admit_segments_data [OF adm, where P = "\<lambda>d. length d \<le> kc_mss k2"]) (simp add: kcp_fit_def)
  then have fit3: "kcp_fit k3" using fit2 by (auto simp: k3_def kcp_fit_def io_side_def)
  have "length (sg_data seg) + 28 \<le> kc_mtu k3" if "seg \<in> set (snd_buf k3)" for seg using fit3 that unfolding kcp_fit_def by (metis Un_iff add_le_mono1 set_append)
  with flush_segments_fit [OF f3] fit3 have "io_fit (kc_mtu k3) (fv_io vars)" "\<forall>seg \<in> set segs. length (sg_data seg) + 28 \<le> kc_mtu k3"
    by (simp_all add: kcp_fit_def)
  then have fit4: "kcp_fit k4" using fit3 emit_output_fit [of "kc_mtu k3" "fv_io vars"] by (auto simp: k4_def kcp_fit_def with_io_def io_side_def)
  have "0 < fv_change vars \<longrightarrow> fastresend k4 \<noteq> None" using flush_segments_change [OF f3] by (simp add: k4_def with_io_def)
  from flush_congestion_frame [OF this, of "flush_window k2" "fv_lost vars"] obtain k5 where
    k5: "flush_congestion k4 (flush_window k2) (fv_lost vars) (fv_change vars) = Some k5"
      "local_side k5 = local_side k4" "snd_core k5 = snd_core k4" "io_side k5 = io_side k4" by blast
  have "kcp_fit k5" using fit4 k5 by (simp add: kcp_fit_def local_side_def fixed_side_def snd_core_def)
  moreover have "kcp_flush k = Some (Inr (), k5)"
    using assms(1) f1 f2 adm f3 k5(1) unfolding kcp_flush_def segment_def k3_def k4_def io_side_def
    by (simp add: Let_def)
  moreover have "updated k5" using flush_updated(4) [OF k5(1)] flush_updated(1) [OF f1] flush_updated(2) [of k1] flush_updated(3) [OF f2] assms(1)
    by (simp add: k4_def k3_def with_io_def)
  ultimately show ?thesis by blast
qed

lemma kcp_update_total:
  assumes "kcp_fit k"
  shows "\<exists>k'. kcp_update k now = Some (Inr (), k') \<and> kcp_fit k' \<and> updated k'"
proof -
  obtain k1 where k1: "quiet k k1" "updated k1" "kcp_update k now = kcp_flush k1 \<or> kcp_update k now = Some (Inr (), k1)"
    by (rule kcp_update_cases)
  have "kcp_fit k1" using assms k1(1) by (simp add: quiet_def kcp_fit_def local_side_def fixed_side_def snd_core_def)
  then show ?thesis using kcp_flush_total [OF k1(2)] k1(2,3) by auto
qed

lemma sheds_fit: "sheds k k' \<Longrightarrow> kcp_fit k \<Longrightarrow> kcp_fit k'"
  by (auto simp: sheds_def kcp_fit_def fixed_side_def queued_def)

lemma sheds_trans: "sheds k k1 \<Longrightarrow> sheds k1 k2 \<Longrightarrow> sheds k k2"
  by (auto simp: sheds_def)

lemma sheds_sides: "snd_side k' = snd_side k \<Longrightarrow> fixed_side k' = fixed_side k \<Longrightarrow> sheds k k'"
  by (simp add: sheds_def snd_side_def io_side_def queued_def)

lemma sheds_frames:
  "sheds k k" "sheds k (shrink_buf k)" "sheds k (parse_una k una)" "sheds k (parse_ack k sn)" "sheds k (parse_fastack k sn ts)"
  "sheds k (k\<lparr>rmt_wnd := w\<rparr>)" "sheds k (k\<lparr>probe := p\<rparr>)" "sheds k (k\<lparr>current := t\<rparr>)" "sheds k (input_push k seg)"
proof -
  show "sheds k k" by (simp add: sheds_def)
  show "sheds k (shrink_buf k)" "sheds k (k\<lparr>rmt_wnd := w\<rparr>)" "sheds k (k\<lparr>probe := p\<rparr>)" "sheds k (k\<lparr>current := t\<rparr>)" "sheds k (input_push k seg)"
    by (rule sheds_sides; simp only: frame_simps)+
  have "queued (parse_una k una) \<subseteq> queued k" by (auto simp: queued_def parse_una_def dest!: set_dropWhileD)
  then show "sheds k (parse_una k una)" unfolding sheds_def by (simp only: frame_simps simp_thms)
  have "queued (parse_ack k sn) \<subseteq> queued k" using set_remove_acked(1) [of sn "snd_buf k"] by (auto simp: queued_def parse_ack_def)
  then show "sheds k (parse_ack k sn)" unfolding sheds_def by (simp only: frame_simps simp_thms)
  have "map sg_data (count_fastack sn ts (snd_buf k)) = map sg_data (snd_buf k)"
    by (rule nth_equalityI) (use count_fastack_same [of "snd_buf k" sn ts] in \<open>auto simp: list_all2_conv_all_nth same_sent_def payload_def\<close>)
  then have "queued (parse_fastack k sn ts) \<subseteq> queued k"
    by (simp add: queued_def parse_fastack_def image_Un) (metis image_set order_refl le_supI2)
  then show "sheds k (parse_fastack k sn ts)" unfolding sheds_def by (simp only: frame_simps simp_thms)
qed

lemma input_segment_sheds:
  assumes "input_segment k vars hdr data = Some (k', vars')"
  shows "sheds k k'"
proof -
  let ?k = "shrink_buf (parse_una (k\<lparr>rmt_wnd := sg_wnd hdr\<rparr>) (sg_una hdr))"
  have k: "sheds k ?k" by (rule sheds_trans [OF sheds_trans [OF sheds_frames(6) sheds_frames(3)] sheds_frames(2)])
  from assms show ?thesis
  proof (cases rule: input_segmentE)
    case ack
    from ack(2) obtain k1 where k1: "k1 = ?k \<or> (\<exists>rtt. update_ack ?k rtt = Some k1)" "k' = shrink_buf (parse_ack k1 (sg_sn hdr))"
      by (rule input_ackE)
    then have "sheds ?k k1" using update_ack_frame sheds_frames(1) sheds_sides by blast
    from sheds_trans [OF sheds_trans [OF k this] sheds_trans [OF sheds_frames(4) sheds_frames(2)]] show ?thesis unfolding k1(2) .
  next
    case push
    show ?thesis unfolding push(2) by (rule sheds_trans [OF k sheds_frames(9)])
  next
    case (probe p)
    show ?thesis unfolding probe by (rule sheds_trans [OF k sheds_frames(7)])
  next
    case none
    with k show ?thesis by simp
  qed
qed

lemma kcp_input_fit:
  assumes "kcp_input k now buf = Some (r, k')" "kcp_fit k"
  shows "kcp_fit k'"
proof -
  have loop: "sheds k k1" if "input_loop (k\<lparr>current := now\<rparr>) vars buf = Some (q, k1)" for vars q k1
    using that
  proof (rule input_loop_inv [where I = "sheds k"])
    show "sheds k k2" if "sheds k k1" "input_segment k1 vars hdr data = Some (k2, vars')" for k1 vars hdr data k2 vars'
      using that(1) input_segment_sheds [OF that(2)] by (rule sheds_trans)
  qed (rule sheds_frames)
  from assms(1) show ?thesis
  proof (cases rule: kcp_input_cases)
    case short
    with assms(2) show ?thesis by simp
  next
    case (error e)
    then show ?thesis using sheds_fit [OF loop assms(2)] by blast
  next
    case (ok vars rest k1 k2)
    have "sheds k1 k2" using ok(3) sheds_frames(1,5) by blast
    moreover have "sheds k2 k'" using ok(4) sheds_frames(1) grow_cwnd_frame sheds_sides by blast
    ultimately show ?thesis using sheds_fit [OF sheds_trans [OF loop [OF ok(2)] sheds_trans] assms(2)] by blast
  qed
qed

lemma kcp_recv_sheds:
  assumes "kcp_recv k buf = Some (r, buf', k')"
  shows "sheds k k'"
proof -
  have "k' = k \<or> (\<exists>rest. k' = move_buf (k\<lparr>rcv_queue := rest\<rparr>) \<or> k' = (move_buf (k\<lparr>rcv_queue := rest\<rparr>))\<lparr>probe := probe (move_buf (k\<lparr>rcv_queue := rest\<rparr>)) OR KCP_ASK_TELL\<rparr>)"
    using assms by (auto simp: kcp_recv_def Let_def split: if_splits sum.splits Option.bind_splits)
  moreover have "sheds k (move_buf (k\<lparr>rcv_queue := rest\<rparr>))" for rest
    by (rule sheds_sides) (simp_all only: frame_simps, simp_all add: snd_side_def fixed_side_def)
  ultimately show ?thesis using sheds_frames(1) sheds_trans [OF _ sheds_frames(7)] by auto
qed

lemma recv_messages_sheds: "recv_messages k = Some (msgs, k') \<Longrightarrow> sheds k k'"
proof (induction k arbitrary: msgs rule: recv_messages.induct)
  case (1 k)
  show ?case
  proof (cases "peeksize k")
    case (Inl e)
    with "1.prems" show ?thesis by (auto simp: recv_messages.simps [of k] sheds_frames split: if_splits)
  next
    case (Inr len)
    with "1.prems" obtain w data k1 msg rest where r: "kcp_recv k (replicate len 0) = Some (Inr w, data, k1)"
      "session_message_decode data = Some msg" "recv_messages k1 = Some (rest, k')"
      by (auto simp: recv_messages.simps [of k] split: option.splits sum.splits Option.bind_splits)
    have "sheds k1 k'" using "1.IH" [OF Inr r(1) refl refl refl r(2,3)] .
    with kcp_recv_sheds [OF r(1)] show ?thesis by (rule sheds_trans)
  qed
qed

lemma take_output_fit: "kcp_fit k \<Longrightarrow> kcp_fit (k\<lparr>kc_output := []\<rparr>) \<and> (\<forall>p \<in> set (kc_output k). length p \<le> kc_mtu k)"
  by (simp add: kcp_fit_def io_side_def io_fit_def)

lemma session_flush_now_total:
  assumes "kcp_fit (ss_kcp s)"
  shows "\<exists>out k. session_flush_now s t = Some (out, s\<lparr>ss_kcp := k\<rparr>) \<and> kcp_fit k \<and> sized k = sized (ss_kcp s) \<and> (\<forall>p \<in> set out. length p \<le> kc_mtu (ss_kcp s))"
proof -
  from kcp_update_total [OF assms] obtain k1 where k1: "kcp_update (ss_kcp s) (ucast t) = Some (Inr (), k1)" "kcp_fit k1" "updated k1" by blast
  from kcp_flush_total [OF k1(3,2)] obtain k2 where k2: "kcp_flush k1 = Some (Inr (), k2)" "kcp_fit k2" by blast
  have sz: "sized k2 = sized (ss_kcp s)" using kcp_update_sized [OF k1(1)] kcp_flush_sized [OF k2(1)] by simp
  then have "kc_mtu k2 = kc_mtu (ss_kcp s)" by (simp add: sized_def fixed_side_def)
  then show ?thesis using k1 k2 sz take_output_fit [OF k2(2)]
    by (intro exI [of _ "kc_output k2"] exI [of _ "k2\<lparr>kc_output := []\<rparr>"]) (simp add: session_flush_now_def unwrap_def take_output_def sized_frames)
qed

lemma session_poll_total:
  assumes "kcp_fit (ss_kcp s)"
  shows "\<exists>out k. session_poll s t = Some (out, s\<lparr>ss_kcp := k\<rparr>) \<and> kcp_fit k \<and> sized k = sized (ss_kcp s) \<and> (\<forall>p \<in> set out. length p \<le> kc_mtu (ss_kcp s))"
proof -
  from kcp_update_total [OF assms] obtain k1 where k1: "kcp_update (ss_kcp s) (ucast t) = Some (Inr (), k1)" "kcp_fit k1" "updated k1" by blast
  have sz: "sized k1 = sized (ss_kcp s)" using kcp_update_sized [OF k1(1)] by simp
  then have "kc_mtu k1 = kc_mtu (ss_kcp s)" by (simp add: sized_def fixed_side_def)
  then show ?thesis using k1 sz take_output_fit [OF k1(2)]
    by (intro exI [of _ "kc_output k1"] exI [of _ "k1\<lparr>kc_output := []\<rparr>"]) (simp add: session_poll_def unwrap_def take_output_def sized_frames)
qed

lemma session_send_message_total:
  assumes "kcp_fit (ss_kcp s)" "fragment_count (kc_mss (ss_kcp s)) (length (session_message_encode msg)) = Some n" "n < unat (rcv_wnd (ss_kcp s))" "n < 256"
  shows "\<exists>out k. session_send_message s t msg = Some (out, s\<lparr>ss_kcp := k\<rparr>) \<and> kcp_fit k \<and> wait_snd k = wait_snd (ss_kcp s) + n \<and>
    fixed_side k = fixed_side (ss_kcp s) \<and> (\<forall>p \<in> set out. length p \<le> kc_mtu (ss_kcp s))"
proof -
  let ?k = "ss_kcp s" and ?m = "session_message_encode msg"
  define k1 where "k1 = ?k\<lparr>snd_queue := snd_queue ?k @ split_fragments (kc_mss ?k) n ?m\<rparr>"
  have send: "kcp_send ?k ?m = Some (Inr (length ?m), k1)" using assms(2-4) by (simp add: kcp_send_def k1_def)
  have "kcp_fit k1" using assms(1) split_fragments_size by (auto simp: k1_def kcp_fit_def io_side_def)
  then have "kcp_fit (ss_kcp (s\<lparr>ss_kcp := k1\<rparr>))" by simp
  from session_flush_now_total [OF this, of t] obtain out k where
    k: "session_flush_now (s\<lparr>ss_kcp := k1\<rparr>) t = Some (out, s\<lparr>ss_kcp := k\<rparr>)" "kcp_fit k" "sized k = sized k1" "\<forall>p \<in> set out. length p \<le> kc_mtu k1" by auto
  have "wait_snd k1 = wait_snd ?k + n" "fixed_side k1 = fixed_side ?k" "kc_mtu k1 = kc_mtu ?k" by (simp_all add: k1_def wait_snd_def fixed_side_def)
  then show ?thesis using send k by (intro exI [of _ out] exI [of _ k]) (simp add: session_send_message_def unwrap_def sized_def)
qed

lemma session_fit_updates:
  "session_input_packet s t packet = Some (msgs, out, s') \<Longrightarrow> kcp_fit (ss_kcp s) \<Longrightarrow> kcp_fit (ss_kcp s')"
  "session_poll s t = Some (out, s') \<Longrightarrow> kcp_fit (ss_kcp s) \<Longrightarrow> kcp_fit (ss_kcp s')"
  "session_send_message s t msg = Some (out, s') \<Longrightarrow> kcp_fit (ss_kcp s) \<Longrightarrow> kcp_fit (ss_kcp s')"
proof -
  show "kcp_fit (ss_kcp s')" if i: "session_input_packet s t packet = Some (msgs, out, s')" "kcp_fit (ss_kcp s)"
  proof -
    from i(1) obtain r k s1 k' where k: "kcp_input (ss_kcp s) (ucast t) packet = Some (r, k)"
      "session_flush_now (s\<lparr>ss_kcp := k\<rparr>) t = Some (out, s1)" "recv_messages (ss_kcp s1) = Some (msgs, k')" "s' = s1\<lparr>ss_kcp := k'\<rparr>"
      by (auto simp: session_input_packet_def split: Option.bind_splits)
    have "kcp_fit (ss_kcp (s\<lparr>ss_kcp := k\<rparr>))" using kcp_input_fit [OF k(1) i(2)] by simp
    from session_flush_now_total [OF this, of t] k(2) have "kcp_fit (ss_kcp s1)" by auto
    then show ?thesis using sheds_fit [OF recv_messages_sheds [OF k(3)]] k(4) by simp
  qed
  show "kcp_fit (ss_kcp s')" if "session_poll s t = Some (out, s')" "kcp_fit (ss_kcp s)"
    using session_poll_total [OF that(2), of t] that(1) by auto
  show "kcp_fit (ss_kcp s')" if m: "session_send_message s t msg = Some (out, s')" "kcp_fit (ss_kcp s)"
  proof -
    from m(1) obtain w k where k: "kcp_send (ss_kcp s) (session_message_encode msg) = Some (Inr w, k)"
      "session_flush_now (s\<lparr>ss_kcp := k\<rparr>) t = Some (out, s')"
      by (auto simp: session_send_message_def unwrap_def split: Option.bind_splits sum.splits)
    from k(1) obtain n where "k = (ss_kcp s)\<lparr>snd_queue := snd_queue (ss_kcp s) @ split_fragments (kc_mss (ss_kcp s)) n (session_message_encode msg)\<rparr>"
      by (auto simp: kcp_send_def split: Option.bind_splits if_splits)
    then have "kcp_fit (ss_kcp (s\<lparr>ss_kcp := k\<rparr>))" using m(2) split_fragments_size by (auto simp: kcp_fit_def io_side_def)
    from session_flush_now_total [OF this, of t] k(2) show ?thesis by auto
  qed
qed

lemma session_new_fit: "28 \<le> kp_mtu params \<Longrightarrow> kcp_fit (ss_kcp (session_new c params phase))"
  by (simp add: session_new_def kcp_new_def kcp_fit_def io_fit_def io_side_def Let_def)

lemma session_step_fit:
  assumes "session_step params window S es S'" "sessions_fit S" "28 \<le> kp_mtu params"
  shows "sessions_fit S'"
proof -
  have upd: "sessions_fit (S(c \<mapsto> s))" if "kcp_fit (ss_kcp s)" for c s
    using assms(2) that by (simp add: sessions_fit_def)
  have fit: "kcp_fit (ss_kcp s)" if "S c = Some s" for c s
    using assms(2) that by (simp add: sessions_fit_def)
  from assms(1) show ?thesis
  proof cases
    case (st_pending c d p)
    then show ?thesis using session_new_fit [OF assms(3)] by (simp add: upd)
  next
    case (st_input c s p t packet msgs out s')
    then show ?thesis using session_fit_updates(1) [OF st_input(5)] fit by (simp add: upd)
  next
    case (st_close_message c s t r out s')
    then show ?thesis using session_fit_updates(3) [OF st_close_message(7)] fit by (simp add: upd)
  next
    case (st_open c t out s')
    then show ?thesis using session_fit_updates(3) [OF st_open(3)] session_new_fit [OF assms(3)] by (simp add: upd)
  qed (use assms(2) fit in \<open>auto simp: sessions_fit_def dest: session_fit_updates split: if_splits\<close>)
qed

lemma session_path_fit:
  assumes "session_path params window S es S'" "sessions_fit S" "28 \<le> kp_mtu params"
  shows "sessions_fit S'"
  using assms by (induction rule: session_path.induct) (blast intro: session_step_fit)+

subsection \<open>The longest route\<close>

lemma longest_edges_spec:
  assumes "\<forall>e \<in> set es. i < unat (re_next e) \<and> unat (re_next e) < length L" "i < length L"
  shows "\<exists>x. fold_run (longest_edge nodes i) es L = Some (L[i := x]) \<and> L ! i \<le> x \<and>
    (x = L ! i \<or> (\<exists>e \<in> set es. x = L ! unat (re_next e) + 1)) \<and> (\<forall>e \<in> set es. L ! unat (re_next e) + 1 \<le> x)"
  using assms
proof (induction es arbitrary: L)
  case Nil
  then show ?case by (intro exI [of _ "L ! i"]) simp
next
  case (Cons e es)
  let ?y = "max (L ! i) (L ! unat (re_next e) + 1)" and ?L = "L[i := max (L ! i) (L ! unat (re_next e) + 1)]"
  have step: "longest_edge nodes i e L = Some ?L"
    using Cons.prems by (simp add: longest_edge_def run_simps)
  have same: "?L ! unat (re_next d) = L ! unat (re_next d)" if "d \<in> set (e # es)" for d
    using Cons.prems(1) that by auto
  obtain x where x: "fold_run (longest_edge nodes i) es ?L = Some (?L[i := x])" "?L ! i \<le> x"
    "x = ?L ! i \<or> (\<exists>e \<in> set es. x = ?L ! unat (re_next e) + 1)" "\<forall>e \<in> set es. ?L ! unat (re_next e) + 1 \<le> x"
    using Cons.IH [of ?L] Cons.prems by auto
  have i: "?L ! i = ?y" using Cons.prems(2) by simp
  show ?case
  proof (intro exI [of _ x] conjI)
    show "fold_run (longest_edge nodes i) (e # es) L = Some (L[i := x])" using step x(1) by simp
    show "L ! i \<le> x" using x(2) i by simp
    show "\<forall>e \<in> set (e # es). L ! unat (re_next e) + 1 \<le> x" using x(2,4) i same by auto
    have "x = ?y \<or> (\<exists>e \<in> set es. x = L ! unat (re_next e) + 1)" using x(3) i same by auto
    then show "x = L ! i \<or> (\<exists>e \<in> set (e # es). x = L ! unat (re_next e) + 1)" by (auto simp: max_def split: if_splits)
  qed
qed

lemma longest_node_spec:
  assumes ord: "graph_ordered g" "nodes = rg_nodes g" and i: "i < length nodes" "length L = length nodes"
    and ready: "\<forall>a. i < a \<and> a < length nodes \<longrightarrow> longest_from nodes a (L ! a)" "L ! i = 0"
  shows "\<exists>x. longest_node nodes i L = Some (L[i := x]) \<and> longest_from nodes i x"
proof -
  let ?es = "rn_edges (nodes ! i)"
  have es: "\<forall>e \<in> set ?es. i < unat (re_next e) \<and> unat (re_next e) < length L"
    using ord i by (auto simp: graph_ordered_def)
  from longest_edges_spec [OF es, of nodes] i obtain x where x: "fold_run (longest_edge nodes i) ?es L = Some (L[i := x])"
    "x = L ! i \<or> (\<exists>e \<in> set ?es. x = L ! unat (re_next e) + 1)" "\<forall>e \<in> set ?es. L ! unat (re_next e) + 1 \<le> x" by auto
  have nxt: "longest_from nodes (unat (re_next e)) (L ! unat (re_next e))" if "e \<in> set ?es" for e
    using ready(1) es that i(2) by auto
  have "\<exists>path. graph_path nodes i path \<and> length path = x"
    using x(2)
  proof
    assume "x = L ! i"
    then show ?thesis using ready(2) by (intro exI [of _ "[]"]) simp
  next
    assume "\<exists>e \<in> set ?es. x = L ! unat (re_next e) + 1"
    then obtain e where e: "e \<in> set ?es" "x = L ! unat (re_next e) + 1" by blast
    from nxt [OF e(1)] obtain path where "graph_path nodes (unat (re_next e)) path" "length path = L ! unat (re_next e)"
      by (auto simp: longest_from_def)
    with e i(1) show ?thesis by (intro exI [of _ "e # path"]) simp
  qed
  moreover have "length path \<le> x" if "graph_path nodes i path" for path
  proof (cases path)
    case (Cons e rest)
    with that nxt x(3) show ?thesis by (fastforce simp: longest_from_def)
  qed simp
  ultimately show ?thesis using x(1) i(1) by (auto simp: longest_node_def longest_from_def run_simps)
qed

lemma longest_spec:
  assumes ord: "graph_ordered g" "nodes = rg_nodes g" and "i \<le> length nodes - 1"
  shows "\<exists>L. fold_run (longest_node nodes) (rev [i..<length nodes - 1]) (replicate (length nodes) 0) = Some L \<and> length L = length nodes \<and>
    (\<forall>a. i \<le> a \<and> a < length nodes \<longrightarrow> longest_from nodes a (L ! a)) \<and> (\<forall>a < i. L ! a = 0)"
  using assms(3)
proof (induction rule: inc_induct)
  case base
  have "longest_from nodes (length nodes - 1) 0"
  proof -
    have none: "rn_edges (nodes ! (length nodes - 1)) = []"
    proof (rule ccontr)
      assume "rn_edges (nodes ! (length nodes - 1)) \<noteq> []"
      then obtain e where "e \<in> set (rn_edges (nodes ! (length nodes - 1)))" by (meson list.set_sel(1))
      moreover have "length nodes - 1 < length nodes" using ord by (simp add: graph_ordered_def)
      ultimately have "length nodes - 1 < unat (re_next e)" "unat (re_next e) < length nodes" using ord unfolding graph_ordered_def by blast+
      then show False by simp
    qed
    have "length path \<le> 0" if "graph_path nodes (length nodes - 1) path" for path
      using that none by (cases path) auto
    then show ?thesis by (auto simp: longest_from_def intro: exI [of _ "[]"])
  qed
  moreover have "a = length nodes - 1" if "length nodes - 1 \<le> a" "a < length nodes" for a using that by simp
  ultimately show ?case by auto
next
  case (step i)
  then obtain L where L: "fold_run (longest_node nodes) (rev [Suc i..<length nodes - 1]) (replicate (length nodes) 0) = Some L"
    "length L = length nodes" "\<forall>a. Suc i \<le> a \<and> a < length nodes \<longrightarrow> longest_from nodes a (L ! a)" "\<forall>a < Suc i. L ! a = 0" by blast
  have len: "i < length nodes" using step by simp
  from longest_node_spec [OF ord len L(2)] L(3,4) obtain x where x: "longest_node nodes i L = Some (L[i := x])" "longest_from nodes i x" by auto
  have "rev [i..<length nodes - 1] = rev [Suc i..<length nodes - 1] @ [i]" using step by (simp add: upt_rec [of i])
  then have "fold_run (longest_node nodes) (rev [i..<length nodes - 1]) (replicate (length nodes) 0) = Some (L[i := x])"
    using L(1) x(1) by (simp add: fold_run_append)
  moreover have "longest_from nodes a (L[i := x] ! a)" if "i \<le> a" "a < length nodes" for a
    using that L(2,3) x(2) by (cases "a = i") auto
  ultimately show ?case using L(2,4) by (intro exI [of _ "L[i := x]"]) auto
qed

lemma path_graph:
  assumes "topology nodes = topology (planner_nodes (planner_new config))" "path_from nodes now a path b"
  shows "\<exists>es. graph_path (rg_nodes (rcf_graph config)) a es \<and> length es = length path"
  using assms(2)
proof (induction path arbitrary: a)
  case (Cons eid path)
  let ?g = "rg_nodes (rcf_graph config)"
  from Cons.prems have v: "valid_edge nodes eid" "eid_node eid = a" "path_from nodes now (edge_next (get_edge nodes eid)) path b"
    by (auto simp: allowed_edge_def)
  have v': "valid_edge (planner_nodes (planner_new config)) eid" using topology_valid [OF assms(1)] v(1) by simp
  define e where "e = rn_edges (?g ! a) ! eid_edge eid"
  have e: "a < length ?g" "e \<in> set (rn_edges (?g ! a))" using v' v(2) by (auto simp: valid_edge_def planner_new_def e_def)
  have "get_edge (planner_nodes (planner_new config)) eid = edge_new e"
    using v' v(2) by (auto simp: valid_edge_def planner_new_def e_def get_edge_def)
  then have "edge_next (get_edge nodes eid) = unat (re_next e)" using topology_get [OF assms(1) v(1)] by (simp add: edge_static_def edge_new_def)
  with Cons.IH v(3) obtain es where "graph_path ?g (unat (re_next e)) es" "length es = length path" by auto
  with e show ?case by (intro exI [of _ "e # es"]) simp
qed (auto intro: exI [of _ "[]"])

lemma graph_path_short:
  assumes "graph_ordered g" "graph_path (rg_nodes g) a path" "a < length (rg_nodes g)"
  shows "length path + a < length (rg_nodes g)"
  using assms(2,3)
proof (induction path arbitrary: a)
  case (Cons e path)
  then have e: "a < unat (re_next e)" "unat (re_next e) < length (rg_nodes g)" using assms(1) by (auto simp: graph_ordered_def)
  with Cons.IH [of "unat (re_next e)"] Cons.prems show ?case by simp
qed simp

lemma scheduled_packet_overhead_spec:
  assumes "graph_ordered (rcf_graph (ec_route config))"
  shows "\<exists>hops. longest_from (rg_nodes (rcf_graph (ec_route config))) 0 hops \<and> scheduled_packet_overhead config =
    Some ((48 + unat (ec_padding_reserve config) + usize_sub hops 1 * 2) mod 2 ^ 64)"
proof -
  let ?nodes = "rg_nodes (rcf_graph (ec_route config))"
  have ne: "?nodes \<noteq> []" using assms by (simp add: graph_ordered_def)
  from longest_spec [OF assms refl, of 0] obtain L where L: "fold_run (longest_node ?nodes) (rev [0..<length ?nodes - 1]) (replicate (length ?nodes) 0) = Some L"
    "length L = length ?nodes" "longest_from ?nodes 0 (L ! 0)" using ne by auto
  moreover have "0 < length L" using L(2) ne by simp
  ultimately show ?thesis using ne by (intro exI [of _ "L ! 0"]) (simp add: scheduled_packet_overhead_def Let_def index_run_def del: length_greater_0_conv)
qed

lemma plan_length:
  assumes "graph_ordered (rcf_graph config)" "plan_built config plan" "longest_from (rg_nodes (rcf_graph config)) 0 hops"
  shows "length plan \<le> hops" "2 \<le> length (rg_nodes (rcf_graph config)) \<Longrightarrow> plan \<noteq> []"
proof -
  from assms(2) obtain p now n sample p' where p: "planner_reach config p" "build_route_plan p now n sample = Some (Some plan, p')"
    by (auto simp: plan_built_def)
  note P = planner_reach_static [OF assms(1) p(1)]
  obtain path where path: "plan = map (\<lambda>eid. channel_id (get_edge (planner_nodes p) eid)) path"
    "path_from (planner_nodes p) now 0 path (length (planner_nodes p) - 1)"
    using build_route_plan_ok [OF P(1), of now n sample] p(2) by auto
  from path_graph [OF P(3) path(2)] assms(3) path(1) show "length plan \<le> hops" by (auto simp: longest_from_def)
  assume "2 \<le> length (rg_nodes (rcf_graph config))"
  then have "2 \<le> length (planner_nodes p)" using topology_length [OF P(3)] by (simp add: planner_new_def)
  then show "plan \<noteq> []" using path by (cases path) auto
qed

subsection \<open>Room for a packet\<close>

lemma config_fits_static: "ep_static core' = ep_static core \<Longrightarrow> config_fits core' = config_fits core"
  by (simp add: ep_static_def config_fits_def ep_window_def)

lemma encode_prefix: "drop n (endpoint_message_encode_with_prefix msg n) = endpoint_message_encode_with_prefix msg 0"
  by (cases msg) (simp_all add: encode_flags_body_def)

lemma open_seal_endpoint_message:
  assumes "aead_correct cr" "endpoint_message_wf msg" "ec_message_key (ep_config core') = ec_message_key (ep_config core)"
  shows "open_endpoint_message cr core' stamp (seal_endpoint_message cr core stamp msg) = Some (Some msg)"
proof -
  obtain body tag where e: "aegis_encrypt cr (ec_message_key (ep_config core)) (endpoint_nonce stamp) (endpoint_message_encode_with_prefix msg 0) [] = (body, tag)"
    "length tag = 16" "aegis_decrypt cr (ec_message_key (ep_config core)) (endpoint_nonce stamp) body tag [] = Some (endpoint_message_encode_with_prefix msg 0)"
    by (rule aead_correctE [OF assms(1)])
  then show ?thesis using assms(3) endpoint_message_roundtrip [OF assms(2)]
    by (simp add: open_endpoint_message_def seal_endpoint_message_def encode_prefix Let_def)
qed

lemma length_seal:
  assumes "aead_correct cr"
  shows "length (seal_endpoint_message cr core stamp msg) = 16 + length (endpoint_message_encode_with_prefix msg 0)"
proof -
  obtain body tag where e: "aegis_encrypt cr (ec_message_key (ep_config core)) (endpoint_nonce stamp) (endpoint_message_encode_with_prefix msg 0) [] = (body, tag)"
    "length tag = 16" "length body = length (endpoint_message_encode_with_prefix msg 0)"
    by (rule aead_correctE [OF assms(1)])
  then show ?thesis by (simp add: seal_endpoint_message_def encode_prefix Let_def)
qed

lemma plan_room:
  assumes "config_fits core" "plan_built (ec_route (ep_config core)) plan"
  shows "plan \<noteq> []" "length plan \<le> 64"
    "48 + (length plan - 1) * 2 + kp_mtu (ep_kcp_params core) + 17 < effective_transport_mtu (rcf_min_mtu (ec_route (ep_config core)))"
proof -
  let ?config = "ep_config core" and ?g = "rcf_graph (ec_route (ep_config core))"
  have g: "graph_ordered ?g" "2 \<le> length (rg_nodes ?g)" "length (rg_nodes ?g) \<le> 65" "ec_padding_reserve ?config \<noteq> 0"
    "scheduled_packet_overhead ?config = Some (ep_scheduled_packet_overhead core)"
    "kp_mtu (ep_kcp_params core) + 17 + ep_scheduled_packet_overhead core = effective_transport_mtu (rcf_min_mtu (ec_route ?config))"
    using assms(1) by (simp_all add: config_fits_def Let_def)
  from scheduled_packet_overhead_spec [OF g(1)] obtain hops where
    h: "longest_from (rg_nodes ?g) 0 hops" "ep_scheduled_packet_overhead core = (48 + unat (ec_padding_reserve ?config) + usize_sub hops 1 * 2) mod 2 ^ 64"
    using g(5) by auto
  note len = plan_length [OF g(1) assms(2) h(1)]
  show "plan \<noteq> []" by (rule len(2) [OF g(2)])
  then have "1 \<le> length plan" by (simp add: Suc_leI)
  then have h1: "1 \<le> hops" using len(1) by simp
  from h(1) obtain path where "graph_path (rg_nodes ?g) 0 path" "length path = hops" by (auto simp: longest_from_def)
  with graph_path_short [OF g(1)] g(2) have "hops < length (rg_nodes ?g)" by fastforce
  then have h64: "hops \<le> 64" using g(3) by simp
  then show "length plan \<le> 64" using len(1) by simp
  have "unat (ec_padding_reserve ?config) < 256" using unsigned_less [of "ec_padding_reserve ?config", where 'a = nat] by simp
  moreover have "0 < unat (ec_padding_reserve ?config)" using g(4) by (simp add: unat_gt_0)
  ultimately have "ep_scheduled_packet_overhead core = 48 + unat (ec_padding_reserve ?config) + (hops - 1) * 2" "0 < unat (ec_padding_reserve ?config)"
    using h(2) h1 h64 by (simp_all add: usize_sub_def)
  then show "48 + (length plan - 1) * 2 + kp_mtu (ep_kcp_params core) + 17 < effective_transport_mtu (rcf_min_mtu (ec_route (ep_config core)))"
    using g(6) len(1) h1 by simp
qed

lemma take_bit_mask: "w \<le> SEQUENCE_MASK \<Longrightarrow> take_bit 48 w = w"
proof -
  assume "w \<le> SEQUENCE_MASK"
  then have "unat w \<le> unat SEQUENCE_MASK" by (simp add: word_le_nat_alt)
  also have "unat SEQUENCE_MASK = 2 ^ 48 - 1" by (simp add: SEQUENCE_MASK_def)
  finally have "unat w < 2 ^ 48" by simp
  then have "unat (take_bit 48 w) = unat w" by (simp add: unsigned_take_bit_eq take_bit_nat_eq_self_iff)
  then show "take_bit 48 w = w" by (simp add: word_unat_eq_iff)
qed

lemma emit_envelope_ok:
  assumes fits: "config_fits core" and aead: "aead_correct cr" and plan: "plan_built (ec_route (ep_config core)) plan"
    and body: "length body \<le> kp_mtu (ep_kcp_params core) + 17"
    and stamp: "take_bit 26 (es_time stamp) = es_time stamp" "es_seq_id stamp \<le> SEQUENCE_MASK" "es_seq_no stamp \<le> SEQUENCE_MASK"
  shows "\<exists>core' bs pad. emit_envelope cr core t stamp body sample plan actions = Some (core', actions @ [SendTransportPacket (hd plan) bs]) \<and>
    length bs \<le> effective_transport_mtu (rcf_min_mtu (ec_route (ep_config core))) \<and>
    decode_transport_packet cr (ec_envelope_key (ep_config core)) bs = Some (Inr (planned_envelope stamp plan body pad))"
proof -
  let ?mtu = "effective_transport_mtu (rcf_min_mtu (ec_route (ep_config core)))"
  note room = plan_room [OF fits plan]
  obtain ch rest where p: "plan = ch # rest" using room(1) by (cases plan) auto
  obtain r random1 where r: "random_u64 cr (ep_random core) = (r, random1)" by fastforce
  define used where "used = 48 + length rest * 2 + length body"
  have used: "used < ?mtu" using room(3) body p by (simp add: used_def)
  define available where "available = min (?mtu - used) 255"
  have a: "0 < available" "available \<le> 255" using used by (simp_all add: available_def)
  define pad where "pad = 1 + unat r mod available"
  have pad: "0 < pad" "pad \<le> available" "pad < 256" using a mod_less_divisor [OF a(1), of "unat r"] by (simp_all add: pad_def Suc_leI)
  let ?e = "planned_envelope stamp plan body (word_of_nat pad)"
  have upad: "unat (word_of_nat pad :: u8) = pad" using pad by (simp add: unat_of_nat)
  have wf: "envelope_wf ?e"
    using stamp room(2) p pad upad take_bit_mask by (auto simp: envelope_wf_def planned_envelope_def)
  have size: "packet_size ?e = used + pad"
    using upad p by (simp add: packet_size_def length_envelope_encode planned_envelope_def used_def)
  have fit: "packet_size ?e \<le> ?mtu" using size pad used by (simp add: available_def)
  then have "packet_size ?e \<le> MAX_TRANSPORT_PACKET_SIZE" using effective_transport_mtu_le order_trans by blast
  obtain bs random2 where e: "encode_transport_packet cr (ec_envelope_key (ep_config core)) random1 ?e = (bs, random2)" by fastforce
  have d: "decode_transport_packet cr (ec_envelope_key (ep_config core)) bs = Some (Inr ?e)" "length bs = packet_size ?e"
    using decode_encode_transport_packet [OF aead wf] length_encode_transport_packet [OF aead] e
      \<open>packet_size ?e \<le> MAX_TRANSPORT_PACKET_SIZE\<close> by (metis fst_conv)+
  have gap: "(ucast (rcf_feedback_interval_ms (ec_route (ep_config core))) :: u64) \<noteq> 0"
  proof -
    let ?gap = "rcf_feedback_interval_ms (ec_route (ep_config core))"
    have "?gap \<noteq> 0" using fits by (simp add: config_fits_def Let_def)
    moreover have "unat (ucast ?gap :: u64) = unat ?gap"
      using unsigned_less [of ?gap, where 'a = nat] by (simp add: unsigned_ucast_eq take_bit_nat_eq_self_iff)
    ultimately show ?thesis by (metis unat_eq_zero)
  qed
  have "\<exists>core'. (if sample then note_sample cr (count_sent core t random2) t stamp plan else Some (count_sent core t random2)) = Some core'"
    using gap by (auto simp: note_sample_def Let_def count_sent_acts(2) split: prod.splits)
  then obtain core' where core': "(if sample then note_sample cr (count_sent core t random2) t stamp plan else Some (count_sent core t random2)) = Some core'" by blast
  have av: "min (usize_sub ?mtu used) 255 = available" using used by (simp add: usize_sub_def available_def)
  have "emit_envelope cr core t stamp body sample plan actions = Some (core', actions @ [SendTransportPacket (hd plan) bs])"
    using core' e r av a p unfolding emit_envelope_def used_def pad_def
    by (simp add: index_run_def Let_def)
  then show ?thesis using d fit by auto
qed

subsection \<open>Sending\<close>

lemma endpoint_time_take_bit: "endpoint_time core t = take_bit 26 (current_tick (ec_boot_time_ms (ep_config core)) t)"
  by (simp add: endpoint_time_def TIME_MASK_def take_bit_eq_mask mask_eq_exp_minus_1)

lemma send_endpoint_message_ok:
  assumes fits: "config_fits core" "ep_net_ok core" and aead: "aead_correct cr"
    and msg: "length (endpoint_message_encode_with_prefix msg 0) \<le> kp_mtu (ep_kcp_params core) + 1"
  shows "\<exists>core' new. send_endpoint_message cr core t msg sample actions = Some (core', actions @ new) \<and> sends_ok cr core msg new"
proof -
  obtain seq_id seq_no core1 where n: "next_sequence cr core = ((seq_id, seq_no), core1)" by (metis prod.collapse)
  have m: "r AND SEQUENCE_MASK \<le> SEQUENCE_MASK" for r by (simp add: word_and_le1)
  have seq: "seq_id \<le> SEQUENCE_MASK" "seq_no \<le> SEQUENCE_MASK"
    using n fits(2) m by (auto simp: next_sequence_def Let_def ep_net_ok_def split: if_splits prod.splits)
  have c1: "ep_keeps core core1" using next_sequence_acts [OF n] by (simp add: ep_same_def)
  then have st: "ep_static core1 = ep_static core" by (simp add: ep_keeps_def)
  then have f1: "config_fits core1" "ep_config core1 = ep_config core" "ep_kcp_params core1 = ep_kcp_params core"
    using fits(1) config_fits_static [OF st] by (simp_all add: ep_static_def)
  have n1: "ep_net_ok core1" using c1 fits(2) by (simp add: ep_keeps_def)
  define stamp where "stamp = \<lparr>es_time = endpoint_time core1 t, es_seq_id = seq_id, es_seq_no = seq_no\<rparr>"
  define body where "body = seal_endpoint_message cr core1 stamp msg"
  have body: "length body \<le> kp_mtu (ep_kcp_params core1) + 17" using msg length_seal [OF aead] by (simp add: body_def f1(3))
  have run: "send_endpoint_message cr core t msg sample actions = send_envelope cr core1 t stamp body sample actions"
    using n by (simp add: send_endpoint_message_def stamp_def body_def Let_def)
  have g: "graph_ordered (rcf_graph (ec_route (ep_config core1)))" using f1(1) by (simp add: config_fits_def Let_def)
  have pr: "planner_reach (ec_route (ep_config core1)) (ep_route_planner core1)" using n1 by (simp add: ep_net_ok_def)
  from build_route_plan_ok [OF planner_reach_static(1) [OF g pr], of t "length body + ep_scheduled_packet_overhead core1" sample]
  obtain plan planner where p: "build_route_plan (ep_route_planner core1) t (length body + ep_scheduled_packet_overhead core1) sample = Some (plan, planner)"
    by blast
  show ?thesis
  proof (cases plan)
    case None
    then show ?thesis using p run by (simp add: send_envelope_def sends_ok_def)
  next
    case (Some full_plan)
    let ?core = "core1\<lparr>ep_route_planner := planner\<rparr>"
    have built: "plan_built (ec_route (ep_config ?core)) full_plan" using p Some pr unfolding plan_built_def by auto blast
    have fits': "config_fits ?core" using f1(1) config_fits_static [of ?core core1] by (simp add: ep_static_def)
    have stamp: "take_bit 26 (es_time stamp) = es_time stamp" "es_seq_id stamp \<le> SEQUENCE_MASK" "es_seq_no stamp \<le> SEQUENCE_MASK"
      using seq endpoint_time_take_bit [of core1 t] by (simp_all add: stamp_def)
    from emit_envelope_ok [OF fits' aead built _ stamp, of body t sample actions] body obtain core' bs pad where
      e: "emit_envelope cr ?core t stamp body sample full_plan actions = Some (core', actions @ [SendTransportPacket (hd full_plan) bs])"
         "length bs \<le> effective_transport_mtu (rcf_min_mtu (ec_route (ep_config core)))"
         "decode_transport_packet cr (ec_envelope_key (ep_config core)) bs = Some (Inr (planned_envelope stamp full_plan body pad))"
      using f1(2) by auto
    have ne: "full_plan \<noteq> []" using plan_room(1) [OF fits' built] .
    have pe: "hd full_plan # env_route_plan (planned_envelope stamp full_plan body pad) = full_plan"
      "envelope_stamp (planned_envelope stamp full_plan body pad) = stamp" "env_payload (planned_envelope stamp full_plan body pad) = body"
      using ne by (cases full_plan; simp add: planned_envelope_def envelope_stamp_def)+
    have seal: "seal_endpoint_message cr core stamp msg = body" by (simp add: body_def seal_endpoint_message_def f1(2))
    have "sends_ok cr core msg [SendTransportPacket (hd full_plan) bs]"
      using e(2,3) built f1(2) pe seal unfolding sends_ok_def by fastforce
    moreover have "send_endpoint_message cr core t msg sample actions = Some (core', actions @ [SendTransportPacket (hd full_plan) bs])"
      using run p Some e(1) by (simp add: send_envelope_def)
    ultimately show ?thesis by blast
  qed
qed

lemma encode_message_length:
  "length (endpoint_message_encode_with_prefix (KcpPacket d packet) 0) = 1 + length packet"
  "length (endpoint_message_encode_with_prefix (KeepAlive d) 0) = 1"
  "length (endpoint_message_encode_with_prefix (RouteReply d i n) 0) = 13"
  by (simp_all add: encode_flags_body_def)

lemma core_ready_keeps: "core_ready cr core \<Longrightarrow> ep_keeps core core' \<Longrightarrow> core_ready cr core'"
  using config_fits_static [of core' core] by (simp add: core_ready_def ep_keeps_def)

lemma send_kcp_packets_total:
  assumes "core_ready cr core" "\<forall>p \<in> set packets. length p \<le> kp_mtu (ep_kcp_params core)"
  shows "\<exists>core' actions'. send_kcp_packets cr core t packets actions = Some (core', actions') \<and> ep_same core core'"
  using assms unfolding send_kcp_packets_def
proof (induction packets arbitrary: core actions)
  case (Cons packet packets)
  let ?sample = "feedback_due core t"
  let ?msg = "KcpPacket (if ?sample then 1 else 0) packet"
  have "length (endpoint_message_encode_with_prefix ?msg 0) \<le> kp_mtu (ep_kcp_params core) + 1"
    using Cons.prems(2) unfolding encode_message_length by simp
  with send_endpoint_message_ok [of core cr ?msg t ?sample actions] Cons.prems(1) obtain core1 new where
    c: "send_endpoint_message cr core t ?msg ?sample actions = Some (core1, actions @ new)" by (auto simp: core_ready_def)
  then have same: "ep_same core core1" using send_endpoint_message_same by (fastforce simp: ep_sends_def)
  then have r1: "core_ready cr core1" "ep_kcp_params core1 = ep_kcp_params core"
    using core_ready_keeps [OF Cons.prems(1)] by (simp_all add: ep_same_def ep_keeps_static)
  with Cons.IH [of core1 "actions @ new"] Cons.prems(2) obtain core' actions' where
    "fold_run (send_kcp_packet cr t) packets (core1, actions @ new) = Some (core', actions')" "ep_same core1 core'" by auto
  moreover have "send_kcp_packet cr t packet (core, actions) = Some (core1, actions @ new)" using c by (simp add: send_kcp_packet_def Let_def)
  ultimately show ?case using ep_same_trans [OF same] by auto
qed simp

lemma finish_closed_session_total:
  assumes "\<forall>s. session_map core c = Some s \<longrightarrow> ss_phase s = ClosingLocal \<longrightarrow> ss_pending_close s \<noteq> None"
  shows "\<exists>core' actions'. finish_closed_session core t c actions = Some (core', actions') \<and>
    (\<forall>s. session_map core c = Some s \<longrightarrow> \<not> session_done s t \<longrightarrow> session_map core' c = Some s)"
proof (cases "session_map core c")
  case (Some s)
  with assms have "ss_phase s = ClosingLocal \<longrightarrow> ss_pending_close s \<noteq> None" by simp
  then show ?thesis using Some by (auto simp: finish_closed_session_def session_map_def Let_def)
qed (simp add: finish_closed_session_def session_map_def)

lemma config_fits_params:
  assumes "config_fits core"
  shows "1 \<le> ep_window core" "2 \<le> usize_sub (kp_mtu (ep_kcp_params core)) KCP_OVERHEAD" "28 \<le> kp_mtu (ep_kcp_params core)"
    "2 \<le> unat (kp_receive_window (ep_kcp_params core))"
  using assms by (auto simp: config_fits_def Let_def usize_sub_def)

lemma core_good_path:
  assumes "core_good cr core" "ep_path core es core'"
  shows "core_good cr core'"
proof -
  from assms(2) have p: "ep_static core' = ep_static core" "ep_net_ok core \<longrightarrow> ep_net_ok core'"
    "session_path (ep_kcp_params core) (ep_window core) (session_map core) es (session_map core')" by (simp_all add: ep_path_def)
  have "config_fits core" using assms(1) by (simp add: core_good_def core_ready_def)
  note c = config_fits_params [OF this]
  have "sessions_ok (ep_kcp_params core) (ep_window core) (session_map core')"
    using session_path_ok [OF p(3) _ c(1,2)] assms(1) by (simp add: core_good_def)
  moreover have "sessions_fit (session_map core')" using session_path_fit [OF p(3) _ c(3)] assms(1) by (simp add: core_good_def)
  moreover have "ep_kcp_params core' = ep_kcp_params core" "ep_window core' = ep_window core" using p(1) by (simp_all add: ep_static_def ep_window_def)
  ultimately show ?thesis using assms(1) p(2) config_fits_static [OF p(1)] by (simp add: core_good_def core_ready_def)
qed

lemma core_good_acts: "core_good cr core \<Longrightarrow> ep_acts (core, actions) (core', actions') \<Longrightarrow> core_good cr core'"
  using core_good_path acts_then_path by blast

lemma core_good_session:
  assumes "core_good cr core" "session_map core c = Some s"
  shows "session_ok (ep_kcp_params core) (ep_window core) c s" "kcp_fit (ss_kcp s)"
    "kc_mtu (ss_kcp s) = kp_mtu (ep_kcp_params core)" "rcv_wnd (ss_kcp s) = kp_receive_window (ep_kcp_params core)"
    "kc_mss (ss_kcp s) = usize_sub (kp_mtu (ep_kcp_params core)) KCP_OVERHEAD"
proof -
  show ok: "session_ok (ep_kcp_params core) (ep_window core) c s" and "kcp_fit (ss_kcp s)"
    using assms by (simp_all add: core_good_def sessions_ok_def sessions_fit_def)
  then have f: "fixed_side (ss_kcp s) = fixed_side (kcp_new c (ep_kcp_params core))" by (simp add: session_ok_def)
  then show "kc_mtu (ss_kcp s) = kp_mtu (ep_kcp_params core)" "rcv_wnd (ss_kcp s) = kp_receive_window (ep_kcp_params core)"
    by (simp_all add: fixed_side_def kcp_new_def Let_def)
  show "kc_mss (ss_kcp s) = usize_sub (kp_mtu (ep_kcp_params core)) KCP_OVERHEAD" by (rule fixed_mss [OF f])
qed

lemma send_session_message_total:
  assumes ready: "core_ready cr core" and s: "session_map core c = Some s" "kcp_fit (ss_kcp s)" "kc_mtu (ss_kcp s) = kp_mtu (ep_kcp_params core)"
    and n: "fragment_count (kc_mss (ss_kcp s)) (length (session_message_encode msg)) = Some n" "n < unat (rcv_wnd (ss_kcp s))" "n < 256"
    and close: "ss_phase s = ClosingLocal \<longrightarrow> ss_pending_close s \<noteq> None"
  shows "\<exists>core' actions' k. send_session_message cr core t c msg actions = Some (core', actions') \<and> wait_snd k = wait_snd (ss_kcp s) + n \<and>
    (\<not> session_done (s\<lparr>ss_kcp := k\<rparr>) t \<longrightarrow> session_map core' c = Some (s\<lparr>ss_kcp := k\<rparr>))"
proof -
  from session_send_message_total [OF s(2) n, of t] obtain out k where
    k: "session_send_message s t msg = Some (out, s\<lparr>ss_kcp := k\<rparr>)" "wait_snd k = wait_snd (ss_kcp s) + n"
       "\<forall>p \<in> set out. length p \<le> kp_mtu (ep_kcp_params core)" using s(3) by auto
  let ?core = "set_session c (s\<lparr>ss_kcp := k\<rparr>) core"
  have "core_ready cr ?core" using core_ready_keeps [OF ready] by simp
  from send_kcp_packets_total [OF this, of out t actions] k(3) obtain core1 actions1 where
    c1: "send_kcp_packets cr ?core t out actions = Some (core1, actions1)" "ep_same ?core core1" by auto
  have m: "session_map core1 c = Some (s\<lparr>ss_kcp := k\<rparr>)" using c1(2) by (simp add: ep_same_def)
  then have "\<forall>s. session_map core1 c = Some s \<longrightarrow> ss_phase s = ClosingLocal \<longrightarrow> ss_pending_close s \<noteq> None" using close by simp
  from finish_closed_session_total [OF this, of t actions1] m obtain core' actions' where
    "finish_closed_session core1 t c actions1 = Some (core', actions')" "\<not> session_done (s\<lparr>ss_kcp := k\<rparr>) t \<longrightarrow> session_map core' c = Some (s\<lparr>ss_kcp := k\<rparr>)"
    by auto
  moreover have "map_of (ep_sessions core) c = Some s" using s(1) by (simp add: session_map_def)
  ultimately show ?thesis using k(1,2) c1(1) by (auto simp: send_session_message_def)
qed

lemma queue_local_close_total:
  assumes good: "core_good cr core"
  shows "\<exists>core' actions'. queue_local_close cr core t c actions = Some (core', actions') \<and>
    (session_map core c \<noteq> None \<longrightarrow> session_map core' c \<noteq> None)"
proof (cases "session_map core c")
  case None
  then show ?thesis by (simp add: queue_local_close_def session_map_def)
next
  case (Some s)
  note S = core_good_session [OF good Some]
  have m: "map_of (ep_sessions core) c = Some s" using Some by (simp add: session_map_def)
  show ?thesis
  proof (cases "ss_phase s \<noteq> ClosingLocal \<or> ss_close_queued s")
    case True
    then show ?thesis using m Some by (auto simp: queue_local_close_def)
  next
    case False
    then obtain d r where d: "ss_close_deadline_at s = Some d" "ss_pending_close s = Some r" using S(1) by (auto simp: session_ok_def)
    show ?thesis
    proof (cases "d \<le> t \<or> ep_window core \<le> wait_snd (ss_kcp s)")
      case True
      then show ?thesis using m Some d False by (auto simp: queue_local_close_def ep_window_def)
    next
      case open_window: False
      let ?s = "s\<lparr>ss_close_queued := True\<rparr>"
      have fits: "config_fits core" "core_ready cr core" using good by (simp_all add: core_good_def core_ready_def)
      note P = config_fits_params [OF fits(1)]
      have ready: "core_ready cr (set_session c ?s core)" using core_ready_keeps [OF fits(2)] by simp
      obtain n where n: "fragment_count (kc_mss (ss_kcp s)) 2 = Some n" using P(2) S(5) by (simp add: fragment_count_def)
      then have n1: "n = 1" using fragment_count_two P(2) S(5) by simp
      have "\<exists>core' actions' k. send_session_message cr (set_session c ?s core) t c (SessionMessage_Close r) actions = Some (core', actions') \<and>
          wait_snd k = wait_snd (ss_kcp ?s) + n \<and> (\<not> session_done (?s\<lparr>ss_kcp := k\<rparr>) t \<longrightarrow> session_map core' c = Some (?s\<lparr>ss_kcp := k\<rparr>))"
        by (rule send_session_message_total [OF ready]) (use S P n n1 d in \<open>simp_all add: numeral_2_eq_2\<close>)
      then obtain core' actions' k where k: "send_session_message cr (set_session c ?s core) t c (SessionMessage_Close r) actions = Some (core', actions')"
        "wait_snd k = wait_snd (ss_kcp s) + 1" "\<not> session_done (?s\<lparr>ss_kcp := k\<rparr>) t \<longrightarrow> session_map core' c = Some (?s\<lparr>ss_kcp := k\<rparr>)"
        using n1 by auto
      have "\<not> session_done (?s\<lparr>ss_kcp := k\<rparr>) t" using False d open_window k(2) by (simp add: session_done_def deadline_hit_def)
      then show ?thesis using k m False d open_window by (auto simp: queue_local_close_def ep_window_def)
    qed
  qed
qed

lemma poll_session_total:
  assumes good: "core_good cr core" and "session_map core c \<noteq> None"
  shows "\<exists>st'. poll_session cr t c (core, actions) = Some st'"
proof -
  from queue_local_close_total [OF good, of t c actions] assms(2) obtain core1 actions1 s where
    q: "queue_local_close cr core t c actions = Some (core1, actions1)" "session_map core1 c = Some s" by auto
  have good1: "core_good cr core1" by (rule core_good_acts [OF good queue_local_close_acts [OF q(1)]])
  note S = core_good_session [OF good1 q(2)]
  from session_poll_total [OF S(2), of t] obtain out k where
    k: "session_poll s t = Some (out, s\<lparr>ss_kcp := k\<rparr>)" "\<forall>p \<in> set out. length p \<le> kp_mtu (ep_kcp_params core1)" using S(3) by auto
  let ?core = "set_session c (s\<lparr>ss_kcp := k\<rparr>) core1"
  have "core_ready cr ?core" using core_ready_keeps [of cr core1 ?core] good1 by (simp add: core_good_def)
  from send_kcp_packets_total [OF this, of out t actions1] k(2) obtain core2 actions2 where
    c2: "send_kcp_packets cr ?core t out actions1 = Some (core2, actions2)" "ep_same ?core core2" by auto
  have "\<forall>s. session_map core2 c = Some s \<longrightarrow> ss_phase s = ClosingLocal \<longrightarrow> ss_pending_close s \<noteq> None"
    using c2(2) S(1) by (auto simp: ep_same_def session_ok_def)
  from finish_closed_session_total [OF this, of t actions2] obtain st' where "finish_closed_session core2 t c actions2 = Some st'" by auto
  moreover have "map_of (ep_sessions core1) c = Some s" using q(2) by (simp add: session_map_def)
  ultimately show ?thesis using q(1) k(1) c2(1) by (auto simp: poll_session_def)
qed

subsection \<open>Timers and requests\<close>

lemma expire_feedback_total:
  assumes "core_good cr core"
  shows "\<exists>core'. expire_feedback core t = Some core'"
proof -
  let ?route = "ec_route (ep_config core)"
  have g: "graph_ordered (rcf_graph ?route)" "channels_distinct (planner_nodes (planner_new ?route))"
    and n: "planner_reach ?route (ep_route_planner core)" "\<forall>(i, sample) \<in> set (ep_outstanding core). plan_built ?route (fs_route_plan sample)"
    using assms by (auto simp: core_good_def core_ready_def config_fits_def ep_net_ok_def Let_def)
  have "\<exists>q'. fold_run (expire_sample t) (ep_outstanding core) (ep_route_planner core) = Some q' \<and> planner_reach ?route q'"
    using n(1)
  proof (rule fold_run_total)
    fix x q assume x: "x \<in> set (ep_outstanding core)" and q: "planner_reach ?route q"
    obtain i sample where p: "x = (i, sample)" by fastforce
    then obtain q' where "note_feedback q (fs_route_plan sample) (fs_sent_at sample) False = Some q'"
      using plan_built_feedback [OF g _ q] n(2) x by fastforce
    then show "\<exists>q'. expire_sample t x q = Some q' \<and> planner_reach ?route q'"
      using p q planner_feedback [OF q] by (auto simp: expire_sample_def)
  qed
  then show ?thesis by (auto simp: expire_feedback_def)
qed

lemma reset_sessions_total:
  assumes "distinct cs" "\<forall>c \<in> set cs. session_map (fst st) c \<noteq> None"
  shows "\<exists>st'. fold_run (reset_session t) cs st = Some st'"
  using assms
proof (induction cs arbitrary: st)
  case (Cons c cs)
  obtain core actions where st: "st = (core, actions)" by fastforce
  from Cons.prems obtain s where s: "session_map core c = Some s" by (auto simp: st)
  then obtain actions' where r: "reset_session t c st = Some (bury_session c t (drop_session c core), actions')"
    by (simp add: st reset_session_def session_map_def)
  have "\<forall>d \<in> set cs. session_map (fst (bury_session c t (drop_session c core), actions')) d \<noteq> None"
    using Cons.prems by (auto simp: st)
  with Cons.IH Cons.prems(1) r show ?case by fastforce
qed simp

lemma expire_sequences_total:
  assumes "core_good cr core"
  shows "\<exists>st'. expire_sequences h core t actions = Some st'"
proof -
  obtain ids f where r: "remove_expired h (ep_sequence_filter core) (endpoint_time core t) SEQUENCE_SOFT_CAP = (ids, f)" by fastforce
  have "\<exists>st'. fold_run (expire_sequence t) ids (core\<lparr>ep_sequence_filter := f\<rparr>, actions) = Some st' \<and> bt_ordered (ep_sessions (fst st'))"
  proof (rule fold_run_total)
    show "bt_ordered (ep_sessions (fst (core\<lparr>ep_sequence_filter := f\<rparr>, actions)))"
      using assms by (simp add: core_good_def core_ready_def ep_net_ok_def)
    fix q :: u64 and st :: ep_state assume ord: "bt_ordered (ep_sessions (fst st))"
    let ?cs = "map fst (filter (\<lambda>(_, s). ss_peer_seq s = Some q) (ep_sessions (fst st)))"
    have "distinct (map fst (ep_sessions (fst st)))" using bt.distinct_keys [OF ord] by (simp add: bt_keys_def)
    then have "distinct ?cs" by (rule distinct_map_filter)
    moreover have "\<forall>c \<in> set ?cs. session_map (fst st) c \<noteq> None" by (auto simp: session_map_def dest: weak_map_of_SomeI)
    ultimately obtain st1 where s1: "expire_sequence t q st = Some st1"
      using reset_sessions_total [of ?cs st t] unfolding expire_sequence_def by blast
    moreover have "bt_ordered (ep_sessions (fst st1))" using s1 ord unfolding expire_sequence_def
    proof (rule fold_run_inv [where I = "\<lambda>st. bt_ordered (ep_sessions (fst st))"])
      show "bt_ordered (ep_sessions (fst st2))" if "bt_ordered (ep_sessions (fst st1))" "reset_session t c st1 = Some st2" for c st1 st2
        using that by (auto simp: reset_session_def drop_session_def bury_session_def bt.ordered_remove split: Option.bind_splits prod.splits)
    qed
    ultimately show "\<exists>st'. expire_sequence t q st = Some st' \<and> bt_ordered (ep_sessions (fst st'))" by blast
  qed
  then show ?thesis unfolding expire_sequences_def r by auto
qed

lemma poll_sessions_total:
  assumes "core_good cr (fst st)" "distinct cs" "\<forall>c \<in> set cs. session_map (fst st) c \<noteq> None"
  shows "\<exists>st'. fold_run (poll_session cr t) cs st = Some st'"
  using assms
proof (induction cs arbitrary: st)
  case (Cons c cs)
  obtain core actions where st: "st = (core, actions)" by fastforce
  with poll_session_total [of cr core c t actions] Cons.prems obtain st1 where s1: "poll_session cr t c st = Some st1" by auto
  have "core_good cr (fst st1)" using core_good_acts [of cr core actions "fst st1" "snd st1"] poll_session_acts [OF s1] Cons.prems(1) st by simp
  moreover have "\<forall>d \<in> set cs. session_map (fst st1) d \<noteq> None"
    using poll_session_done [OF s1] Cons.prems by (auto simp: only_at_def)
  ultimately show ?case using Cons.IH [of st1] Cons.prems(2) s1 by auto
qed simp

lemma poll_keepalive_total:
  assumes "core_ready cr core"
  shows "\<exists>st'. poll_keepalive cr core t actions = Some st'"
proof -
  let ?sample = "feedback_due core t"
  obtain core' new where "send_endpoint_message cr core t (KeepAlive (if ?sample then 1 else 0)) ?sample actions = Some (core', actions @ new)"
    using send_endpoint_message_ok [of core cr "KeepAlive (if ?sample then 1 else 0)" t ?sample actions] assms
    unfolding core_ready_def encode_message_length by auto
  then show ?thesis by (auto simp: poll_keepalive_def Let_def)
qed

lemma endpoint_poll_total:
  assumes good: "core_good cr core"
  shows "\<exists>st'. endpoint_poll cr h core t actions = Some st'"
proof -
  obtain core1 where c1: "expire_feedback core t = Some core1" using expire_feedback_total [OF good] by blast
  have good1: "core_good cr core1" using core_good_acts [OF good ep_acts_quiet [OF expire_feedback_frame [OF c1]]] .
  obtain core2 actions2 where c2: "expire_sequences h core1 t actions = Some (core2, actions2)" using expire_sequences_total [OF good1] by fast
  define f where "f = snd (remove_expired h (ep_sequence_filter core1) (endpoint_time core1 t) SEQUENCE_SOFT_CAP)"
  have "core_good cr (core1\<lparr>ep_sequence_filter := f\<rparr>)"
    using good1 by (simp add: core_good_def core_ready_def config_fits_def session_map_def ep_window_def)
  from core_good_acts [OF this expire_sequences_acts [OF c2, folded f_def]] have good2: "core_good cr core2" .
  define core3 where "core3 = core2\<lparr>ep_tombstones := filter (\<lambda>(_, expire_at). t < expire_at) (ep_tombstones core2)\<rparr>"
  have good3: "core_good cr core3" using core_good_acts [OF good2 ep_acts_quiet [OF ep_same_frame(4)]] by (simp add: core3_def)
  have "bt_ordered (ep_sessions core3)" using good3 by (simp add: core_good_def core_ready_def ep_net_ok_def)
  then have "distinct (bt_keys (ep_sessions core3))" by (rule bt.distinct_keys)
  moreover have "\<forall>c \<in> set (bt_keys (ep_sessions core3)). session_map core3 c \<noteq> None" by (simp add: bt.keys_get session_map_def)
  ultimately obtain core4 actions4 where c4: "fold_run (poll_session cr t) (bt_keys (ep_sessions core3)) (core3, actions2) = Some (core4, actions4)"
    using poll_sessions_total [of cr "(core3, actions2)" _ t] good3 by fastforce
  have "core_good cr core4" using core_good_acts [OF good3 fold_run_acts [OF c4 poll_session_acts]] .
  then obtain st' where "poll_keepalive cr core4 t actions4 = Some st'" using poll_keepalive_total unfolding core_good_def by blast
  then show ?thesis using c1 c2 c4 by (simp add: endpoint_poll_def core3_def Let_def)
qed

lemma session_open_total:
  assumes good: "core_good cr core"
  shows "\<exists>st'. session_open cr core t actions = Some st'"
proof -
  let ?c = "ep_next_conv_id core" and ?s = "session_new (ep_next_conv_id core) (ep_kcp_params core) Open"
  let ?core = "set_session ?c ?s (core\<lparr>ep_next_conv_id := ?c + 1\<rparr>)"
  have fits: "config_fits core" "core_ready cr core" using good by (simp_all add: core_good_def core_ready_def)
  note P = config_fits_params [OF fits(1)]
  have "ep_keeps core ?core" using ep_same_frame(6) [of core "?c + 1"] by (simp add: ep_same_def)
  then have ready: "core_ready cr ?core" by (rule core_ready_keeps [OF fits(2)])
  have k: "kc_mss (ss_kcp ?s) = usize_sub (kp_mtu (ep_kcp_params core)) KCP_OVERHEAD" "rcv_wnd (ss_kcp ?s) = kp_receive_window (ep_kcp_params core)"
    "kc_mtu (ss_kcp ?s) = kp_mtu (ep_kcp_params core)"
    using fixed_mss [of "ss_kcp ?s" ?c "ep_kcp_params core"] by (simp_all add: session_new_def) (simp_all add: kcp_new_def Let_def)
  then obtain n where n: "fragment_count (kc_mss (ss_kcp ?s)) 1 = Some n" using P(2) by (simp add: fragment_count_def)
  have "\<exists>core' actions' k. send_session_message cr ?core t ?c SessionMessage_Open actions = Some (core', actions') \<and> wait_snd k = wait_snd (ss_kcp ?s) + n \<and>
    (\<not> session_done (?s\<lparr>ss_kcp := k\<rparr>) t \<longrightarrow> session_map core' ?c = Some (?s\<lparr>ss_kcp := k\<rparr>))"
    by (rule send_session_message_total [OF ready]) (use k n fragment_count_one [OF n] P session_new_fit in \<open>simp_all add: session_new_def\<close>)
  then show ?thesis by (auto simp: session_open_def Let_def)
qed

lemma session_close_total:
  assumes good: "core_good cr core" and "session_map core c = Some s"
  shows "\<exists>st'. session_close cr core t c r actions = Some st'"
proof -
  let ?s = "s\<lparr>ss_phase := ClosingLocal, ss_close_deadline_at := Some (t + ep_close_deadline_ms core), ss_pending_close := Some r\<rparr>"
  have "session_step (ep_kcp_params core) (ep_window core) (session_map core) [Asked_close c r] (session_map (set_session c ?s core))"
    using assms(2) by (auto intro: st_close)
  then have "ep_path core [Asked_close c r] (set_session c ?s core)" using path_one by (auto simp: ep_path_def)
  then have "core_good cr (set_session c ?s core)" by (rule core_good_path [OF good])
  from queue_local_close_total [OF this, of t c actions] obtain core' actions' where
    "queue_local_close cr (set_session c ?s core) t c actions = Some (core', actions')" by blast
  then show ?thesis using assms(2) by (auto simp: session_close_def session_map_def Let_def)
qed

lemma session_write_total:
  assumes good: "core_good cr core" and s: "session_map core c = Some s"
    and n: "fragment_count (usize_sub (kp_mtu (ep_kcp_params core)) KCP_OVERHEAD) (1 + length bs) = Some n"
      "n < unat (kp_receive_window (ep_kcp_params core))" "n < 256"
  shows "\<exists>st'. session_write cr core t c bs actions = Some st'"
proof -
  note S = core_good_session [OF good s]
  have fits: "config_fits core" "core_ready cr core" using good by (simp_all add: core_good_def core_ready_def)
  note P = config_fits_params [OF fits(1)]
  have "\<exists>core' actions' k. send_session_message cr core t c (SessionMessage_Data bs) actions = Some (core', actions') \<and> wait_snd k = wait_snd (ss_kcp s) + n \<and>
    (\<not> session_done (s\<lparr>ss_kcp := k\<rparr>) t \<longrightarrow> session_map core' c = Some (s\<lparr>ss_kcp := k\<rparr>))"
    by (rule send_session_message_total [OF fits(2) s]) (use S n in \<open>simp_all add: session_ok_def\<close>)
  then obtain core' actions' where "send_session_message cr core t c (SessionMessage_Data bs) actions = Some (core', actions')" by blast
  moreover have "map_of (ep_sessions core) c = Some s" using s by (simp add: session_map_def)
  ultimately show ?thesis using P(2) by (simp add: session_write_def Let_def)
qed

subsection \<open>Sound configurations\<close>

lemma unat_ge_2: "w \<noteq> (0 :: 'a::len word) \<Longrightarrow> w \<noteq> 1 \<Longrightarrow> 2 \<le> unat w"
proof -
  assume "w \<noteq> 0" "w \<noteq> 1"
  then have "unat w \<noteq> 0" "unat w \<noteq> 1" by (simp add: unat_0_iff, metis unsigned_1 unsigned_word_eqI)
  then show ?thesis by linarith
qed

lemma endpoint_new_good:
  assumes "aead_correct cr" "config_ok config"
  shows "\<exists>core. endpoint_new cr config = Some core \<and> core_good cr core"
proof -
  let ?config = "config\<lparr>ec_kcp := kcp_defaults (ec_kcp config)\<rparr>" and ?mtu = "effective_transport_mtu (rcf_min_mtu (ec_route config))"
  from assms(2) obtain overhead where o: "scheduled_packet_overhead config = Some overhead" "overhead + 47 \<le> ?mtu"
    by (auto simp: config_ok_def Let_def split: option.splits)
  have "scheduled_packet_overhead ?config = scheduled_packet_overhead config" by (simp add: scheduled_packet_overhead_def Let_def)
  then have o': "scheduled_packet_overhead ?config = Some overhead" using o(1) by simp
  have "endpoint_new cr config \<noteq> None" using o' by (simp add: endpoint_new_def Let_def split: prod.splits)
  then obtain core where core: "endpoint_new cr config = Some core" by blast
  note start = endpoint_new_start [OF core]
  from core o' have c: "ep_scheduled_packet_overhead core = overhead"
    "kp_mtu (ep_kcp_params core) = usize_sub (usize_sub ?mtu overhead) 17"
    "kp_receive_window (ep_kcp_params core) = kcf_receive_window (kcp_defaults (ec_kcp config))"
    by (auto simp: endpoint_new_def Let_def split: prod.splits)
  have mtu: "kp_mtu (ep_kcp_params core) + 17 + overhead = ?mtu" "30 \<le> kp_mtu (ep_kcp_params core)"
  proof -
    have "overhead \<le> ?mtu" "17 \<le> ?mtu - overhead" using o(2) by simp_all
    then have "kp_mtu (ep_kcp_params core) = ?mtu - overhead - 17" unfolding c(2) usize_sub_def by simp
    then show "kp_mtu (ep_kcp_params core) + 17 + overhead = ?mtu" "30 \<le> kp_mtu (ep_kcp_params core)" using o(2) by linarith+
  qed
  have "kcf_receive_window (kcp_defaults (ec_kcp config)) \<noteq> 0" "kcf_receive_window (kcp_defaults (ec_kcp config)) \<noteq> 1"
    using assms(2) unfolding config_ok_def Let_def by (simp_all add: kcp_defaults_def kcp_config_default_def)
  then have "2 \<le> unat (kp_receive_window (ep_kcp_params core))" unfolding c(3) by (rule unat_ge_2)
  then have "config_fits core"
    using assms(2) mtu c(1) o' start(4,5) unfolding config_fits_def config_ok_def Let_def by simp
  then show ?thesis using core start(1,6) assms(1) by (simp add: core_good_def core_ready_def sessions_ok_def sessions_fit_def)
qed

lemma endpoint_run_good:
  assumes "aead_correct cr" "config_ok config" "endpoint_new cr config = Some core0" "endpoint_run cr xs core0 = Some (core, es)"
  shows "core_good cr core" "ep_static core = ep_static core0"
  using endpoint_new_good [OF assms(1,2)] core_good_path endpoint_run_path [OF assms(4)] assms(3) by (auto simp: ep_path_def)

lemma endpoint_poll_good:
  assumes "core_good cr core" "endpoint_poll cr hash_iter core t actions = Some (core', actions')"
  shows "core_good cr core'"
proof -
  from acts_then_path [OF endpoint_poll_acts [OF assms(2)]] obtain new where "ep_path core (map Did new) core'"
    by (auto simp: ep_path_def ep_static_def session_map_def ep_window_def)
  then show ?thesis by (rule core_good_path [OF assms(1)])
qed

lemma write_count:
  assumes "fragment_count mss (1 + length bs) = Some n"
  shows "0 < mss" "n = (if (1 + length bs) mod mss \<noteq> 0 then (1 + length bs) div mss + 1 else (1 + length bs) div mss)"
proof -
  show p: "0 < mss" using assms by (simp add: fragment_count_def split: if_splits)
  show "n = (if (1 + length bs) mod mss \<noteq> 0 then (1 + length bs) div mss + 1 else (1 + length bs) div mss)"
    using fragment_count_pos [OF _ p, of "1 + length bs"] assms by simp
qed

lemma session_write_panics:
  assumes good: "core_good cr core" and s: "session_map core c = Some s" "wait_snd (ss_kcp s) + n \<le> ep_window core"
    and n: "fragment_count (usize_sub (kp_mtu (ep_kcp_params core)) KCP_OVERHEAD) (1 + length bs) = Some n"
      "unat (kp_receive_window (ep_kcp_params core)) \<le> n \<or> 256 \<le> n"
  shows "session_write cr core t c bs actions = None"
proof -
  note S = core_good_session [OF good s(1)]
  let ?mss = "usize_sub (kp_mtu (ep_kcp_params core)) KCP_OVERHEAD"
  note p = write_count(1) [OF n(1)] and m = write_count(2) [OF n(1)]
  have "kcp_send (ss_kcp s) (session_message_encode (SessionMessage_Data bs)) = Some (Inl UserBufTooBig, ss_kcp s)"
    using S(4,5) n by (simp add: kcp_send_def)
  then have "session_send_message s t (SessionMessage_Data bs) = None" by (simp add: session_send_message_def unwrap_def)
  moreover have "map_of (ep_sessions core) c = Some s" using s(1) by (simp add: session_map_def)
  ultimately have "send_session_message cr core t c (SessionMessage_Data bs) actions = None" by (simp add: send_session_message_def)
  moreover have "\<not> ep_window core < wait_snd (ss_kcp s) + n" using s(2) by simp
  ultimately show ?thesis using \<open>map_of (ep_sessions core) c = Some s\<close> p unfolding session_write_def Let_def m ep_window_def by simp
qed

lemma session_write_blocks:
  assumes "session_map core c = Some s" "ep_window core < wait_snd (ss_kcp s) + n"
    and n: "fragment_count (usize_sub (kp_mtu (ep_kcp_params core)) KCP_OVERHEAD) (1 + length bs) = Some n"
  shows "session_write cr core t c bs actions = Some (core, actions, SessionWriteBlocked)"
proof -
  let ?mss = "usize_sub (kp_mtu (ep_kcp_params core)) KCP_OVERHEAD"
  note p = write_count(1) [OF n(1)] and m = write_count(2) [OF n(1)]
  show ?thesis using assms(1,2) p unfolding session_write_def Let_def m ep_window_def by (simp add: session_map_def)
qed

lemma session_write_accepts:
  assumes "session_map core c = Some s" "wait_snd (ss_kcp s) + n \<le> ep_window core"
    and n: "fragment_count (usize_sub (kp_mtu (ep_kcp_params core)) KCP_OVERHEAD) (1 + length bs) = Some n"
    and "session_write cr core t c bs actions = Some (core', actions', r)"
  shows "r = EventNone"
proof -
  let ?mss = "usize_sub (kp_mtu (ep_kcp_params core)) KCP_OVERHEAD"
  note m = write_count [OF n(1)]
  have "\<not> ep_window core < wait_snd (ss_kcp s) + n" using assms(2) by simp
  then show ?thesis using assms(1,4) m(1) unfolding session_write_def Let_def m(2) ep_window_def
    by (auto simp: session_map_def split: Option.bind_splits)
qed

end
