(* ===== verification/Test_Shell_Correct.thy ===== *)
theory Test_Shell_Correct
  imports Test_Shell Endpoint_Safe
begin

section \<open>Invariants of the simulated network\<close>

text \<open>
  The locale \<open>shell_invariant\<close> states what a predicate on the shell must keep under the elementary
  steps (a core event or poll of one node, the shell's own bookkeeping, one packet sent or taken,
  the clock, set-up operations); inside it the predicate is shown to hold after every sequence of
  operations.  It is interpreted three times: every node's core is reachable (\<open>sn\<close>), packets are
  conserved (\<open>sc\<close>), every endpoint has a sane route graph (\<open>sr\<close>).

  The rest shows that carrying out actions ends.  The pending work is ordered by the number of writes to
  sessions, then the number of free first-hop channels over all endpoints, then the number of pending
  packets for channels that are cooling down, then its length (\<open>work_order\<close>): a failed send makes a
  free channel cool down, or moves a packet from a cooling channel to a free one.
\<close>

subsection \<open>Definitions\<close>

datatype sim_op = Add_endpoint SimNodeId EndpointConfig bool | Add_relay SimNodeId RelayConfig | Restart_node SimNodeId | Add_link SimLink
  | Drop_queued SimNodeId ChannelId | Replay_last SimNodeId ChannelId
  | Open_session SimNodeId | Send_bytes SimNodeId ConvId bytes | Close_session SimNodeId ConvId CloseReason | Run_until_idle usize

fun sim_do :: "crypto \<Rightarrow> (window_table \<Rightarrow> window_table) \<Rightarrow> sim_op \<Rightarrow> TestShell \<Rightarrow> TestShell run" where
  "sim_do cr h (Add_endpoint node config echo) shell = add_endpoint cr shell node config echo"
| "sim_do cr h (Add_relay node config) shell = Some (add_relay cr shell node config)"
| "sim_do cr h (Restart_node node) shell = restart_node cr shell node"
| "sim_do cr h (Add_link link) shell = Some (add_link shell link)"
| "sim_do cr h (Drop_queued node ch) shell = Some (snd (drop_queued_from shell node ch))"
| "sim_do cr h (Replay_last node ch) shell = Some (snd (replay_last_packet shell node ch))"
| "sim_do cr h (Open_session node) shell = map_option snd (open_session cr h shell node)"
| "sim_do cr h (Send_bytes node c bs) shell = map_option snd (send_session_bytes cr h shell node c bs)"
| "sim_do cr h (Close_session node c reason) shell = shell_close_session cr h shell node c reason"
| "sim_do cr h (Run_until_idle n) shell = run_until_idle cr h n shell"

fun is_setup :: "sim_op \<Rightarrow> bool" where
  "is_setup (Open_session _) = False"
| "is_setup (Send_bytes _ _ _) = False"
| "is_setup (Close_session _ _ _) = False"
| "is_setup (Run_until_idle _) = False"
| "is_setup _ = True"

definition sim_run :: "crypto \<Rightarrow> (window_table \<Rightarrow> window_table) \<Rightarrow> sim_op list \<Rightarrow> TestShell run" where
  "sim_run cr h xs = fold_run (sim_do cr h) xs shell_new"

fun node_ok :: "crypto \<Rightarrow> SimNode \<Rightarrow> bool" where
  "node_ok cr (SimEndpoint e) \<longleftrightarrow> (\<exists>core0 xs es. endpoint_new cr (en_config e) = Some core0 \<and> endpoint_run cr xs core0 = Some (en_core e, es))"
| "node_ok cr (SimRelay r) \<longleftrightarrow> relay_reach cr (rn_config r) (rn_core r)"

definition nodes_ok :: "crypto \<Rightarrow> TestShell \<Rightarrow> bool" where
  "nodes_ok cr s \<longleftrightarrow> (\<forall>n x. map_of (ts_nodes s) n = Some x \<longrightarrow> node_ok cr x)"

definition permutes :: "(window_table \<Rightarrow> window_table) \<Rightarrow> bool" where
  "permutes h \<longleftrightarrow> (\<forall>m. mset (h m) = mset m)"

definition conserved :: "TestShell \<Rightarrow> bool" where
  "conserved s \<longleftrightarrow> (let m = ts_metrics s in
     sent_packets m = - 1 \<or> unat (sent_packets m) = unat (delivered_packets m) + unat (dropped_packets m) + length (ts_packets s))"

fun not_replay :: "sim_op \<Rightarrow> bool" where
  "not_replay (Replay_last _ _) = False"
| "not_replay _ = True"

definition heat :: "edge_table \<Rightarrow> (ChannelId \<times> u64) list list" where
  "heat nodes = map (map (\<lambda>e. (channel_id e, cooldown_until e))) nodes"

definition free_channels :: "edge_table \<Rightarrow> u64 \<Rightarrow> ChannelId set" where
  "free_channels nodes t = {ch. \<exists>e \<in> set (nodes ! 0). channel_id e = ch \<and> cooldown_until e \<le> t}"

definition ep_free :: "EndpointCore \<Rightarrow> u64 \<Rightarrow> ChannelId set" where
  "ep_free core t = free_channels (planner_nodes (ep_route_planner core)) t"

definition ep_heat :: "EndpointCore \<Rightarrow> (ChannelId \<times> u64) list list" where
  "ep_heat core = heat (planner_nodes (ep_route_planner core))"

fun not_write :: "CoreAction \<Rightarrow> bool" where
  "not_write (WriteSession c bs) = False"
| "not_write _ = True"

definition routes_ok :: "EndpointCore \<Rightarrow> bool" where
  "routes_ok core \<longleftrightarrow> table_wf (planner_nodes (ep_route_planner core)) \<and> channels_distinct (planner_nodes (ep_route_planner core))"

definition route_sane :: "EndpointConfig \<Rightarrow> bool" where
  "route_sane config \<longleftrightarrow> graph_ordered (rcf_graph (ec_route config)) \<and> channels_distinct (planner_nodes (planner_new (ec_route config)))"

definition nodes_sane :: "TestShell \<Rightarrow> bool" where
  "nodes_sane s \<longleftrightarrow> (\<forall>n e. map_of (ts_nodes s) n = Some (SimEndpoint e) \<longrightarrow> route_sane (en_config e))"

fun op_sane :: "sim_op \<Rightarrow> bool" where
  "op_sane (Add_endpoint n config echo) = route_sane config"
| "op_sane _ = True"

inductive work_reach :: "crypto \<Rightarrow> (window_table \<Rightarrow> window_table) \<Rightarrow> TestShell \<Rightarrow> shell_work \<Rightarrow> TestShell \<Rightarrow> shell_work \<Rightarrow> bool" for cr h where
  work_here: "work_reach cr h s w s w"
| work_on: "perform_action cr h s x = Some (s1, fresh) \<Longrightarrow> work_reach cr h s1 (fresh @ w) s' w' \<Longrightarrow> work_reach cr h s (x # w) s' w'"

definition settles :: "crypto \<Rightarrow> (window_table \<Rightarrow> window_table) \<Rightarrow> TestShell \<Rightarrow> shell_work \<Rightarrow> bool" where
  "settles cr h s w \<longleftrightarrow> (\<exists>s'. handle_actions cr h s w = Some s') \<or>
     (\<exists>s' x w'. work_reach cr h s w s' (x # w') \<and> perform_action cr h s' x = None)"

definition node_free :: "TestShell \<Rightarrow> SimNodeId \<Rightarrow> ChannelId set" where
  "node_free s n = (case map_of (ts_nodes s) n of Some (SimEndpoint e) \<Rightarrow> ep_free (en_core e) (shell_elapsed s n) | _ \<Rightarrow> {})"

definition free_total :: "TestShell \<Rightarrow> nat" where
  "free_total s = (\<Sum>n \<in> dom (map_of (ts_nodes s)). card (node_free s n))"

fun stale :: "TestShell \<Rightarrow> SimNodeId \<times> CoreAction \<Rightarrow> bool" where
  "stale s (n, SendTransportPacket ch bs) \<longleftrightarrow> ch \<notin> node_free s n"
| "stale s (n, _) \<longleftrightarrow> False"

definition writes :: "shell_work \<Rightarrow> nat" where
  "writes w = length (filter (\<lambda>x. \<not> not_write (snd x)) w)"

definition stales :: "TestShell \<Rightarrow> shell_work \<Rightarrow> nat" where
  "stales s w = length (filter (stale s) w)"

definition work_order :: "((TestShell \<times> shell_work) \<times> TestShell \<times> shell_work) set" where
  "work_order = measures [writes \<circ> snd, free_total \<circ> fst, \<lambda>(s, w). stales s w, length \<circ> snd]"

definition same_free :: "TestShell \<Rightarrow> TestShell \<Rightarrow> bool" where
  "same_free s s' \<longleftrightarrow> dom (map_of (ts_nodes s')) = dom (map_of (ts_nodes s)) \<and> (\<forall>n. node_free s' n = node_free s n)"

definition calm :: "crypto \<Rightarrow> TestShell \<Rightarrow> bool" where
  "calm cr s \<longleftrightarrow> nodes_ok cr s \<and> nodes_sane s \<and> unat (ts_now_ms s) + 200 < 2 ^ 64"

subsection \<open>Operations\<close>

lemma handle_actions_code [code]:
  "handle_actions cr h s [] = Some s"
  "handle_actions cr h s (x # w) = do { r \<leftarrow> perform_action cr h s x; handle_actions cr h (fst r) (snd r @ w) }"
  by (subst handle_actions.simps, simp)+

lemma handle_actions_inv:
  assumes "handle_actions cr h shell work = Some shell'" "I shell work"
    and step: "\<And>s x w s1 more. I s (x # w) \<Longrightarrow> perform_action cr h s x = Some (s1, more) \<Longrightarrow> I s1 (more @ w)"
  shows "I shell' []"
proof -
  let ?P = "\<lambda>cr' h' s w s'. cr' = cr \<longrightarrow> h' = h \<longrightarrow> I s w \<longrightarrow> I s' []"
  have "?P cr h shell work shell'"
  proof (rule handle_actions.raw_induct [of ?P, OF _ assms(1)], intro impI)
    fix rec cr' h' s w s'
    assume IH: "\<And>cr' h' s w s'. rec cr' h' s w = Some s' \<Longrightarrow> ?P cr' h' s w s'" and eq: "cr' = cr" "h' = h" and I: "I s w"
      and r: "(if w = [] then Some s else perform_action cr' h' s (hd w) \<bind> (\<lambda>r. rec cr' h' (fst r) (snd r @ tl w))) = Some s'"
    show "I s' []"
    proof (cases w)
      case Nil
      with r I show ?thesis by simp
    next
      case (Cons x w')
      with r eq obtain s1 more where p: "perform_action cr h s x = Some (s1, more)" "rec cr h s1 (more @ w') = Some s'"
        by (auto split: Option.bind_splits)
      from IH [OF p(2)] step [of s x w' s1 more] I Cons p(1) show ?thesis by simp
    qed
  qed
  then show ?thesis using assms(2) by simp
qed

subsection \<open>Invariants\<close>

lemma bt_insert_twice [simp]: "bt_insert k v (bt_insert k w m) = bt_insert k v m"
  by (induction m) auto

lemma set_node_twice [simp]: "set_node n x (set_node n y s) = set_node n x s"
  by (simp add: set_node_def)

lemma set_node_fields [simp]:
  "ts_now_ms (set_node n x s) = ts_now_ms s" "ts_links (set_node n x s) = ts_links s" "ts_link_attempts (set_node n x s) = ts_link_attempts s"
  "ts_packets (set_node n x s) = ts_packets s" "ts_metrics (set_node n x s) = ts_metrics s"
  "map_of (ts_nodes (set_node n x s)) = (map_of (ts_nodes s))(n \<mapsto> x)"
  by (simp_all add: set_node_def map_of_bt_insert fun_eq_iff)

locale shell_invariant =
  fixes cr :: crypto and h :: "window_table \<Rightarrow> window_table" and I :: "TestShell \<Rightarrow> bool" and allowed :: "sim_op \<Rightarrow> bool"
  assumes fresh: "I shell_new"
    and endpoint_event: "I s \<Longrightarrow> map_of (ts_nodes s) n = Some (SimEndpoint e) \<Longrightarrow>
      endpoint_handle_event cr (en_core e) t ev [] = Some (core, actions, r) \<Longrightarrow> I (set_node n (SimEndpoint (e\<lparr>en_core := core\<rparr>)) s)"
    and endpoint_timer: "I s \<Longrightarrow> map_of (ts_nodes s) n = Some (SimEndpoint e) \<Longrightarrow>
      endpoint_poll cr h (en_core e) t [] = Some (core, actions) \<Longrightarrow> I (set_node n (SimEndpoint (e\<lparr>en_core := core\<rparr>)) s)"
    and relay_event: "I s \<Longrightarrow> map_of (ts_nodes s) n = Some (SimRelay rn) \<Longrightarrow>
      relay_handle_event cr h (rn_core rn) t ev [] = Some (rcore, actions, r) \<Longrightarrow> I (set_node n (SimRelay (rn\<lparr>rn_core := rcore\<rparr>)) s)"
    and relay_timer: "I s \<Longrightarrow> map_of (ts_nodes s) n = Some (SimRelay rn) \<Longrightarrow> I (set_node n (SimRelay rn) s)"
    and books: "I s \<Longrightarrow> map_of (ts_nodes s) n = Some (SimEndpoint e) \<Longrightarrow>
      I (set_node n (SimEndpoint (e\<lparr>en_sessions := a, en_blocked_writes := b\<rparr>)) s)"
    and local_bytes: "I s \<Longrightarrow> I (s\<lparr>ts_metrics := (ts_metrics s)\<lparr>delivered_local_bytes := x, last_delivery_ms := y\<rparr>\<rparr>)"
    and sending: "I s \<Longrightarrow> send_transport cr h s n ch bs = Some (s', work) \<Longrightarrow> I s'"
    and advancing: "I s \<Longrightarrow> I (advance_to_poll s due)"
    and taking: "I s \<Longrightarrow> take_packet s i = Some (packet, s') \<Longrightarrow> I s'"
    and preparing: "I s \<Longrightarrow> is_setup op \<Longrightarrow> allowed op \<Longrightarrow> sim_do cr h op s = Some s' \<Longrightarrow> I s'"
begin

lemma event:
  assumes "I s" "begin_event cr h s n ev = Some (s', work)"
  shows "I s'"
proof (cases "map_of (ts_nodes s) n")
  case None
  with assms show ?thesis by (simp add: begin_event_def)
next
  case (Some node)
  show ?thesis
  proof (cases node)
    case (SimEndpoint e)
    with assms(2) Some obtain core actions r where
      "endpoint_handle_event cr (en_core e) (shell_elapsed s n) ev [] = Some (core, actions, r)" "s' = set_node n (SimEndpoint (e\<lparr>en_core := core\<rparr>)) s"
      by (auto simp: begin_event_def split: Option.bind_splits)
    with endpoint_event assms(1) Some SimEndpoint show ?thesis by blast
  next
    case (SimRelay rn)
    with assms(2) Some obtain core actions r where
      "relay_handle_event cr h (rn_core rn) (shell_elapsed s n) ev [] = Some (core, actions, r)" "s' = set_node n (SimRelay (rn\<lparr>rn_core := core\<rparr>)) s"
      by (auto simp: begin_event_def split: Option.bind_splits)
    with relay_event assms(1) Some SimRelay show ?thesis by blast
  qed
qed

lemma book_sessions: "I s \<Longrightarrow> map_of (ts_nodes s) n = Some (SimEndpoint e) \<Longrightarrow> I (set_node n (SimEndpoint (e\<lparr>en_sessions := a\<rparr>)) s)"
  using books [where s = s and n = n and e = e and a = a and b = "en_blocked_writes e"] by simp

lemma session_write:
  assumes "I s" "begin_session_write cr s n c bs = Some (ok, s', work)"
  shows "I s'"
proof -
  from assms(2) obtain e where n: "map_of (ts_nodes s) n = Some (SimEndpoint e)"
    by (auto simp: begin_session_write_def split: option.splits SimNode.splits)
  with assms(2) obtain core actions r b where e:
    "endpoint_handle_event cr (en_core e) (shell_elapsed s n) (SessionWrite c bs) [] = Some (core, actions, r)"
    "s' = set_node n (SimEndpoint (e\<lparr>en_core := core, en_blocked_writes := b\<rparr>)) s"
    unfolding begin_session_write_def by (auto simp: Let_def simp del: endpoint_handle_event.simps split: Option.bind_splits if_splits)
  let ?e = "e\<lparr>en_core := core\<rparr>"
  from books [OF endpoint_event [OF assms(1) n e(1)], where n = n and e = ?e and a = "en_sessions e" and b = b] show ?thesis using e(2) by simp
qed

lemma writing:
  assumes "I s" "write_session cr s n c bs = Some (s', work)"
  shows "I s'"
proof -
  obtain echo s1 where s1: "store_bytes s n c bs = (echo, s1)" by fastforce
  then have "I s1" using assms(1) book_sessions by (auto simp: store_bytes_def Let_def split: option.splits SimNode.splits)
  with assms(2) s1 show ?thesis
    by (auto simp: write_session_def Let_def split: if_splits Option.bind_splits intro: local_bytes session_write)
qed

lemma entries: "I s \<Longrightarrow> I (open_entry s n c)" "I s \<Longrightarrow> I (close_entry s n c)"
  by (auto simp: open_entry_def close_entry_def split: option.splits SimNode.splits intro: book_sessions books)

lemma performing: "I s \<Longrightarrow> perform_action cr h s x = Some (s', work) \<Longrightarrow> I s'"
  by (cases "(cr, h, s, x)" rule: perform_action.cases) (auto intro: sending entries writing)

lemma acting: "I s \<Longrightarrow> handle_actions cr h s work = Some s' \<Longrightarrow> I s'"
  by (rule handle_actions_inv [of cr h s work s' "\<lambda>s _. I s"]) (auto intro: performing)

lemma handling: "I s \<Longrightarrow> shell_handle_event cr h s n ev = Some s' \<Longrightarrow> I s'"
  by (auto simp: shell_handle_event_def split: Option.bind_splits intro: event acting)

lemma sending_bytes: "I s \<Longrightarrow> send_session_bytes cr h s n c bs = Some (ok, s') \<Longrightarrow> I s'"
  by (auto simp: send_session_bytes_def split: Option.bind_splits intro: session_write acting)

lemma open_keeps:
  assumes "I s" "open_session cr h s n = Some (c, s')"
  shows "I s'"
proof -
  from assms(2) obtain e where n: "map_of (ts_nodes s) n = Some (SimEndpoint e)"
    by (auto simp: open_session_def split: option.splits SimNode.splits)
  with assms(2) obtain core actions r where e:
    "endpoint_handle_event cr (en_core e) (shell_elapsed s n) SessionOpen [] = Some (core, actions, r)"
    "handle_actions cr h (open_entry (set_node n (SimEndpoint (e\<lparr>en_core := core\<rparr>)) s) n c) (node_actions n actions) = Some s'"
    unfolding open_session_def
    by (auto simp: Let_def simp del: endpoint_handle_event.simps split: Option.bind_splits CoreEventResult.splits)
  show ?thesis by (rule acting [OF entries(1) [OF endpoint_event [OF assms(1) n e(1)]] e(2)])
qed

lemma retrying: "I s \<Longrightarrow> retry_blocked_writes cr h s = Some s' \<Longrightarrow> I s'"
  unfolding retry_blocked_writes_def
  by (erule fold_run_inv) (auto simp: retry_write_def split: Option.bind_splits prod.splits intro: sending_bytes)

lemma polling:
  assumes "I s" "poll_node cr h s n = Some s'"
  shows "I s'"
proof -
  have "I s1" if "begin_poll cr h s n = Some (Some (s1, work))" for s1 work
    using that assms(1) relay_timer
    by (auto simp: begin_poll_def Let_def relay_poll_def split: option.splits SimNode.splits Option.bind_splits intro: endpoint_timer)
  with assms show ?thesis
    by (auto simp: poll_node_def split: option.splits Option.bind_splits prod.splits intro: acting retrying)
qed

lemma delivering: "I s \<Longrightarrow> deliver_packet cr h s i = Some s' \<Longrightarrow> I s'"
  by (auto simp: deliver_packet_def split: Option.bind_splits intro: taking handling)

lemma running: "I s \<Longrightarrow> run_until_idle cr h k s = Some s' \<Longrightarrow> I s'"
proof (induction k arbitrary: s)
  case (Suc k)
  from Suc.prems(2) obtain s1 where s1: "retry_blocked_writes cr h s = Some s1" by (auto split: Option.bind_splits)
  have "I s1" using retrying Suc.prems(1) s1 by blast
  note steps = polling [OF advancing [OF this]] delivering [OF this]
  from Suc.prems(2) s1 \<open>I s1\<close> show ?case
    by (auto split: option.splits Option.bind_splits if_splits dest!: steps intro: Suc.IH)
qed simp

lemma doing: "I s \<Longrightarrow> allowed x \<Longrightarrow> sim_do cr h x s = Some s' \<Longrightarrow> I s'"
  using preparing [of s x s']
  by (cases x) (auto simp: shell_close_session_def intro: open_keeps sending_bytes handling running)

lemma holds: "sim_run cr h xs = Some s \<Longrightarrow> list_all allowed xs \<Longrightarrow> I s"
  unfolding sim_run_def using fold_run_inv [of "sim_do cr h" xs shell_new s I] fresh doing by (auto simp: list_all_iff)

end

subsection \<open>Cores of the network\<close>

lemma endpoint_run_snoc:
  "endpoint_run cr xs core = Some (core1, es) \<Longrightarrow> endpoint_do cr x core1 = Some (core2, fs) \<Longrightarrow>
   endpoint_run cr (xs @ [x]) core = Some (core2, es @ fs)"
  by (induction xs arbitrary: core es) (fastforce split: Option.bind_splits)+

lemma node_ok_step:
  assumes "node_ok cr (SimEndpoint e)" "endpoint_do cr x (en_core e) = Some (core, es)"
  shows "node_ok cr (SimEndpoint (e\<lparr>en_core := core\<rparr>))"
  using assms endpoint_run_snoc [OF _ assms(2)] by fastforce

lemma node_ok_fresh: "endpoint_new cr (en_config e) = Some (en_core e) \<Longrightarrow> node_ok cr (SimEndpoint e)"
  using endpoint_run.simps(1) [of cr "en_core e"] by (simp, blast)

lemma nodes_ok_set: "nodes_ok cr s \<Longrightarrow> node_ok cr x \<Longrightarrow> nodes_ok cr (set_node n x s)"
  by (auto simp: nodes_ok_def)

lemma nodes_ok_get: "nodes_ok cr s \<Longrightarrow> map_of (ts_nodes s) n = Some x \<Longrightarrow> node_ok cr x"
  by (auto simp: nodes_ok_def)

lemma nodes_ok_same: "nodes_ok cr s \<Longrightarrow> ts_nodes s' = ts_nodes s \<Longrightarrow> nodes_ok cr s'"
  by (simp add: nodes_ok_def)

lemma count_simps [simp]:
  "ts_nodes (count_sent_packet s) = ts_nodes s" "ts_nodes (count_dropped_packets k s) = ts_nodes s"
  "ts_packets (count_sent_packet s) = ts_packets s" "ts_packets (count_dropped_packets k s) = ts_packets s"
  "ts_now_ms (count_sent_packet s) = ts_now_ms s" "ts_now_ms (count_dropped_packets k s) = ts_now_ms s"
  "ts_links (count_sent_packet s) = ts_links s" "ts_links (count_dropped_packets k s) = ts_links s"
  "ts_link_attempts (count_sent_packet s) = ts_link_attempts s" "ts_link_attempts (count_dropped_packets k s) = ts_link_attempts s"
  "ts_nodes (schedule_packet s link n ch bs) = ts_nodes s" "ts_metrics (schedule_packet s link n ch bs) = ts_metrics s"
  "ts_now_ms (schedule_packet s link n ch bs) = ts_now_ms s"
  by (simp_all add: count_sent_packet_def count_dropped_packets_def schedule_packet_def Let_def)

lemma send_transport_cases:
  assumes "send_transport cr h s n ch bs = Some (s', work)"
  obtains (failed) s1 where "ts_nodes s1 = ts_nodes s" "ts_packets s1 = ts_packets s" "ts_now_ms s1 = ts_now_ms s" "ts_metrics s1 = ts_metrics (count_sent_packet s)"
      "transport_send_failed cr h s1 n ch bs = Some (s', work)"
  | (lost) s1 where "ts_nodes s1 = ts_nodes s" "ts_packets s1 = ts_packets s" "ts_now_ms s1 = ts_now_ms s" "ts_metrics s1 = ts_metrics (count_sent_packet s)"
      "s' = count_dropped_packets 1 s1" "work = []"
  | (queued) s1 link where "ts_nodes s1 = ts_nodes s" "ts_packets s1 = ts_packets s" "ts_now_ms s1 = ts_now_ms s" "ts_metrics s1 = ts_metrics (count_sent_packet s)"
      "s' = schedule_packet s1 link n ch bs" "work = []"
proof (cases "link_position (count_sent_packet s) n ch")
  case None
  with assms show ?thesis by (intro failed [of "count_sent_packet s"]) (simp_all add: send_transport_def)
next
  case (Some i)
  let ?s = "\<lambda>attempts. (count_sent_packet s)\<lparr>ts_link_attempts := attempts\<rparr>"
  from assms Some have run: "(do {
      link \<leftarrow> index_run (ts_links s) i;
      attempts \<leftarrow> update_run (ts_link_attempts s) i (\<lambda>n. saturating_add n 1);
      if is_down link (ts_now_ms s) then transport_send_failed cr h (?s attempts) n ch bs
      else do {
        attempt \<leftarrow> index_run attempts i;
        lost \<leftarrow> should_drop link attempt;
        if lost then Some (count_dropped_packets 1 (?s attempts), []) else Some (schedule_packet (?s attempts) link n ch bs, [])
      } }) = Some (s', work)"
    by (simp only: send_transport_def Let_def option.case count_simps) simp
  then obtain link attempts where l: "index_run (ts_links s) i = Some link" "update_run (ts_link_attempts s) i (\<lambda>n. saturating_add n 1) = Some attempts"
    by (meson bind_eq_Some_conv)
  show ?thesis
  proof (cases "is_down link (ts_now_ms s)")
    case True
    with run l show ?thesis by (intro failed [of "?s attempts"]) simp_all
  next
    case False
    with run l have "(s' = count_dropped_packets 1 (?s attempts) \<or> s' = schedule_packet (?s attempts) link n ch bs) \<and> work = []"
      by (auto simp: bind_eq_Some_conv split: if_splits)
    then consider "s' = count_dropped_packets 1 (?s attempts)" "work = []" | "s' = schedule_packet (?s attempts) link n ch bs" "work = []" by blast
    then show ?thesis
    proof cases
      case 1
      then show ?thesis by (intro lost [of "?s attempts"]) simp_all
    next
      case 2
      then show ?thesis by (intro queued [of "?s attempts" link]) simp_all
    qed
  qed
qed

lemma begin_event_nodes_ok:
  assumes "nodes_ok cr s" "\<forall>m. mset (h m) = mset m" "begin_event cr h s n ev = Some (s', work)"
  shows "nodes_ok cr s'"
proof (cases "map_of (ts_nodes s) n")
  case None
  with assms show ?thesis by (simp add: begin_event_def)
next
  case (Some node)
  show ?thesis
  proof (cases node)
    case (SimEndpoint e)
    with assms(3) Some obtain core actions r where
      e: "endpoint_handle_event cr (en_core e) (shell_elapsed s n) ev [] = Some (core, actions, r)" "s' = set_node n (SimEndpoint (e\<lparr>en_core := core\<rparr>)) s"
      by (auto simp: begin_event_def split: Option.bind_splits)
    then have "endpoint_do cr (Ep_event (shell_elapsed s n) ev) (en_core e) = Some (core, op_requests ev r @ map Did actions)" by simp
    from node_ok_step [OF _ this] nodes_ok_get [OF assms(1) Some] SimEndpoint e(2) show ?thesis
      using nodes_ok_set [OF assms(1)] by blast
  next
    case (SimRelay rn)
    with assms(3) Some obtain core actions r where
      e: "relay_handle_event cr h (rn_core rn) (shell_elapsed s n) ev [] = Some (core, actions, r)" "s' = set_node n (SimRelay (rn\<lparr>rn_core := core\<rparr>)) s"
      by (auto simp: begin_event_def split: Option.bind_splits)
    have "relay_reach cr (rn_config rn) (rn_core rn)" using nodes_ok_get [OF assms(1) Some] SimRelay by simp
    from relay_reach.relay_event [OF this assms(2) e(1)] show ?thesis using nodes_ok_set [OF assms(1)] e(2) by simp
  qed
qed

lemma send_nodes_ok:
  assumes "nodes_ok cr s" "\<forall>m. mset (h m) = mset m" "send_transport cr h s n ch bs = Some (s', work)"
  shows "nodes_ok cr s'"
  using assms(3)
proof (cases rule: send_transport_cases)
  case (failed s1)
  then show ?thesis using nodes_ok_same [OF assms(1), of "count_dropped_packets 1 s1"] begin_event_nodes_ok [OF _ assms(2)]
    by (simp add: transport_send_failed_def)
next
  case (lost s1)
  then show ?thesis using nodes_ok_same [OF assms(1)] by simp
next
  case (queued s1 link)
  then show ?thesis using nodes_ok_same [OF assms(1)] by simp
qed

lemma setup_nodes_ok:
  assumes "nodes_ok cr s" "is_setup x" "sim_do cr h x s = Some s'"
  shows "nodes_ok cr s'"
proof (cases x)
  case (Add_endpoint n config echo)
  with assms(3) obtain core where core: "endpoint_new cr config = Some core" and s': "s' = set_node n (SimEndpoint \<lparr>en_core = core, en_config = config, en_started_at_sim_ms = ts_now_ms s,
       en_sessions = [], en_echo_exit = echo, en_blocked_writes = []\<rparr>) s" by (auto simp: add_endpoint_def split: Option.bind_splits)
  show ?thesis unfolding s' using core by (intro nodes_ok_set [OF assms(1)] node_ok_fresh) simp
next
  case (Add_relay n config)
  with assms(3) show ?thesis by (auto simp: add_relay_def intro!: nodes_ok_set [OF assms(1)] relay_start)
next
  case (Restart_node n)
  show ?thesis
  proof (cases "map_of (ts_nodes s) n")
    case None
    with assms(1,3) Restart_node show ?thesis by (simp add: restart_node_def)
  next
    case (Some node)
    show ?thesis
    proof (cases node)
      case (SimEndpoint e)
      with assms(3) Some Restart_node obtain core config where "endpoint_new cr config = Some core"
        "s' = set_node n (SimEndpoint (e\<lparr>en_core := core, en_config := config, en_started_at_sim_ms := ts_now_ms s, en_sessions := [], en_blocked_writes := []\<rparr>)) s"
        by (auto simp: restart_node_def Let_def split: Option.bind_splits)
      then show ?thesis by (auto intro!: nodes_ok_set [OF assms(1)] node_ok_fresh simp del: node_ok.simps)
    next
      case (SimRelay r)
      with assms(3) Some Restart_node obtain config where
        "s' = set_node n (SimRelay (r\<lparr>rn_core := relay_new cr config, rn_config := config, rn_started_at_sim_ms := ts_now_ms s\<rparr>)) s"
        by (auto simp: restart_node_def Let_def split: Option.bind_splits)
      then show ?thesis by (auto intro!: nodes_ok_set [OF assms(1)] relay_start)
    qed
  qed
qed (use assms in \<open>auto simp: add_link_def drop_queued_from_def replay_last_packet_def Let_def split: option.splits intro: nodes_ok_same\<close>)

lemma nodes_ok_do:
  assumes "nodes_ok cr s" "map_of (ts_nodes s) n = Some (SimEndpoint e)" "endpoint_do cr x (en_core e) = Some (core, es)"
  shows "nodes_ok cr (set_node n (SimEndpoint (e\<lparr>en_core := core\<rparr>)) s)"
  by (rule nodes_ok_set [OF assms(1) node_ok_step [OF nodes_ok_get [OF assms(1,2)] assms(3)]])

interpretation sn: shell_invariant cr h "\<lambda>s. permutes h \<longrightarrow> nodes_ok cr s" "\<lambda>_. True" for cr h
proof
  show "permutes h \<longrightarrow> nodes_ok cr shell_new" by (simp add: nodes_ok_def shell_new_def)
next
  fix s n e t ev core actions r
  assume "permutes h \<longrightarrow> nodes_ok cr s" "map_of (ts_nodes s) n = Some (SimEndpoint e)" "endpoint_handle_event cr (en_core e) t ev [] = Some (core, actions, r)"
  then show "permutes h \<longrightarrow> nodes_ok cr (set_node n (SimEndpoint (e\<lparr>en_core := core\<rparr>)) s)"
    using nodes_ok_do [of cr s n e "Ep_event t ev"] by simp
next
  fix s n e t core actions
  assume "permutes h \<longrightarrow> nodes_ok cr s" "map_of (ts_nodes s) n = Some (SimEndpoint e)" "endpoint_poll cr h (en_core e) t [] = Some (core, actions)"
  then show "permutes h \<longrightarrow> nodes_ok cr (set_node n (SimEndpoint (e\<lparr>en_core := core\<rparr>)) s)"
    using nodes_ok_do [of cr s n e "Ep_poll t h"] by simp
next
  fix s n rn t ev core actions r
  assume s: "permutes h \<longrightarrow> nodes_ok cr s" "map_of (ts_nodes s) n = Some (SimRelay rn)" "relay_handle_event cr h (rn_core rn) t ev [] = Some (core, actions, r)"
  show "permutes h \<longrightarrow> nodes_ok cr (set_node n (SimRelay (rn\<lparr>rn_core := core\<rparr>)) s)"
  proof
    assume h: "permutes h"
    then have "relay_reach cr (rn_config rn) (rn_core rn)" using s nodes_ok_get by fastforce
    from relay_reach.relay_event [OF this h [unfolded permutes_def] s(3)] show "nodes_ok cr (set_node n (SimRelay (rn\<lparr>rn_core := core\<rparr>)) s)"
      using s(1) h nodes_ok_set by simp
  qed
next
  fix s n ch bs s' work
  assume "permutes h \<longrightarrow> nodes_ok cr s" "send_transport cr h s n ch bs = Some (s', work)"
  then show "permutes h \<longrightarrow> nodes_ok cr s'" using send_nodes_ok by (auto simp: permutes_def)
next
  fix s i p s'
  assume "permutes h \<longrightarrow> nodes_ok cr s" "take_packet s i = Some (p, s')"
  then show "permutes h \<longrightarrow> nodes_ok cr s'" by (auto simp: take_packet_def Let_def split: Option.bind_splits intro: nodes_ok_same)
next
  fix s x s'
  assume "permutes h \<longrightarrow> nodes_ok cr s" "is_setup x" "sim_do cr h x s = Some s'"
  then show "permutes h \<longrightarrow> nodes_ok cr s'" using setup_nodes_ok by blast
next
  fix s n e a b
  assume "permutes h \<longrightarrow> nodes_ok cr s" "map_of (ts_nodes s) n = Some (SimEndpoint e)"
  then show "permutes h \<longrightarrow> nodes_ok cr (set_node n (SimEndpoint (e\<lparr>en_sessions := a, en_blocked_writes := b\<rparr>)) s)"
    using nodes_ok_get [of cr s n "SimEndpoint e"] by (intro impI nodes_ok_set) simp_all
qed (auto simp: advance_to_poll_def intro: nodes_ok_set nodes_ok_get nodes_ok_same)

subsection \<open>Conservation of packets\<close>

lemma conserved_same: "ts_metrics s' = ts_metrics s \<Longrightarrow> ts_packets s' = ts_packets s \<Longrightarrow> conserved s' = conserved s"
  by (simp add: conserved_def)

lemma unat_minus_one_u64: "unat (- 1 :: u64) = 2 ^ 64 - 1"
  by (simp add: unsigned_minus_1_eq_mask mask_eq_exp_minus_1)

lemma unat_saturating_add: "unat (saturating_add a b) = (if unat a + unat b < 2 ^ 64 then unat a + unat b else 2 ^ 64 - 1)"
proof (cases "unat a + unat b < 2 ^ 64")
  case True
  then have "unat (a + b) = unat a + unat b" by (simp add: unat_add_lem [symmetric])
  then show ?thesis using True by (simp add: saturating_add_def word_less_nat_alt)
next
  case False
  then have "unat (a + b) = unat a + unat b - 2 ^ 64" by (simp add: unat_plus_if_size word_size)
  moreover have "unat b < 2 ^ 64" using unsigned_less [of b, where 'a = nat] by simp
  ultimately have "a + b < a" using False by (simp add: word_less_nat_alt)
  then show ?thesis using False by (simp add: saturating_add_def unat_minus_one_u64)
qed

lemma sent_max: "(w :: u64) \<noteq> - 1 \<longleftrightarrow> unat w < 2 ^ 64 - 1"
proof -
  have "unat w < 2 ^ 64" using unsigned_less [of w, where 'a = nat] by simp
  moreover have "w = - 1 \<longleftrightarrow> unat w = 2 ^ 64 - 1" by (metis unat_minus_one_u64 word_unat_eq_iff)
  ultimately show ?thesis by auto
qed

lemma begin_event_frame:
  assumes "begin_event cr h s n ev = Some (s', work)"
  shows "ts_metrics s' = ts_metrics s" "ts_packets s' = ts_packets s" "ts_now_ms s' = ts_now_ms s"
proof -
  from assms have "s' = s \<or> (\<exists>x. s' = set_node n x s)"
    by (auto simp: begin_event_def Let_def bind_eq_Some_conv simp del: endpoint_handle_event.simps relay_handle_event.simps split: option.splits SimNode.splits)
  then show "ts_metrics s' = ts_metrics s" "ts_packets s' = ts_packets s" "ts_now_ms s' = ts_now_ms s" by auto
qed

lemma conserved_moves:
  assumes "conserved s" "ts_packets s1 = ts_packets s" "ts_metrics s1 = ts_metrics (count_sent_packet s)"
  shows "conserved (count_dropped_packets 1 s1)" "conserved (schedule_packet s1 link n ch bs)"
proof -
  let ?m = "ts_metrics s"
  have s1: "sent_packets (ts_metrics s1) = saturating_add (sent_packets ?m) 1" "delivered_packets (ts_metrics s1) = delivered_packets ?m"
    "dropped_packets (ts_metrics s1) = dropped_packets ?m" by (simp_all add: assms(3) count_sent_packet_def Let_def)
  have eq: "unat (sent_packets ?m) = unat (delivered_packets ?m) + unat (dropped_packets ?m) + length (ts_packets s)" "unat (sent_packets ?m) + 1 < 2 ^ 64 - 1"
    if "saturating_add (sent_packets ?m) 1 \<noteq> - 1"
    using that assms(1) sent_max [of "sent_packets ?m"] by (auto simp: sent_max unat_saturating_add unat_minus_one_u64 conserved_def Let_def split: if_splits)
  have "sent_packets (ts_metrics (count_dropped_packets 1 s1)) = saturating_add (sent_packets ?m) 1"
    "delivered_packets (ts_metrics (count_dropped_packets 1 s1)) = delivered_packets ?m"
    "dropped_packets (ts_metrics (count_dropped_packets 1 s1)) = saturating_add (dropped_packets ?m) 1"
    using s1 by (simp_all add: count_dropped_packets_def Let_def)
  then show "conserved (count_dropped_packets 1 s1)" using eq assms(2) unfolding conserved_def Let_def
    by (cases "saturating_add (sent_packets ?m) 1 = - 1") (simp_all add: unat_saturating_add)
  have "length (ts_packets (schedule_packet s1 link n ch bs)) = length (ts_packets s) + 1"
    using assms(2) by (simp add: schedule_packet_def Let_def)
  then show "conserved (schedule_packet s1 link n ch bs)" using eq s1 unfolding conserved_def Let_def
    by (cases "saturating_add (sent_packets ?m) 1 = - 1") (simp_all add: unat_saturating_add)
qed

lemma conserved_send:
  assumes "conserved s" "send_transport cr h s n ch bs = Some (s', work)"
  shows "conserved s'"
  using assms(2)
proof (cases rule: send_transport_cases)
  case (failed s1)
  note e = begin_event_frame [OF failed(5) [unfolded transport_send_failed_def]]
  show ?thesis using conserved_same [OF e(1,2)] conserved_moves(1) [OF assms(1) failed(2,4)] by simp
next
  case (lost s1)
  then show ?thesis using conserved_moves(1) [OF assms(1) lost(2,4)] by simp
next
  case (queued s1 link)
  then show ?thesis using conserved_moves(2) [OF assms(1) queued(2,4)] by simp
qed

lemma conserved_take:
  assumes "conserved s" "take_packet s i = Some (p, s')"
  shows "conserved s'"
proof -
  let ?m = "ts_metrics s"
  from assms(2) have i: "i < length (ts_packets s)" by (simp add: take_packet_def index_run_def split: if_splits)
  with assms(2) have s': "ts_metrics s' = ?m\<lparr>delivered_packets := saturating_add (delivered_packets ?m) 1\<rparr>"
    "length (ts_packets s') + 1 = length (ts_packets s)"
    by (auto simp: take_packet_def index_run_def Let_def)
  have "unat (delivered_packets ?m) + 1 < 2 ^ 64" if "unat (sent_packets ?m) = unat (delivered_packets ?m) + unat (dropped_packets ?m) + length (ts_packets s)"
    using that i unsigned_less [of "sent_packets ?m", where 'a = nat] by simp
  with assms(1) s' show ?thesis unfolding conserved_def Let_def by (auto simp: unat_saturating_add)
qed

lemma conserved_drop:
  assumes "conserved s"
  shows "conserved (snd (drop_queued_from s n ch))"
proof -
  let ?m = "ts_metrics s"
  define kept where "kept = filter (\<lambda>p. \<not> (sp_from_node p = n \<and> sp_from_channel_id p = ch)) (ts_packets s)"
  have k: "length kept \<le> length (ts_packets s)" by (simp add: kept_def)
  have "unat (word_of_nat d :: u64) = d" "unat (dropped_packets ?m) + d < 2 ^ 64" "d \<le> length (ts_packets s)"
    if d: "d = length (ts_packets s) - length kept" and
      "unat (sent_packets ?m) = unat (delivered_packets ?m) + unat (dropped_packets ?m) + length (ts_packets s)" for d
  proof -
    show "d \<le> length (ts_packets s)" by (simp add: d)
    then show "unat (dropped_packets ?m) + d < 2 ^ 64" using that(2) unsigned_less [of "sent_packets ?m", where 'a = nat] by simp
    then show "unat (word_of_nat d :: u64) = d" by (simp add: unat_of_nat)
  qed
  note d = this [OF refl]
  with assms k show ?thesis
    unfolding conserved_def drop_queued_from_def Let_def kept_def [symmetric] count_dropped_packets_def
    by (auto simp: unat_saturating_add simp del: of_nat_diff)
qed

lemma setup_frame:
  "restart_node cr s n = Some s' \<Longrightarrow> s' = s \<or> (\<exists>y. s' = set_node n y s)"
  "add_endpoint cr s n config echo = Some s' \<Longrightarrow> \<exists>y. s' = set_node n y s"
  unfolding restart_node_def add_endpoint_def Let_def
  by (auto simp: bind_eq_Some_conv split: option.splits SimNode.splits)

lemma conserved_setup:
  assumes "conserved s" "is_setup x" "not_replay x" "sim_do cr h x s = Some s'"
  shows "conserved s'"
proof (cases x)
  case (Restart_node n)
  then show ?thesis using assms setup_frame(1) [of cr s n s'] conserved_same [of s' s] by auto
next
  case (Add_endpoint n config echo)
  then show ?thesis using assms setup_frame(2) [of cr s n config echo s'] conserved_same [of s' s] by auto
next
  case (Add_relay n config)
  then show ?thesis using assms conserved_same [of s' s] by (auto simp: add_relay_def)
next
  case (Add_link link)
  then show ?thesis using assms conserved_same [of s' s] by (auto simp: add_link_def)
next
  case (Drop_queued n ch)
  then show ?thesis using assms conserved_drop by auto
qed (use assms(2,3) in simp_all)

lemma conserved_set_node [simp]: "conserved (set_node n x s) = conserved s"
  by (rule conserved_same) simp_all

interpretation sc: shell_invariant cr h conserved not_replay for cr h
proof
  show "conserved shell_new" by (simp add: conserved_def shell_new_def test_metrics_default_def)
  show "conserved s \<Longrightarrow> conserved (s\<lparr>ts_metrics := (ts_metrics s)\<lparr>delivered_local_bytes := x, last_delivery_ms := y\<rparr>\<rparr>)" for s x y
    by (simp add: conserved_def Let_def)
  show "conserved s \<Longrightarrow> conserved (advance_to_poll s due)" for s due
    by (simp add: conserved_def advance_to_poll_def)
  show "conserved s \<Longrightarrow> is_setup x \<Longrightarrow> not_replay x \<Longrightarrow> sim_do cr h x s = Some s' \<Longrightarrow> conserved s'" for s x s'
    by (rule conserved_setup)
  show "conserved s \<Longrightarrow> send_transport cr h s n ch bs = Some (s', work) \<Longrightarrow> conserved s'" for s n ch bs s' work
    by (rule conserved_send)
  show "conserved s \<Longrightarrow> take_packet s i = Some (packet, s') \<Longrightarrow> conserved s'" for s i packet s'
    by (rule conserved_take)
qed simp_all

subsection \<open>Channels that cool down\<close>

lemma finite_ep_free [simp]: "finite (ep_free core t)"
proof -
  have "ep_free core t \<subseteq> channel_id ` set (planner_nodes (ep_route_planner core) ! 0)" by (auto simp: ep_free_def free_channels_def)
  then show ?thesis by (rule finite_subset) simp
qed

lemma heat_free:
  assumes "heat nodes' = heat nodes" "nodes \<noteq> []"
  shows "free_channels nodes' t = free_channels nodes t"
proof -
  have len: "length nodes' = length nodes" using assms(1) by (metis heat_def length_map)
  have "heat nodes' ! 0 = heat nodes ! 0" using assms(1) by simp
  then have "map (\<lambda>e. (channel_id e, cooldown_until e)) (nodes' ! 0) = map (\<lambda>e. (channel_id e, cooldown_until e)) (nodes ! 0)"
    using assms(2) len by (simp add: heat_def)
  then have "set (map (\<lambda>e. (channel_id e, cooldown_until e)) (nodes' ! 0)) = set (map (\<lambda>e. (channel_id e, cooldown_until e)) (nodes ! 0))" by simp
  moreover have "free_channels ns t = {ch. \<exists>c. (ch, c) \<in> set (map (\<lambda>e. (channel_id e, cooldown_until e)) (ns ! 0)) \<and> c \<le> t}" for ns
    by (auto simp: free_channels_def)
  ultimately show ?thesis by simp
qed

lemma update_edge_heat:
  assumes "update_edge nodes eid f = Some nodes'" "\<And>e. channel_id (f e) = channel_id e" "\<And>e. cooldown_until (f e) = cooldown_until e"
  shows "heat nodes' = heat nodes"
proof -
  from assms(1) obtain es where e: "eid_node eid < length nodes" "es = nodes ! eid_node eid" "eid_edge eid < length es"
    "nodes' = nodes[eid_node eid := es[eid_edge eid := f (es ! eid_edge eid)]]"
    by (auto simp: update_edge_def bind_eq_Some_conv index_run_Some_iff update_run_Some_iff)
  let ?g = "\<lambda>e. (channel_id e, cooldown_until e)"
  have row: "map ?g (es[eid_edge eid := f (es ! eid_edge eid)]) = map ?g es"
    using e(3) assms(2,3) by (intro nth_equalityI) (auto simp: nth_list_update)
  show ?thesis
    unfolding heat_def
  proof (rule nth_equalityI)
    fix i assume "i < length (map (map ?g) nodes')"
    then show "map (map ?g) nodes' ! i = map (map ?g) nodes ! i" using e row by (cases "i = eid_node eid") auto
  qed (simp add: e(4))
qed

lemma reserve_heat:
  assumes "reserve nodes path t n sample = Some nodes'"
  shows "heat nodes' = heat nodes"
proof -
  from assms obtain cursor where r: "fold_run (reserve_edge t n sample) path (nodes, t * FIXED_ONE) = Some (nodes', cursor)"
    by (auto simp: reserve_def bind_eq_Some_conv)
  have "heat (fst (nodes', cursor)) = heat nodes"
    using r
  proof (rule fold_run_inv [where I = "\<lambda>st. heat (fst st) = heat nodes"])
    fix x s s' assume "heat (fst s) = heat nodes" "reserve_edge t n sample x s = Some s'"
    then show "heat (fst s') = heat nodes"
      by (auto simp: reserve_edge_def bind_eq_Some_conv Let_def split: prod.splits dest: update_edge_heat)
  qed simp
  then show ?thesis by simp
qed

lemma build_route_plan_heat:
  assumes "build_route_plan p t n sample = Some (r, p')"
  shows "heat (planner_nodes p') = heat (planner_nodes p)"
  using assms reserve_heat
  by (fastforce simp: build_route_plan_def bind_eq_Some_conv Let_def split: if_splits option.splits)

lemma plan_first_free:
  assumes "table_wf (planner_nodes p)" "build_route_plan p t n sample = Some (Some plan, p')" "index_run plan 0 = Some ch"
  shows "ch \<in> free_channels (planner_nodes p) t"
proof -
  from build_route_plan_ok [OF assms(1), of t n sample] assms(2) obtain path where
    p: "plan = map (\<lambda>eid. channel_id (get_edge (planner_nodes p) eid)) path" "path_from (planner_nodes p) t 0 path (length (planner_nodes p) - 1)" by auto
  then obtain eid rest where "path = eid # rest" using assms(3) by (cases path) (auto simp: index_run_def)
  with p assms(3) show ?thesis
    by (auto simp: allowed_edge_def valid_edge_def get_edge_def free_channels_def index_run_def)
qed

lemma note_local_send_failure_free:
  assumes "table_wf (planner_nodes p)" "channels_distinct (planner_nodes p)" "unat t + 200 < 2 ^ 64"
    and "note_local_send_failure p ch t = Some p'"
  shows "free_channels (planner_nodes p') t = free_channels (planner_nodes p) t - {ch}"
proof -
  let ?nodes = "planner_nodes p"
  from assms(4) obtain edge e' where e: "0 < length ?nodes" "position (\<lambda>e. channel_id e = ch) (?nodes ! 0) = Some edge" "edge < length (?nodes ! 0)"
    "planner_nodes p' = ?nodes[0 := (?nodes ! 0)[edge := e']]" "channel_id e' = channel_id (?nodes ! 0 ! edge)"
    "cooldown_until e' = t + retry_delay_ms (?nodes ! 0 ! edge)"
    by (auto simp: note_local_send_failure_def update_edge_def bind_eq_Some_conv index_run_Some_iff update_run_Some_iff Let_def split: if_splits)
  let ?es = "?nodes ! 0" and ?d = "retry_delay_ms (?nodes ! 0 ! edge)"
  have c: "channel_id (?es ! edge) = ch" using position_SomeD [OF e(2)] by simp
  have "edge_wf (length ?nodes) 0 (?es ! edge)" using assms(1) e(1,3) unfolding table_wf_def by (meson nth_mem)
  then have d: "50 \<le> ?d" "?d \<le> 200" by (simp_all add: edge_wf_def)
  then have d': "50 \<le> unat ?d" "unat ?d \<le> 200" by (simp_all add: word_le_nat_alt)
  then have "unat (t + ?d) = unat t + unat ?d" using assms(3) by (simp add: unat_add_lem [symmetric])
  then have hot: "\<not> cooldown_until e' \<le> t" using d' e(6) by (simp add: word_le_nat_alt)
  have row: "planner_nodes p' ! 0 = ?es[edge := e']" using e(1,4) by simp
  have dist: "distinct (map channel_id ?es)" using assms(2) e(1) unfolding channels_distinct_def by (meson nth_mem)
  have other: "x = edge" if "x < length ?es" "channel_id (?es ! x) = ch" for x
    using dist that e(3) c by (metis length_map nth_eq_iff_index_eq nth_map)
  have new: "x \<in> set (?es[edge := e']) \<longleftrightarrow> x = e' \<or> (\<exists>i < length ?es. i \<noteq> edge \<and> x = ?es ! i)" for x
    using e(3) by (auto simp: in_set_conv_nth nth_list_update)
  show ?thesis
    unfolding free_channels_def row
  proof (intro set_eqI iffI)
    fix z assume "z \<in> {ch. \<exists>x \<in> set (?es[edge := e']). channel_id x = ch \<and> cooldown_until x \<le> t}"
    then obtain i where "i < length ?es" "i \<noteq> edge" "channel_id (?es ! i) = z" "cooldown_until (?es ! i) \<le> t" using hot new by auto
    then show "z \<in> {ch. \<exists>e \<in> set ?es. channel_id e = ch \<and> cooldown_until e \<le> t} - {ch}" using other nth_mem by blast
  next
    fix z assume "z \<in> {ch. \<exists>e \<in> set ?es. channel_id e = ch \<and> cooldown_until e \<le> t} - {ch}"
    then obtain i where "i < length ?es" "channel_id (?es ! i) = z" "cooldown_until (?es ! i) \<le> t" "z \<noteq> ch" by (auto simp: in_set_conv_nth)
    then show "z \<in> {ch. \<exists>x \<in> set (?es[edge := e']). channel_id x = ch \<and> cooldown_until x \<le> t}"
      using new c by (intro CollectI bexI [of _ "?es ! i"]) auto
  qed
qed

lemma heat_frame [simp]:
  "ep_route_planner (count_sent core t r) = ep_route_planner core" "ep_heat (count_sent core t r) = ep_heat core"
  "ep_heat (set_session c s core) = ep_heat core" "ep_heat (drop_session c core) = ep_heat core" "ep_heat (count_dropped core) = ep_heat core"
  "ep_heat (bury_session c t core) = ep_heat core"
  by (simp_all add: ep_heat_def count_sent_def Let_def set_session_def drop_session_def count_dropped_def bury_session_def)

lemma note_sample_heat: "note_sample cr core t stamp plan = Some core' \<Longrightarrow> ep_route_planner core' = ep_route_planner core"
  by (auto simp: note_sample_def Let_def split: prod.splits if_splits)

lemma emit_envelope_heat:
  assumes "emit_envelope cr core t stamp body sample plan actions = Some (core', actions')"
  shows "ep_route_planner core' = ep_route_planner core \<and> (\<exists>ch bs. actions' = actions @ [SendTransportPacket ch bs] \<and> index_run plan 0 = Some ch)"
  using assms
proof (cases rule: emit_envelopeE)
  case (1 ch rest r random1 available bs random2)
  have "ep_route_planner core' = ep_route_planner core" using 1(6) note_sample_heat [of cr "count_sent core t random2" t stamp plan core']
    by (auto split: if_splits)
  then show ?thesis using 1(1,7) by (simp add: index_run_def)
qed

lemma send_envelope_heat:
  assumes "send_envelope cr core t stamp body sample actions = Some (core', actions')"
  shows "ep_heat core' = ep_heat core"
    "actions' = actions \<or> (\<exists>ch bs. actions' = actions @ [SendTransportPacket ch bs] \<and> (routes_ok core \<longrightarrow> ch \<in> ep_free core t))"
proof -
  from assms obtain plan planner where p: "build_route_plan (ep_route_planner core) t (length body + ep_scheduled_packet_overhead core) sample = Some (plan, planner)"
    and e: "(case plan of None \<Rightarrow> Some (core\<lparr>ep_route_planner := planner\<rparr>, actions)
       | Some full \<Rightarrow> emit_envelope cr (core\<lparr>ep_route_planner := planner\<rparr>) t stamp body sample full actions) = Some (core', actions')"
    by (auto simp: send_envelope_def bind_eq_Some_conv Let_def)
  note h = build_route_plan_heat [OF p]
  show "ep_heat core' = ep_heat core"
    using e h emit_envelope_heat by (cases plan) (fastforce simp: ep_heat_def)+
  show "actions' = actions \<or> (\<exists>ch bs. actions' = actions @ [SendTransportPacket ch bs] \<and> (routes_ok core \<longrightarrow> ch \<in> ep_free core t))"
  proof (cases plan)
    case (Some full)
    with e emit_envelope_heat obtain ch bs where "actions' = actions @ [SendTransportPacket ch bs]" "index_run full 0 = Some ch" by fastforce
    then show ?thesis using plan_first_free [OF _ p [unfolded Some]] by (auto simp: ep_free_def routes_ok_def)
  qed (use e in simp)
qed

lemma next_sequence_heat: "next_sequence cr core = (r, core') \<Longrightarrow> ep_heat core' = ep_heat core"
  by (auto simp: next_sequence_def Let_def ep_heat_def split: if_splits prod.splits)

lemma send_endpoint_message_heat:
  assumes "send_endpoint_message cr core t msg sample actions = Some (core', actions')"
  shows "ep_heat core' = ep_heat core \<and> (\<exists>new. actions' = actions @ new \<and> list_all not_write new)"
proof -
  obtain r core1 where n: "next_sequence cr core = (r, core1)" by fastforce
  with assms obtain stamp body where s: "send_envelope cr core1 t stamp body sample actions = Some (core', actions')"
    by (auto simp: send_endpoint_message_def Let_def split: prod.splits)
  from send_envelope_heat [OF s] next_sequence_heat [OF n] show ?thesis by auto
qed

lemma send_kcp_packets_heat:
  assumes "send_kcp_packets cr core t packets actions = Some (core', actions')"
  shows "ep_heat core' = ep_heat core \<and> (\<exists>new. actions' = actions @ new \<and> list_all not_write new)"
proof -
  have "ep_heat (fst (core', actions')) = ep_heat core \<and> (\<exists>new. snd (core', actions') = actions @ new \<and> list_all not_write new)"
    using assms unfolding send_kcp_packets_def
  proof (rule fold_run_inv [where I = "\<lambda>st. ep_heat (fst st) = ep_heat core \<and> (\<exists>new. snd st = actions @ new \<and> list_all not_write new)"])
    fix x s s' assume I: "ep_heat (fst s) = ep_heat core \<and> (\<exists>new. snd s = actions @ new \<and> list_all not_write new)" and r: "send_kcp_packet cr t x s = Some s'"
    then obtain core1 actions1 msg sample where "s = (core1, actions1)" "send_endpoint_message cr core1 t msg sample actions1 = Some (fst s', snd s')"
      by (cases s) (auto simp: send_kcp_packet_def Let_def)
    from this(1) send_endpoint_message_heat [OF this(2)] I show "ep_heat (fst s') = ep_heat core \<and> (\<exists>new. snd s' = actions @ new \<and> list_all not_write new)"
      by auto
  qed simp
  then show ?thesis by simp
qed

lemma finish_closed_session_heat:
  assumes "finish_closed_session core t c actions = Some (core', actions')"
  shows "ep_heat core' = ep_heat core \<and> (\<exists>new. actions' = actions @ new \<and> list_all not_write new)"
  using assms by (auto simp: finish_closed_session_def Let_def bind_eq_Some_conv split: option.splits if_splits)

lemma session_write_heat:
  assumes "session_write cr core t c bs [] = Some (core', actions, r)"
  shows "ep_heat core' = ep_heat core \<and> list_all not_write actions"
proof -
  from assms have "core' = core \<and> actions = [] \<or> send_session_message cr core t c (SessionMessage_Data bs) [] = Some (core', actions)"
    by (auto simp: session_write_def Let_def bind_eq_Some_conv split: if_splits)
  then show ?thesis
  proof
    assume "send_session_message cr core t c (SessionMessage_Data bs) [] = Some (core', actions)"
    then obtain s packets s' core1 actions1 where "send_kcp_packets cr (set_session c s' core) t packets [] = Some (core1, actions1)"
      "finish_closed_session core1 t c actions1 = Some (core', actions)"
      by (auto simp: send_session_message_def bind_eq_Some_conv)
    from send_kcp_packets_heat [OF this(1)] finish_closed_session_heat [OF this(2)] show ?thesis by auto
  qed simp
qed

lemma retry_failed_sendE:
  assumes "retry_failed_send cr core t ch bs actions = Some st'"
  obtains m planner pid due where "note_local_send_failure (ep_route_planner core) ch t = Some planner"
    "st' = (core\<lparr>ep_metrics := m, ep_route_planner := planner, ep_outstanding := bt_remove pid (ep_outstanding core), ep_next_feedback_at := due\<rparr>, actions) \<or>
     (\<exists>stamp body sample. send_envelope cr (core\<lparr>ep_metrics := m, ep_route_planner := planner,
          ep_outstanding := bt_remove pid (ep_outstanding core), ep_next_feedback_at := due\<rparr>) t stamp body sample actions = Some st')"
  using assms
  by (fastforce simp: retry_failed_send_def Let_def split: Option.bind_splits EndpointMessage.splits simp del: not_None_eq)

lemma retry_failed_send_heat:
  assumes "routes_ok core" "unat t + 200 < 2 ^ 64" "retry_failed_send cr core t ch bs [] = Some (core', actions)"
  shows "ep_free core' t = ep_free core t - {ch} \<and> (actions = [] \<or> (\<exists>ch' bs'. actions = [SendTransportPacket ch' bs'] \<and> ch' \<in> ep_free core' t))"
proof -
  let ?core = "\<lambda>m planner pid due. core\<lparr>ep_metrics := m, ep_route_planner := planner, ep_outstanding := bt_remove pid (ep_outstanding core), ep_next_feedback_at := due\<rparr>"
  obtain m planner pid due where p: "note_local_send_failure (ep_route_planner core) ch t = Some planner" and
    c: "(core', actions) = (?core m planner pid due, []) \<or>
     (\<exists>stamp body sample. send_envelope cr (?core m planner pid due) t stamp body sample [] = Some (core', actions))"
    using assms(3) by (rule retry_failed_sendE)
  define core1 where "core1 = ?core m planner pid due"
  have pl: "ep_route_planner core1 = planner" by (simp add: core1_def)
  have wf: "table_wf (planner_nodes (ep_route_planner core))" "channels_distinct (planner_nodes (ep_route_planner core))"
    using assms(1) by (simp_all add: routes_ok_def)
  have keeps: "keeps_edges (planner_nodes (ep_route_planner core)) (planner_nodes planner)" by (rule note_local_send_failure_keeps [OF p])
  then have top: "topology (planner_nodes planner) = topology (planner_nodes (ep_route_planner core))" "table_wf (planner_nodes planner)"
    using wf(1) by (simp_all add: keeps_edges_def)
  then have r1: "routes_ok core1" unfolding routes_ok_def pl using topology_channels [OF top(1)] wf(2) by blast
  have free1: "ep_free core1 t = ep_free core t - {ch}"
    unfolding ep_free_def pl by (rule note_local_send_failure_free [OF wf assms(2) p])
  have ne: "planner_nodes (ep_route_planner core1) \<noteq> []" using r1 by (simp add: routes_ok_def table_wf_def)
  from c [folded core1_def] show ?thesis
  proof (elim disjE exE)
    assume "(core', actions) = (core1, [])"
    then show ?thesis using free1 by simp
  next
    fix stamp body sample
    assume s: "send_envelope cr core1 t stamp body sample [] = Some (core', actions)"
    have f: "ep_free core' t = ep_free core1 t"
      unfolding ep_free_def by (rule heat_free [OF send_envelope_heat(1) [OF s, unfolded ep_heat_def] ne])
    from send_envelope_heat(2) [OF s] r1 show ?thesis unfolding f free1 [symmetric] by auto
  qed
qed

subsection \<open>Sane networks\<close>

lemma nodes_sane_set: "nodes_sane s \<Longrightarrow> (\<And>e. x = SimEndpoint e \<Longrightarrow> route_sane (en_config e)) \<Longrightarrow> nodes_sane (set_node n x s)"
  by (auto simp: nodes_sane_def)

lemma nodes_sane_same: "nodes_sane s \<Longrightarrow> ts_nodes s' = ts_nodes s \<Longrightarrow> nodes_sane s'"
  by (simp add: nodes_sane_def)

lemma nodes_sane_get: "nodes_sane s \<Longrightarrow> map_of (ts_nodes s) n = Some (SimEndpoint e) \<Longrightarrow> route_sane (en_config e)"
  by (auto simp: nodes_sane_def)

lemma nodes_sane_update:
  "nodes_sane s \<Longrightarrow> map_of (ts_nodes s) n = Some (SimEndpoint e) \<Longrightarrow> ec_route (en_config e') = ec_route (en_config e) \<Longrightarrow>
     nodes_sane (set_node n (SimEndpoint e') s)"
  "nodes_sane s \<Longrightarrow> nodes_sane (set_node n (SimRelay r) s)"
  by (auto simp: nodes_sane_def route_sane_def)

lemma begin_event_cases:
  assumes "begin_event cr h s n ev = Some (s', work)"
  obtains (gone) "map_of (ts_nodes s) n = None" "s' = s" "work = []"
  | (endpoint) e core actions r where "map_of (ts_nodes s) n = Some (SimEndpoint e)"
      "endpoint_handle_event cr (en_core e) (shell_elapsed s n) ev [] = Some (core, actions, r)"
      "s' = set_node n (SimEndpoint (e\<lparr>en_core := core\<rparr>)) s" "work = node_actions n actions"
  | (relay) rn core actions r where "map_of (ts_nodes s) n = Some (SimRelay rn)"
      "relay_handle_event cr h (rn_core rn) (shell_elapsed s n) ev [] = Some (core, actions, r)"
      "s' = set_node n (SimRelay (rn\<lparr>rn_core := core\<rparr>)) s" "work = node_actions n actions"
proof (cases "map_of (ts_nodes s) n")
  case None
  with assms show ?thesis by (intro gone) (simp_all add: begin_event_def)
next
  case (Some node)
  show ?thesis
  proof (cases node)
    case (SimEndpoint e)
    with assms Some show ?thesis using endpoint [of e] by (auto simp: begin_event_def split: Option.bind_splits)
  next
    case (SimRelay rn)
    with assms Some show ?thesis using relay [of rn] by (auto simp: begin_event_def split: Option.bind_splits)
  qed
qed

lemma begin_event_sane: "nodes_sane s \<Longrightarrow> begin_event cr h s n ev = Some (s', work) \<Longrightarrow> nodes_sane s'"
  by (erule begin_event_cases) (auto intro: nodes_sane_update)

lemma send_sane:
  assumes "nodes_sane s" "send_transport cr h s n ch bs = Some (s', work)"
  shows "nodes_sane s'"
  using assms(2)
proof (cases rule: send_transport_cases)
  case (failed s1)
  have "nodes_sane (count_dropped_packets 1 s1)" by (rule nodes_sane_same [OF assms(1)]) (simp add: failed)
  then show ?thesis using begin_event_sane failed(5) by (auto simp: transport_send_failed_def)
next
  case (lost s1)
  then show ?thesis using nodes_sane_same [OF assms(1)] by simp
next
  case (queued s1 link)
  then show ?thesis using nodes_sane_same [OF assms(1)] by simp
qed

lemma restart_sane:
  assumes "nodes_sane s" "restart_node cr s n = Some s'"
  shows "nodes_sane s'"
proof (cases "map_of (ts_nodes s) n")
  case (Some node)
  then show ?thesis
  proof (cases node)
    case (SimEndpoint e)
    with assms(2) Some obtain e' where "s' = set_node n (SimEndpoint e') s" "ec_route (en_config e') = ec_route (en_config e)"
      by (auto simp: restart_node_def Let_def bind_eq_Some_conv)
    with assms(1) Some SimEndpoint show ?thesis by (simp add: nodes_sane_update)
  next
    case (SimRelay r)
    with assms(2) Some obtain r' where "s' = set_node n (SimRelay r') s" by (auto simp: restart_node_def Let_def bind_eq_Some_conv)
    then show ?thesis by (simp add: nodes_sane_update(2) [OF assms(1)])
  qed
qed (use assms in \<open>simp add: restart_node_def\<close>)

lemma setup_sane:
  assumes "nodes_sane s" "is_setup x" "op_sane x" "sim_do cr h x s = Some s'"
  shows "nodes_sane s'"
proof (cases x)
  case (Restart_node n)
  then show ?thesis using assms restart_sane by simp
next
  case (Add_endpoint n config echo)
  with assms(4) obtain core where "s' = set_node n (SimEndpoint \<lparr>en_core = core, en_config = config, en_started_at_sim_ms = ts_now_ms s,
       en_sessions = [], en_echo_exit = echo, en_blocked_writes = []\<rparr>) s" by (auto simp: add_endpoint_def bind_eq_Some_conv)
  then show ?thesis using Add_endpoint assms(3) by (auto intro!: nodes_sane_set [OF assms(1)])
next
  case (Add_relay n config)
  then show ?thesis using assms by (auto simp: add_relay_def intro: nodes_sane_set)
next
  case (Add_link link)
  then show ?thesis using assms by (auto simp: add_link_def intro: nodes_sane_same)
next
  case (Drop_queued n ch)
  then show ?thesis using assms by (auto simp: drop_queued_from_def Let_def intro: nodes_sane_same)
next
  case (Replay_last n ch)
  then show ?thesis using assms by (auto simp: replay_last_packet_def split: option.splits intro: nodes_sane_same)
qed (use assms(2) in simp_all)

interpretation sr: shell_invariant cr h nodes_sane op_sane for cr h
proof
  show "nodes_sane shell_new" by (simp add: nodes_sane_def shell_new_def)
  show "nodes_sane s \<Longrightarrow> is_setup x \<Longrightarrow> op_sane x \<Longrightarrow> sim_do cr h x s = Some s' \<Longrightarrow> nodes_sane s'" for s x s'
    by (rule setup_sane)
  show "nodes_sane s \<Longrightarrow> send_transport cr h s n ch bs = Some (s', work) \<Longrightarrow> nodes_sane s'" for s n ch bs s' work
    by (rule send_sane)
  show "nodes_sane s \<Longrightarrow> take_packet s i = Some (packet, s') \<Longrightarrow> nodes_sane s'" for s i packet s'
    by (auto simp: take_packet_def Let_def bind_eq_Some_conv intro: nodes_sane_same)
qed (auto simp: advance_to_poll_def intro: nodes_sane_same nodes_sane_update)

lemma node_routes_ok:
  assumes "node_ok cr (SimEndpoint e)" "route_sane (en_config e)"
  shows "routes_ok (en_core e)"
proof -
  from assms(1) obtain core0 xs es where r: "endpoint_new cr (en_config e) = Some core0" "endpoint_run cr xs core0 = Some (en_core e, es)" by auto
  note start = endpoint_new_start [OF r(1)]
  have "ep_static (en_core e) = ep_static core0" "ep_net_ok (en_core e)" using endpoint_run_path [OF r(2)] start(6) by (simp_all add: ep_path_def)
  then have "planner_reach (ec_route (en_config e)) (ep_route_planner (en_core e))"
    using start(5) by (simp add: ep_net_ok_def ep_static_def)
  with assms(2) show ?thesis using planner_reach_static [of "ec_route (en_config e)" "ep_route_planner (en_core e)"]
      topology_channels [of "planner_nodes (ep_route_planner (en_core e))" "planner_nodes (planner_new (ec_route (en_config e)))"]
    by (simp add: routes_ok_def route_sane_def)
qed

subsection \<open>The order of pending work\<close>

lemma settled: "settles cr h s []"
  by (simp add: settles_def handle_actions.simps [of cr h s "[]"])

lemma panicked: "perform_action cr h s x = None \<Longrightarrow> settles cr h s (x # w)"
  unfolding settles_def using work_here by blast

lemma performed:
  assumes "perform_action cr h s x = Some (s', fresh)" "settles cr h s' (fresh @ w)"
  shows "settles cr h s (x # w)"
proof -
  have "handle_actions cr h s (x # w) = handle_actions cr h s' (fresh @ w)"
    using assms(1) by (simp add: handle_actions.simps [of cr h s "x # w"])
  with assms(2) work_on [OF assms(1)] show ?thesis unfolding settles_def by metis
qed

lemma same_free_total: "same_free s s' \<Longrightarrow> free_total s' = free_total s"
  by (simp add: same_free_def free_total_def)

lemma same_free_stale: "same_free s s' \<Longrightarrow> stale s' = stale s"
proof
  fix x assume "same_free s s'"
  then show "stale s' x = stale s x" by (cases "(s, x)" rule: stale.cases) (simp_all add: same_free_def)
qed

lemma same_free_stales: "same_free s s' \<Longrightarrow> stales s' w = stales s w"
  by (simp add: stales_def same_free_stale)

lemma same_free_nodes: "ts_nodes s' = ts_nodes s \<Longrightarrow> ts_now_ms s' = ts_now_ms s \<Longrightarrow> same_free s s'"
  by (simp add: same_free_def node_free_def shell_elapsed_def split: option.splits SimNode.splits)

lemma elapsed_set_node:
  assumes "map_of (ts_nodes s) n = Some x" "node_started y = node_started x"
  shows "shell_elapsed (set_node n y s) m = shell_elapsed s m"
  using assms by (auto simp: shell_elapsed_def split: option.splits)

lemma same_free_endpoint:
  assumes "map_of (ts_nodes s) n = Some (SimEndpoint e)" "en_started_at_sim_ms e' = en_started_at_sim_ms e"
    and "ep_free (en_core e') (shell_elapsed s n) = ep_free (en_core e) (shell_elapsed s n)"
  shows "same_free s (set_node n (SimEndpoint e') s)"
proof -
  have "shell_elapsed (set_node n (SimEndpoint e') s) m = shell_elapsed s m" for m
    by (rule elapsed_set_node [OF assms(1)]) (simp add: assms(2))
  then show ?thesis using assms by (auto simp: same_free_def node_free_def split: option.splits SimNode.splits)
qed

lemma same_free_relay:
  assumes "map_of (ts_nodes s) n = Some (SimRelay r)" "rn_started_at_sim_ms r' = rn_started_at_sim_ms r"
  shows "same_free s (set_node n (SimRelay r') s)"
proof -
  have "shell_elapsed (set_node n (SimRelay r') s) m = shell_elapsed s m" for m
    by (rule elapsed_set_node [OF assms(1)]) (simp add: assms(2))
  then show ?thesis using assms by (auto simp: same_free_def node_free_def split: option.splits SimNode.splits)
qed

lemma same_free_trans: "same_free s s1 \<Longrightarrow> same_free s1 s2 \<Longrightarrow> same_free s s2"
  by (simp add: same_free_def)

lemma same_free_refl [simp]: "same_free s s"
  by (simp add: same_free_def)

lemma same_free_entries: "same_free s (open_entry s n c)" "same_free s (close_entry s n c)"
  by (auto simp: open_entry_def close_entry_def split: option.splits SimNode.splits intro!: same_free_endpoint)

lemma work_drop:
  assumes "same_free s s'"
  shows "((s', w), s, x # w) \<in> work_order"
proof -
  have "writes w \<le> writes (x # w)" "stales s' w \<le> stales s (x # w)" "free_total s' = free_total s"
    using same_free_stales [OF assms, of w] same_free_total [OF assms] by (simp_all add: writes_def stales_def)
  then show ?thesis by (auto simp: work_order_def)
qed

lemma work_write:
  assumes "list_all not_write actions"
  shows "((s', node_actions n actions @ w), s, (n, WriteSession c bs) # w) \<in> work_order"
proof -
  have "writes (node_actions n actions) = 0"
    using assms by (auto simp: writes_def node_actions_def list_all_iff filter_empty_conv)
  then show ?thesis by (simp add: work_order_def writes_def)
qed

lemma free_total_less:
  assumes "map_of (ts_nodes s) n = Some (SimEndpoint e)" "en_started_at_sim_ms e' = en_started_at_sim_ms e"
    and "ep_free (en_core e') (shell_elapsed s n) = ep_free (en_core e) (shell_elapsed s n) - {ch}" "ch \<in> node_free s n"
  shows "free_total (set_node n (SimEndpoint e') s) < free_total s"
proof -
  let ?s = "set_node n (SimEndpoint e') s" and ?d = "dom (map_of (ts_nodes s))"
  have el: "shell_elapsed ?s m = shell_elapsed s m" for m by (rule elapsed_set_node [OF assms(1)]) (simp add: assms(2))
  have here: "node_free ?s n = node_free s n - {ch}" using assms(1,3) el [of n] by (simp add: node_free_def)
  have there: "node_free ?s m = node_free s m" if "m \<noteq> n" for m using that el [of m] by (simp add: node_free_def split: option.splits SimNode.splits)
  have "finite (node_free s n)" using assms(1) by (simp add: node_free_def)
  then have less: "card (node_free ?s n) < card (node_free s n)" unfolding here using assms(4) by (rule card_Diff1_less)
  have d: "dom (map_of (ts_nodes ?s)) = ?d" "n \<in> ?d" "finite ?d" using assms(1) by (auto simp: finite_dom_map_of)
  have "\<forall>m \<in> ?d. card (node_free ?s m) \<le> card (node_free s m)" using there less by (metis le_refl less_imp_le)
  moreover have "\<exists>m \<in> ?d. card (node_free ?s m) < card (node_free s m)" using less d(2) by blast
  ultimately show ?thesis unfolding free_total_def d(1) by (rule sum_strict_mono_ex1 [OF d(3)])
qed

lemma send_failed_order:
  assumes "routes_ok (en_core e)" "unat (shell_elapsed s n) + 200 < 2 ^ 64" "map_of (ts_nodes s) n = Some (SimEndpoint e)"
    and "retry_failed_send cr (en_core e) (shell_elapsed s n) ch bs [] = Some (core, actions)"
  shows "((set_node n (SimEndpoint (e\<lparr>en_core := core\<rparr>)) s, node_actions n actions @ w), s, (n, SendTransportPacket ch bs) # w) \<in> work_order"
proof -
  let ?t = "shell_elapsed s n" and ?s = "set_node n (SimEndpoint (e\<lparr>en_core := core\<rparr>)) s"
  have r: "ep_free core ?t = ep_free (en_core e) ?t - {ch}" "actions = [] \<or> (\<exists>ch' bs'. actions = [SendTransportPacket ch' bs'] \<and> ch' \<in> ep_free core ?t)"
    using retry_failed_send_heat [OF assms(1,2,4)] by auto
  have w: "writes (node_actions n actions @ w) = writes ((n, SendTransportPacket ch bs) # w)"
    using r(2) by (auto simp: writes_def node_actions_def)
  show ?thesis
  proof (cases "ch \<in> node_free s n")
    case True
    have "free_total ?s < free_total s" by (rule free_total_less [OF assms(3) _ _ True]) (simp_all add: r(1))
    with w show ?thesis by (simp add: work_order_def)
  next
    case False
    then have same: "same_free s ?s" using assms(3) r(1) by (intro same_free_endpoint) (auto simp: node_free_def)
    have "node_free ?s n = ep_free core ?t" using elapsed_set_node [OF assms(3), of "SimEndpoint (e\<lparr>en_core := core\<rparr>)" n] by (simp add: node_free_def)
    then have "stales ?s (node_actions n actions) = 0" using r(2) by (auto simp: stales_def node_actions_def)
    moreover have "stales s ((n, SendTransportPacket ch bs) # w) = 1 + stales s w" using False by (simp add: stales_def)
    ultimately have "stales ?s (node_actions n actions @ w) < stales s ((n, SendTransportPacket ch bs) # w)"
      using same_free_stales [OF same, of w] by (simp add: stales_def)
    with w same_free_total [OF same] show ?thesis by (simp add: work_order_def)
  qed
qed

lemma elapsed_le: "shell_elapsed s n \<le> ts_now_ms s"
proof (cases "map_of (ts_nodes s) n")
  case (Some x)
  have "unat (ts_now_ms s - node_started x) \<le> unat (ts_now_ms s)" if "node_started x \<le> ts_now_ms s"
    using that by (simp add: unat_sub)
  then show ?thesis using Some by (simp add: shell_elapsed_def saturating_sub_def word_le_nat_alt)
qed (simp add: shell_elapsed_def)

lemma calm_elapsed: "calm cr s \<Longrightarrow> unat (shell_elapsed s n) + 200 < 2 ^ 64"
  using elapsed_le [of s n] by (simp add: calm_def word_le_nat_alt)

lemma calm_routes: "calm cr s \<Longrightarrow> map_of (ts_nodes s) n = Some (SimEndpoint e) \<Longrightarrow> routes_ok (en_core e)"
  using node_routes_ok nodes_ok_get nodes_sane_get unfolding calm_def by blast

lemma begin_session_write_frame:
  assumes "begin_session_write cr s n c bs = Some (ok, s', work)"
  shows "ts_now_ms s' = ts_now_ms s" "\<exists>actions. work = node_actions n actions \<and> list_all not_write actions"
proof -
  from assms obtain e where n: "map_of (ts_nodes s) n = Some (SimEndpoint e)"
    by (auto simp: begin_session_write_def split: option.splits SimNode.splits)
  with assms obtain core actions r b where e: "session_write cr (en_core e) (shell_elapsed s n) c bs [] = Some (core, actions, r)"
    "s' = set_node n (SimEndpoint (e\<lparr>en_core := core, en_blocked_writes := b\<rparr>)) s" "work = node_actions n actions"
    unfolding begin_session_write_def by (auto simp: Let_def split: Option.bind_splits if_splits)
  from session_write_heat [OF e(1)] e(2,3) show "ts_now_ms s' = ts_now_ms s" "\<exists>actions. work = node_actions n actions \<and> list_all not_write actions" by auto
qed

lemma write_session_frame:
  assumes "write_session cr s n c bs = Some (s', work)"
  shows "ts_now_ms s' = ts_now_ms s" "\<exists>actions. work = node_actions n actions \<and> list_all not_write actions"
proof -
  obtain echo s1 where s1: "store_bytes s n c bs = (echo, s1)" by fastforce
  then have now: "ts_now_ms s1 = ts_now_ms s" by (auto simp: store_bytes_def Let_def split: option.splits SimNode.splits)
  have none: "[] = node_actions n []" "list_all not_write []" by (simp_all add: node_actions_def)
  have "ts_now_ms s' = ts_now_ms s \<and> (\<exists>actions. work = node_actions n actions \<and> list_all not_write actions)"
  proof (cases echo)
    case True
    with assms s1 obtain ok where "begin_session_write cr s1 n c bs = Some (ok, s', work)"
      by (auto simp: write_session_def bind_eq_Some_conv)
    from begin_session_write_frame [OF this] now show ?thesis by simp
  next
    case False
    with assms s1 now none show ?thesis by (auto simp: write_session_def Let_def)
  qed
  then show "ts_now_ms s' = ts_now_ms s" "\<exists>actions. work = node_actions n actions \<and> list_all not_write actions" by simp_all
qed

lemma send_transport_order:
  assumes "calm cr s" "send_transport cr h s n ch bs = Some (s', fresh)"
  shows "ts_now_ms s' = ts_now_ms s \<and> ((s', fresh @ w), s, (n, SendTransportPacket ch bs) # w) \<in> work_order"
  using assms(2)
proof (cases rule: send_transport_cases)
  case (lost s1)
  then show ?thesis using work_drop [OF same_free_nodes] by simp
next
  case (queued s1 link)
  then show ?thesis using work_drop [OF same_free_nodes] by simp
next
  case (failed s1)
  let ?s = "count_dropped_packets 1 s1"
  have same: "same_free s ?s" using failed(1,3) by (simp add: same_free_nodes)
  have calm: "calm cr ?s" using assms(1) failed(1,3) nodes_ok_same [of cr s ?s] nodes_sane_same [of s ?s] by (simp add: calm_def)
  have le: "((a, v), ?s, x # w) \<in> work_order \<Longrightarrow> ((a, v), s, x # w) \<in> work_order" for a v x
    using same_free_total [OF same] same_free_stales [OF same] by (auto simp: work_order_def)
  note b = failed(5) [unfolded transport_send_failed_def]
  have now: "ts_now_ms s' = ts_now_ms s" using begin_event_frame(3) [OF b] failed(3) by simp
  from b have "((s', fresh @ w), ?s, (n, SendTransportPacket ch bs) # w) \<in> work_order"
  proof (cases rule: begin_event_cases)
    case gone
    then show ?thesis using work_drop [OF same_free_refl] by simp
  next
    case (relay rn core actions r)
    then have "actions = []" by (simp add: Let_def)
    then show ?thesis using relay work_drop [OF same_free_relay [OF relay(1)], of "rn\<lparr>rn_core := core\<rparr>"] by (simp add: node_actions_def)
  next
    case (endpoint e core actions r)
    then have "retry_failed_send cr (en_core e) (shell_elapsed ?s n) ch bs [] = Some (core, actions)" by (auto split: Option.bind_splits)
    from send_failed_order [OF calm_routes [OF calm endpoint(1)] calm_elapsed [OF calm] endpoint(1) this] endpoint(3,4)
    show ?thesis by simp
  qed
  then show ?thesis using le now by simp
qed

lemma perform_action_order:
  assumes "permutes h" "calm cr s" "perform_action cr h s x = Some (s', fresh)"
  shows "calm cr s' \<and> ((s', fresh @ w), s, x # w) \<in> work_order"
proof -
  obtain n a where x: "x = (n, a)" by fastforce
  have "ts_now_ms s' = ts_now_ms s \<and> ((s', fresh @ w), s, x # w) \<in> work_order"
  proof (cases a)
    case (SendTransportPacket ch bs)
    then show ?thesis using assms(3) send_transport_order [OF assms(2)] x by simp
  next
    case (OpenSession c)
    then have "s' = open_entry s n c" "fresh = []" using assms(3) x by simp_all
    then show ?thesis using work_drop [OF same_free_entries(1)]
      by (auto simp: open_entry_def split: option.splits SimNode.splits)
  next
    case (WriteSession c bs)
    from assms(3) have "write_session cr s n c bs = Some (s', fresh)" by (simp add: x WriteSession)
    from write_session_frame [OF this] obtain actions where "ts_now_ms s' = ts_now_ms s" "fresh = node_actions n actions" "list_all not_write actions"
      by blast
    then show ?thesis using work_write x WriteSession by simp
  next
    case (CloseSession c r)
    then have "s' = close_entry s n c" "fresh = []" using assms(3) x by simp_all
    then show ?thesis using work_drop [OF same_free_entries(2)]
      by (auto simp: close_entry_def split: option.splits SimNode.splits)
  qed
  moreover have "nodes_ok cr s'" "nodes_sane s'"
    using sn.performing [OF _ assms(3)] sr.performing [OF _ assms(3)] assms(1,2) by (simp_all add: calm_def)
  ultimately show ?thesis using assms(2) by (simp add: calm_def)
qed

lemma calm_settles:
  assumes "permutes h" "calm cr s"
  shows "settles cr h s w"
proof -
  have "wf work_order" by (simp add: work_order_def)
  then have "calm cr (fst p) \<longrightarrow> settles cr h (fst p) (snd p)" for p
  proof (induction p rule: wf_induct_rule)
    case (less p)
    obtain s w where p: "p = (s, w)" by fastforce
    show ?case
    proof
      assume c: "calm cr (fst p)"
      show "settles cr h (fst p) (snd p)"
      proof (cases w)
        case Nil
        then show ?thesis using p settled by simp
      next
        case (Cons x w')
        show ?thesis
        proof (cases "perform_action cr h s x")
          case None
          then show ?thesis using p Cons panicked by simp
        next
          case (Some r)
          obtain s' fresh where r: "r = (s', fresh)" by fastforce
          from perform_action_order [OF assms(1), of cr s x s' fresh w'] c p Some r
          have "calm cr s'" "((s', fresh @ w'), p) \<in> work_order" using Cons by simp_all
          then have "settles cr h s' (fresh @ w')" using less.IH [of "(s', fresh @ w')"] by simp
          then show ?thesis using performed [of cr h s x s' fresh w'] p Cons Some r by simp
        qed
      qed
    qed
  qed
  from this [of "(s, w)"] assms(2) show ?thesis by simp
qed

end
