(* ===== verification/Endpoint_Theorems.thy ===== *)
theory Endpoint_Theorems
  imports Endpoint_Safe
begin

section \<open>Theorems on the endpoint\<close>

text \<open>
  The properties of the endpoint core, each with an instance on a small endpoint (two nodes, one
  channel, windows of four fragments).
\<close>

subsection \<open>Definitions\<close>

definition demo_crypto :: crypto where
  "demo_crypto = null_crypto\<lparr>blake3_xof := (\<lambda>key i. 0)\<rparr>"

definition demo_config :: EndpointConfig where
  "demo_config = \<lparr>ec_envelope_key = [], ec_message_key = [], ec_random_seed = [], ec_boot_time_ms = 0,
     ec_kcp = \<lparr>kcf_send_window = 4, kcf_receive_window = 4, kcf_time_scale = 1, kcf_fast_resend = 0\<rparr>,
     ec_route = \<lparr>rcf_graph = \<lparr>rg_nodes = [\<lparr>rn_edges = [\<lparr>re_channel_id = 7, re_next = 1, re_capacity_hint_kbps = 0,
        re_latency_hint_ms = 0\<rparr>]\<rparr>, \<lparr>rn_edges = []\<rparr>]\<rparr>,
        rcf_min_mtu = 200, rcf_feedback_interval_ms = 1000, rcf_feedback_timeout_ms = 1000\<rparr>,
     ec_local_channels = [7], ec_padding_reserve = 1, ec_keepalive_interval_ms = 0\<rparr>"

definition demo_core :: EndpointCore where
  "demo_core = \<lparr>ep_config = demo_config, ep_kcp_params =
      \<lparr>kp_mtu = 134, kp_send_window = 4, kp_receive_window = 4, kp_nodelay = True, kp_fast_resend = None,
       kp_congestion_control = False, kp_time_scale = 1\<rparr>,
    ep_scheduled_packet_overhead = 49, ep_close_deadline_ms = 18000,
    ep_route_planner = \<lparr>planner_nodes =
      [[\<lparr>channel_id = 7, edge_next = 1, capacity_kbps = 50000, latency_ms = 50, virtual_free_at = 0, loss = 0,
         cooldown_until = 0, retry_delay_ms = 50, last_sampled = None, last_observation_at = None\<rparr>], []]\<rparr>,
    ep_random = \<lparr>reader_key = [], reader_pos = 16\<rparr>, ep_sequence_filter = filter_default, ep_seq_id = 0,
    ep_next_seq_no = 0, ep_next_feedback_at = 0, ep_outstanding = [], ep_next_keepalive_at = 0, ep_sessions = [],
    ep_tombstones = [], ep_next_conv_id = 0, ep_metrics = metrics_default\<rparr>"

definition demo_open :: "endpoint_op list" where
  "demo_open = [Ep_event 0 SessionOpen]"

definition demo_close :: "endpoint_op list" where
  "demo_close = [Ep_event 0 SessionOpen, Ep_event 1 (SessionClose 0 LocalClosed), Ep_poll 20000 id]"

subsection \<open>A small endpoint\<close>

lemma demo_new: "endpoint_new demo_crypto demo_config = Some demo_core"
  by (simp add: endpoint_new_def demo_core_def demo_config_def kcp_defaults_def scheduled_packet_overhead_def Let_def longest_node_def
      longest_edge_def index_run_def update_run_def upt_conv_Cons effective_transport_mtu_def usize_sub_def
      random_u64_def random_new_def null_crypto_def demo_crypto_def random_fill_def planner_new_def edge_new_def SEQUENCE_MASK_def)

lemma demo_crypto_correct: "aead_correct demo_crypto"
  using null_crypto_correct by (simp add: demo_crypto_def aead_correct_def)

lemma demo_config_ok: "config_ok demo_config"
  by (simp add: config_ok_def demo_config_def graph_ordered_def channels_distinct_def planner_new_def edge_new_def less_Suc_eq
      scheduled_packet_overhead_def longest_node_def longest_edge_def index_run_def update_run_def upt_conv_Cons
      effective_transport_mtu_def usize_sub_def Let_def)

lemma demo_open_run:
  "case endpoint_run demo_crypto demo_open demo_core of None \<Rightarrow> False
   | Some (core, es) \<Rightarrow> map_option (\<lambda>s. wait_snd (ss_kcp s)) (map_of (ep_sessions core) 0) = Some 1 \<and> length es = 2 \<and>
       (case es ! 1 of Did (SendTransportPacket ch bs) \<Rightarrow> ch = 7 | _ \<Rightarrow> False)"
  by code_simp

lemma demo_close_run:
  "case endpoint_run demo_crypto demo_close demo_core of None \<Rightarrow> False
   | Some (core, es) \<Rightarrow> ep_sessions core = [] \<and> es \<noteq> [] \<and> last es = Did (CloseSession 0 LocalClosed) \<and>
       view_run 0 (butlast es) = Some Asked"
  by code_simp

subsection \<open>Properties\<close>

lemma demo_openE:
  obtains core es s where "endpoint_run demo_crypto demo_open demo_core = Some (core, es)" "session_map core 0 = Some s"
    "wait_snd (ss_kcp s) = 1"
  using demo_open_run by (auto simp: session_map_def split: option.splits prod.splits)

lemma demo_closeE:
  obtains core es where "endpoint_run demo_crypto demo_close demo_core = Some (core, es @ [Did (CloseSession 0 LocalClosed)] @ [])"
    "session_map core = Map.empty" "view_run 0 es = Some Asked"
proof -
  from demo_close_run obtain core es where r: "endpoint_run demo_crypto demo_close demo_core = Some (core, es)"
    "ep_sessions core = []" "last es = Did (CloseSession 0 LocalClosed)" "es \<noteq> []" "view_run 0 (butlast es) = Some Asked"
    by (auto split: option.splits prod.splits)
  then have "es = butlast es @ [Did (CloseSession 0 LocalClosed)] @ []" by (metis append_butlast_last_id append_Nil2)
  with that [of core "butlast es"] r show ?thesis by (simp add: session_map_def)
qed

text \<open>C6.  Endpoint operations refine the session machine: whatever packets arrive and whatever the shell
  asks and polls, the sessions of the endpoint move along the steps of the session system, and the
  requests accepted and the actions emitted are exactly the labels of these steps, in order.\<close>

theorem endpoint_refines_sessions:
  assumes "endpoint_new cr config = Some core0" "endpoint_run cr xs core0 = Some (core, es)"
  shows "session_path (ep_kcp_params core0) (unat (kcf_send_window (kcp_defaults (ec_kcp config)))) Map.empty es (session_map core)"
  using endpoint_run_path [OF assms(2)] endpoint_new_start(1,3) [OF assms(1)] by (simp add: ep_path_def)

theorem endpoint_refines_sessions_witness:
  "\<exists>core es. endpoint_run demo_crypto demo_close demo_core = Some (core, es) \<and>
     session_path (ep_kcp_params demo_core) (unat (kcf_send_window (kcp_defaults (ec_kcp demo_config)))) Map.empty es (session_map core)"
proof -
  obtain core es where r: "endpoint_run demo_crypto demo_close demo_core = Some (core, es @ [Did (CloseSession 0 LocalClosed)] @ [])"
    by (rule demo_closeE)
  show ?thesis using r endpoint_refines_sessions [OF demo_new r] by blast
qed

text \<open>C5.  The session protocol: for every session number the endpoint is never the first to leave the
  protocol.  As long as the events of a run so far are allowed by the view automaton (open, then
  writes, then one close; after a close requested by the shell no data is delivered any more), the next
  action of the endpoint is allowed too.\<close>

theorem endpoint_keeps_protocol:
  assumes "endpoint_new cr config = Some core0" "endpoint_run cr xs core0 = Some (core, p @ [Did a] @ q)"
    and "view_run c p = Some v"
  shows "view_step c v (Did a) \<noteq> None"
proof (rule session_path_append_view [of "ep_kcp_params core0" "ep_window core0" Map.empty "p @ [Did a] @ q" "session_map core" c Idle p a q])
  show "session_path (ep_kcp_params core0) (ep_window core0) Map.empty (p @ [Did a] @ q) (session_map core)"
    using endpoint_run_path [OF assms(2)] endpoint_new_start(1) [OF assms(1)] by (simp add: ep_path_def)
qed (use assms(3) in \<open>simp_all add: view_run_def\<close>)

theorem endpoint_keeps_protocol_witness:
  "\<exists>core p. endpoint_run demo_crypto demo_close demo_core = Some (core, p @ [Did (CloseSession 0 LocalClosed)] @ []) \<and>
     view_run 0 p = Some Asked \<and> view_step 0 Asked (Did (CloseSession 0 LocalClosed)) \<noteq> None"
proof -
  obtain core p where r: "endpoint_run demo_crypto demo_close demo_core = Some (core, p @ [Did (CloseSession 0 LocalClosed)] @ [])"
    "view_run 0 p = Some Asked" by (rule demo_closeE)
  show ?thesis using r endpoint_keeps_protocol [OF demo_new r] by blast
qed

text \<open>The session invariant: in every state an endpoint reaches, each session keeps at most a send
  window of unacknowledged fragments and the parameters it was created with, a session that waits for
  its peer or closes has a deadline, one that closes locally has its reason, and one that waits for its
  peer is bound to that peer's sequence.\<close>

lemma endpoint_sessions_ok:
  assumes "endpoint_new cr config = Some core0" "endpoint_run cr xs core0 = Some (core, es)" "session_map core c = Some s"
    and "2 \<le> usize_sub (kp_mtu (ep_kcp_params core0)) KCP_OVERHEAD"
  shows "session_ok (ep_kcp_params core0) (unat (kcf_send_window (kcp_defaults (ec_kcp config)))) c s"
proof -
  note start = endpoint_new_start [OF assms(1)]
  have "session_path (ep_kcp_params core0) (ep_window core0) Map.empty es (session_map core)"
    using endpoint_run_path [OF assms(2)] start(1) by (simp add: ep_path_def)
  from session_path_ok [OF this _ start(4) assms(4)] assms(3) start(3) show ?thesis by (simp add: sessions_ok_def)
qed



text \<open>C30.  Outcomes of a write: a write to an existing session is blocked, leaving the endpoint as it
  was, exactly when its fragments do not fit the rest of the send window; otherwise it is accepted when
  the fragments are fewer than the receive window and fewer than 256, and panics when they are not.\<close>

theorem session_write_outcome:
  assumes "aead_correct cr" "config_ok config" "endpoint_new cr config = Some core0" "endpoint_run cr xs core0 = Some (core, es)"
    and "session_map core c = Some s"
    and "fragment_count (usize_sub (kp_mtu (ep_kcp_params core)) KCP_OVERHEAD) (1 + length bs) = Some n"
  shows "case endpoint_handle_event cr core t (SessionWrite c bs) actions of
      None \<Rightarrow> wait_snd (ss_kcp s) + n \<le> ep_window core \<and> (unat (kp_receive_window (ep_kcp_params core)) \<le> n \<or> 256 \<le> n)
    | Some (core', actions', r) \<Rightarrow>
        if ep_window core < wait_snd (ss_kcp s) + n then r = SessionWriteBlocked \<and> core' = core \<and> actions' = actions
        else r = EventNone \<and> n < unat (kp_receive_window (ep_kcp_params core)) \<and> n < 256"
proof -
  note good = endpoint_run_good(1) [OF assms(1-4)]
  have event: "endpoint_handle_event cr core t (SessionWrite c bs) actions = session_write cr core t c bs actions" by simp
  consider (blocked) "ep_window core < wait_snd (ss_kcp s) + n"
    | (big) "wait_snd (ss_kcp s) + n \<le> ep_window core" "unat (kp_receive_window (ep_kcp_params core)) \<le> n \<or> 256 \<le> n"
    | (fits) "wait_snd (ss_kcp s) + n \<le> ep_window core" "n < unat (kp_receive_window (ep_kcp_params core))" "n < 256"
    by linarith
  then show ?thesis
  proof cases
    case blocked
    then show ?thesis using session_write_blocks [OF assms(5) blocked assms(6)] unfolding event by simp
  next
    case big
    then show ?thesis using session_write_panics [OF good assms(5) big(1) assms(6) big(2)] unfolding event by simp
  next
    case fits
    from session_write_total [OF good assms(5,6) fits(2,3)] obtain core' actions' r where
      w: "session_write cr core t c bs actions = Some (core', actions', r)" by (metis prod.collapse)
    moreover have "r = EventNone" using w fits(1) assms(5) session_write_accepts [OF assms(5) fits(1) assms(6)] by blast
    ultimately show ?thesis using fits unfolding event by simp
  qed
qed

theorem session_write_outcome_witness:
  "\<exists>core es core' actions'. endpoint_run demo_crypto demo_open demo_core = Some (core, es) \<and>
     endpoint_handle_event demo_crypto core 5 (SessionWrite 0 (replicate 105 1)) [] = Some (core', actions', EventNone) \<and>
     endpoint_handle_event demo_crypto core 5 (SessionWrite 0 (replicate 399 1)) [] = Some (core, [], SessionWriteBlocked)"
proof -
  obtain core es s where r: "endpoint_run demo_crypto demo_open demo_core = Some (core, es)" "session_map core 0 = Some s"
    "wait_snd (ss_kcp s) = 1" by (rule demo_openE)
  have st: "ep_static core = ep_static demo_core" by (rule endpoint_run_good(2) [OF demo_crypto_correct demo_config_ok demo_new r(1)])
  then have k: "usize_sub (kp_mtu (ep_kcp_params core)) KCP_OVERHEAD = 106" "unat (kp_receive_window (ep_kcp_params core)) = 4" "ep_window core = 4"
    by (simp_all add: ep_static_def ep_window_def demo_core_def demo_config_def usize_sub_def)
  have n: "fragment_count (usize_sub (kp_mtu (ep_kcp_params core)) KCP_OVERHEAD) (1 + length (replicate 105 (1 :: u8))) = Some 1"
    "fragment_count (usize_sub (kp_mtu (ep_kcp_params core)) KCP_OVERHEAD) (1 + length (replicate 399 (1 :: u8))) = Some 4"
    unfolding k by (simp_all add: fragment_count_def)
  note w = session_write_outcome [OF demo_crypto_correct demo_config_ok demo_new r(1,2)]
  show ?thesis using w [OF n(1), where t = 5 and actions = "[]"] w [OF n(2), where t = 5 and actions = "[]"] r k by (auto split: option.splits prod.splits)
qed

text \<open>C31.  Polling ends what is overdue: with a sound configuration a poll always returns, and no
  session that is left waits or closes past its deadline, nor closes locally with everything
  acknowledged.\<close>

theorem endpoint_poll_ends_overdue:
  assumes "aead_correct cr" "config_ok config" "endpoint_new cr config = Some core0" "endpoint_run cr xs core0 = Some (core, es)"
  shows "\<exists>core' actions'. endpoint_poll cr hash_iter core t actions = Some (core', actions') \<and>
    (\<forall>c s. session_map core' c = Some s \<longrightarrow> ss_phase s = Open \<or>
       (\<exists>deadline. ss_close_deadline_at s = Some deadline \<and> t < deadline) \<and> (ss_phase s = ClosingLocal \<longrightarrow> wait_snd (ss_kcp s) \<noteq> 0))"
proof -
  note good = endpoint_run_good(1) [OF assms]
  from endpoint_poll_total [OF good, of hash_iter t actions] obtain core' actions' where
    p: "endpoint_poll cr hash_iter core t actions = Some (core', actions')" by (metis prod.collapse)
  have good': "core_good cr core'" using endpoint_poll_good [OF good p] .
  show ?thesis
  proof (intro exI conjI allI impI)
    fix c s assume s: "session_map core' c = Some s"
    have "\<not> session_done s t" by (rule endpoint_poll_done [OF p s])
    moreover have "ss_phase s \<noteq> Open \<longrightarrow> ss_close_deadline_at s \<noteq> None"
      using core_good_session(1) [OF good' s] by (simp add: session_ok_def)
    ultimately show "ss_phase s = Open \<or> (\<exists>deadline. ss_close_deadline_at s = Some deadline \<and> t < deadline) \<and>
        (ss_phase s = ClosingLocal \<longrightarrow> wait_snd (ss_kcp s) \<noteq> 0)"
      by (cases "ss_phase s") (auto simp: session_done_def deadline_hit_def)
  qed (rule p)
qed

theorem endpoint_poll_ends_overdue_witness:
  "\<exists>core es core' actions'. endpoint_run demo_crypto demo_open demo_core = Some (core, es) \<and>
     endpoint_poll demo_crypto id core 50 [] = Some (core', actions') \<and>
     (session_map core' 5 = None \<or> ss_phase (the (session_map core' 5)) = Open \<or> ss_close_deadline_at (the (session_map core' 5)) \<noteq> None)"
proof -
  obtain core es where r: "endpoint_run demo_crypto demo_open demo_core = Some (core, es)" by (rule demo_openE)
  obtain core' actions' where p: "endpoint_poll demo_crypto id core 50 [] = Some (core', actions')"
    "\<forall>c s. session_map core' c = Some s \<longrightarrow> ss_phase s = Open \<or>
       (\<exists>deadline. ss_close_deadline_at s = Some deadline \<and> 50 < deadline) \<and> (ss_phase s = ClosingLocal \<longrightarrow> wait_snd (ss_kcp s) \<noteq> 0)"
    using endpoint_poll_ends_overdue [OF demo_crypto_correct demo_config_ok demo_new r, of id 50 "[]"] by blast
  show ?thesis using r p(1) p(2) [rule_format, of 5] by (cases "session_map core' 5") auto
qed

text \<open>C8.  What an endpoint sends, its peer reads: with a sound configuration, sending a message emits
  either nothing or one packet, on the first channel of a plan of the route planner; the packet fits
  the MTU and opens to an envelope with the rest of the plan, whose payload every endpoint with the
  same message key opens to the message.\<close>

theorem endpoint_message_delivered:
  assumes "aead_correct cr" "config_ok config" "endpoint_new cr config = Some core0" "endpoint_run cr xs core0 = Some (core, es)"
    and "endpoint_message_wf msg" "length (endpoint_message_encode_with_prefix msg 0) \<le> kp_mtu (ep_kcp_params core) + 1"
    and "ec_message_key (ep_config peer) = ec_message_key config"
  shows "\<exists>core' new. send_endpoint_message cr core t msg sample actions = Some (core', actions @ new) \<and>
    (new = [] \<or> (\<exists>ch bs e. new = [SendTransportPacket ch bs] \<and>
       length bs \<le> effective_transport_mtu (rcf_min_mtu (ec_route config)) \<and>
       decode_transport_packet cr (ec_envelope_key config) bs = Some (Inr e) \<and>
       plan_built (ec_route config) (ch # env_route_plan e) \<and>
       open_endpoint_message cr peer (envelope_stamp e) (env_payload e) = Some (Some msg)))"
proof -
  note good = endpoint_run_good [OF assms(1-4)]
  have config: "ep_config core = config\<lparr>ec_kcp := kcp_defaults (ec_kcp config)\<rparr>"
    using good(2) endpoint_new_start(5) [OF assms(3)] by (simp add: ep_static_def)
  have "config_fits core" "ep_net_ok core" using good(1) by (simp_all add: core_good_def core_ready_def)
  from send_endpoint_message_ok [OF this assms(1,6), of t sample actions] obtain core' new where
    s: "send_endpoint_message cr core t msg sample actions = Some (core', actions @ new)" "sends_ok cr core msg new" by blast
  have "open_endpoint_message cr peer stamp (seal_endpoint_message cr core stamp msg) = Some (Some msg)" for stamp
    by (rule open_seal_endpoint_message [OF assms(1,5)]) (simp add: assms(7) config)
  with s show ?thesis unfolding sends_ok_def config by fastforce
qed

theorem endpoint_message_delivered_witness:
  "\<exists>core' new. send_endpoint_message demo_crypto demo_core 0 (KeepAlive 1) False [] = Some (core', [] @ new) \<and>
    (new = [] \<or> (\<exists>ch bs e. new = [SendTransportPacket ch bs] \<and>
       length bs \<le> effective_transport_mtu (rcf_min_mtu (ec_route demo_config)) \<and>
       decode_transport_packet demo_crypto (ec_envelope_key demo_config) bs = Some (Inr e) \<and>
       plan_built (ec_route demo_config) (ch # env_route_plan e) \<and>
       open_endpoint_message demo_crypto demo_core (envelope_stamp e) (env_payload e) = Some (Some (KeepAlive 1))))"
proof (rule endpoint_message_delivered [OF demo_crypto_correct demo_config_ok demo_new, of "[]" demo_core "[]"])
  show "endpoint_message_wf (KeepAlive 1)" by simp
  show "length (endpoint_message_encode_with_prefix (KeepAlive 1) 0) \<le> kp_mtu (ep_kcp_params demo_core) + 1"
    by (simp add: encode_flags_body_def demo_core_def)
qed (simp_all add: demo_core_def)

text \<open>C32.  The packet overhead the endpoint reserves: the table computed backwards over the nodes gives
  the header sizes, the padding reserve and one channel number for each hop but the first of the
  longest route through the graph.\<close>

theorem overhead_is_longest_route:
  assumes "graph_ordered (rcf_graph (ec_route config))"
  shows "\<exists>hops. longest_from (rg_nodes (rcf_graph (ec_route config))) 0 hops \<and>
    scheduled_packet_overhead config = Some ((48 + unat (ec_padding_reserve config) + usize_sub hops 1 * 2) mod 2 ^ 64)"
  by (rule scheduled_packet_overhead_spec [OF assms])

theorem overhead_is_longest_route_witness:
  "\<exists>hops. longest_from (rg_nodes (rcf_graph (ec_route demo_config))) 0 hops \<and>
    scheduled_packet_overhead demo_config = Some ((48 + unat (ec_padding_reserve demo_config) + usize_sub hops 1 * 2) mod 2 ^ 64)"
  by (rule overhead_is_longest_route) (simp add: graph_ordered_def demo_config_def less_Suc_eq)

text \<open>C7.  No packet counts twice: over a run with a clock that does not go back, that stays within half
  a time cycle and whose sum with the boot time does not overflow, of two arrivals of the same packet,
  with any operations before and between, at least one emits nothing and leaves the sessions as they
  are.\<close>

theorem endpoint_ignores_replays:
  assumes "endpoint_new cr config = Some core0"
    and sched: "ep_schedule (ec_boot_time_ms config) 0
      (pre @ Ep_event t (TransportPacketReceived ch bs) # mid @ [Ep_event t' (TransportPacketReceived ch' bs)])"
    and pre: "endpoint_run cr pre core0 = Some (core1, e1)"
    and first: "endpoint_do cr (Ep_event t (TransportPacketReceived ch bs)) core1 = Some (core2, e2)"
    and mid: "endpoint_run cr mid core2 = Some (core3, e3)"
    and second: "endpoint_do cr (Ep_event t' (TransportPacketReceived ch' bs)) core3 = Some (core4, e4)"
  shows "e2 = [] \<and> session_map core2 = session_map core1 \<or> e4 = [] \<and> session_map core4 = session_map core3"
proof -
  define boot where "boot = ec_boot_time_ms config"
  let ?x = "Ep_event t (TransportPacketReceived ch bs)" and ?x' = "Ep_event t' (TransportPacketReceived ch' bs)"
  note start = endpoint_new_start [OF assms(1)]
  have "filter_inv (ep_tick boot 0) (ep_tick boot 0, ep_sequence_filter core0)" "ec_boot_time_ms (ep_config core0) = boot"
    by (simp_all add: start filter_default_def boot_def)
  from endpoint_run_filter [OF this pre sched [folded boot_def]] obtain c1 where
    c1: "filter_inv (ep_tick boot 0) (ep_tick boot c1, ep_sequence_filter core1)" "ep_schedule boot c1 (?x # mid @ [?x'])" "ep_config core1 = ep_config core0"
    unfolding filter_goes_def by blast
  then have b1: "ec_boot_time_ms (ep_config core1) = boot" "ep_schedule boot c1 [?x]" by (simp_all add: start boot_def)
  from c1(1) b1 first show ?thesis
  proof (cases rule: ep_received_blocks)
    case ignored
    then show ?thesis by (simp add: ep_same_def)
  next
    case (accepted e)
    have b2: "ec_boot_time_ms (ep_config core2) = boot" "ep_config core2 = ep_config core1" using endpoint_do_static [OF first] b1 by simp_all
    have "ep_schedule boot t (mid @ [?x'])" using c1(2) by simp
    from endpoint_run_filter [OF accepted(2) b2(1) mid this] obtain c3 where
      c3: "filter_inv (ep_tick boot 0) (ep_tick boot c3, ep_sequence_filter core3)"
        "filter_blocked (ep_tick boot 0) (ep_tick boot c3, ep_sequence_filter core3) (env_time e, env_seq_id e, env_seq_no e)"
        "ep_schedule boot c3 [?x']" "ep_config core3 = ep_config core2"
      using accepted(4) unfolding filter_goes_def by blast
    have "ec_boot_time_ms (ep_config core3) = boot" using c3(4) b2(1) by simp
    from c3(1) this c3(3) second show ?thesis
    proof (cases rule: ep_received_blocks)
      case ignored
      then show ?thesis by (simp add: ep_same_def)
    next
      case again: (accepted e')
      have "e' = e" using again(1) accepted(1) c3(4) b2(2) by simp
      with again(3) c3(2) show ?thesis by blast
    qed
  qed
qed

theorem endpoint_ignores_replays_witness:
  "\<exists>core1 e1 core2 e2. endpoint_do demo_crypto (Ep_event 3 (TransportPacketReceived 7 [1, 2])) demo_core = Some (core1, e1) \<and>
     endpoint_do demo_crypto (Ep_event 9 (TransportPacketReceived 7 [1, 2])) core1 = Some (core2, e2) \<and>
     (e1 = [] \<and> session_map core1 = session_map demo_core \<or> e2 = [] \<and> session_map core2 = session_map core1)"
proof -
  let ?x = "Ep_event 3 (TransportPacketReceived 7 [1, 2])" and ?y = "Ep_event 9 (TransportPacketReceived 7 [1, 2])"
  have "\<exists>core e. endpoint_do demo_crypto (Ep_event t (TransportPacketReceived 7 [1, 2])) core0 = Some (core, e)" for t core0
    by (simp add: handle_transport_packet_def receive_transport_packet_def decode_transport_packet_def Let_def)
  then obtain core1 e1 core2 e2 where r: "endpoint_do demo_crypto ?x demo_core = Some (core1, e1)" "endpoint_do demo_crypto ?y core1 = Some (core2, e2)"
    by metis
  have "ep_schedule (ec_boot_time_ms demo_config) 0 ([] @ ?x # [] @ [?y])"
    by (simp add: demo_config_def ep_tick_def)
  from endpoint_ignores_replays [OF demo_new this _ r(1) _ r(2)] r show ?thesis by auto
qed

end
