(* ===== verification/Test_Shell_Theorems.thy ===== *)
theory Test_Shell_Theorems
  imports Test_Shell_Correct Endpoint_Theorems
begin

section \<open>Theorems on the simulated network\<close>

text \<open>
  The properties of networks of cores, with instances on a network of three endpoints that send
  keep-alive packets every four milliseconds over one link.
\<close>

subsection \<open>Definitions\<close>

definition beacon_config :: EndpointConfig where
  "beacon_config = demo_config\<lparr>ec_keepalive_interval_ms := 4\<rparr>"

definition demo_link :: SimLink where
  "demo_link = \<lparr>lk_from_node = 1, lk_from_channel_id = 7, lk_to_node = 9, lk_to_channel_id = 7, lk_latency_ms = 1,
     lk_bandwidth_bytes_per_ms = 0, lk_loss = NoLoss, lk_extra_delay_ms = 0, lk_down_windows = []\<rparr>"

definition beacon_core :: EndpointCore where
  "beacon_core = demo_core\<lparr>ep_config := beacon_config, ep_next_keepalive_at := 4\<rparr>"

definition beacon_setup :: "sim_op list" where
  "beacon_setup = [Add_link demo_link, Add_endpoint 1 beacon_config False, Add_endpoint 2 beacon_config False, Add_endpoint 3 beacon_config False]"

definition beacon_node :: SimNode where
  "beacon_node = SimEndpoint \<lparr>en_core = beacon_core, en_config = beacon_config, en_started_at_sim_ms = 0, en_sessions = [],
     en_echo_exit = False, en_blocked_writes = []\<rparr>"

definition beacon_shell :: TestShell where
  "beacon_shell = shell_new\<lparr>ts_nodes := [(1, beacon_node), (2, beacon_node), (3, beacon_node)], ts_links := [demo_link], ts_link_attempts := [0]\<rparr>"

subsection \<open>Properties\<close>

lemma beacon_new: "endpoint_new demo_crypto beacon_config = Some beacon_core"
  by (simp add: endpoint_new_def demo_core_def beacon_core_def beacon_config_def demo_config_def kcp_defaults_def scheduled_packet_overhead_def Let_def longest_node_def
      longest_edge_def index_run_def update_run_def upt_conv_Cons effective_transport_mtu_def usize_sub_def
      random_u64_def random_new_def null_crypto_def demo_crypto_def random_fill_def planner_new_def edge_new_def SEQUENCE_MASK_def)

lemma sim_run_append: "sim_run cr h (xs @ ys) = sim_run cr h xs \<bind> fold_run (sim_do cr h) ys"
  by (simp add: sim_run_def fold_run_append)

lemma beacon_setup_run: "sim_run demo_crypto id beacon_setup = Some beacon_shell"
  by (simp add: sim_run_def beacon_setup_def beacon_new add_endpoint_def add_link_def set_node_def beacon_shell_def beacon_node_def shell_new_def)

lemma beacon_step_run:
  "case run_until_idle demo_crypto id 1 beacon_shell of None \<Rightarrow> False
   | Some s \<Rightarrow> ts_now_ms s = 4 \<and> sent_packets (ts_metrics s) = 1 \<and> length (ts_packets s) = 1 \<and> map_of (ts_nodes s) 1 \<noteq> None"
  by code_simp

lemma beacon_stepE:
  obtains s n where "sim_run demo_crypto id (beacon_setup @ [Run_until_idle 1]) = Some s" "ts_now_ms s = 4"
    "sent_packets (ts_metrics s) = 1" "length (ts_packets s) = 1" "map_of (ts_nodes s) 1 = Some n"
proof -
  from beacon_step_run obtain s n where r: "run_until_idle demo_crypto id 1 beacon_shell = Some s" "ts_now_ms s = 4"
    "sent_packets (ts_metrics s) = 1" "length (ts_packets s) = 1" "map_of (ts_nodes s) 1 = Some n"
    by (auto simp del: run_until_idle.simps One_nat_def split: option.splits)
  have "sim_run demo_crypto id (beacon_setup @ [Run_until_idle 1]) = Some s"
    by (simp add: sim_run_append beacon_setup_run r(1) del: run_until_idle.simps One_nat_def)
  with r that show ?thesis by blast
qed

lemma beacon_sane: "list_all op_sane (beacon_setup @ [Run_until_idle 1])"
proof -
  have "route_sane beacon_config"
    using demo_config_ok by (simp add: route_sane_def config_ok_def beacon_config_def Let_def)
  then show ?thesis by (simp add: beacon_setup_def)
qed



text \<open>C29.  Packets are conserved: without replays, as long as the counter of sent packets has not
  saturated, every packet a core sent has been delivered, dropped (by loss, an outage, a missing link
  or on request) or is still in flight.\<close>

theorem sim_conserves_packets:
  assumes "sim_run cr h xs = Some s" "list_all not_replay xs" "sent_packets (ts_metrics s) \<noteq> - 1"
  shows "unat (sent_packets (ts_metrics s)) =
    unat (delivered_packets (ts_metrics s)) + unat (dropped_packets (ts_metrics s)) + length (ts_packets s)"
  using sc.holds [OF assms(1,2)] assms(3) by (simp add: conserved_def Let_def)

theorem sim_conserves_packets_witness:
  "\<exists>s. sim_run demo_crypto id (beacon_setup @ [Run_until_idle 1]) = Some s \<and> sent_packets (ts_metrics s) = 1 \<and>
     unat (sent_packets (ts_metrics s)) =
       unat (delivered_packets (ts_metrics s)) + unat (dropped_packets (ts_metrics s)) + length (ts_packets s)"
proof -
  obtain s where r: "sim_run demo_crypto id (beacon_setup @ [Run_until_idle 1]) = Some s" "sent_packets (ts_metrics s) = 1" by (rule beacon_stepE)
  have "list_all not_replay (beacon_setup @ [Run_until_idle 1])" by (simp add: beacon_setup_def)
  from sim_conserves_packets [OF r(1) this] r show ?thesis by auto
qed

text \<open>C27.  Actions settle: in a network whose route graphs are ordered and give each node distinct
  channels, carrying out any list of actions ends, although a failed send makes the core plan another
  route and send again and an echoed write makes it send more.  The loop returns, unless one of the
  actions it comes to panics in a core.\<close>

theorem sim_actions_settle:
  assumes "permutes h" "sim_run cr h xs = Some s" "list_all op_sane xs" "unat (ts_now_ms s) + 200 < 2 ^ 64"
  shows "(\<exists>s'. handle_actions cr h s work = Some s') \<or>
    (\<exists>s' x work'. work_reach cr h s work s' (x # work') \<and> perform_action cr h s' x = None)"
proof -
  have "calm cr s" using sn.holds [OF assms(2)] sr.holds [OF assms(2,3)] assms(1,4) by (simp add: calm_def list_all_iff)
  from calm_settles [OF assms(1) this, of work] show ?thesis by (simp add: settles_def)
qed

theorem sim_actions_settle_witness:
  "\<exists>s. sim_run demo_crypto id (beacon_setup @ [Run_until_idle 1]) = Some s \<and>
     ((\<exists>s'. handle_actions demo_crypto id s [(1, SendTransportPacket 8 [])] = Some s') \<or>
      (\<exists>s' x work'. work_reach demo_crypto id s [(1, SendTransportPacket 8 [])] s' (x # work') \<and> perform_action demo_crypto id s' x = None))"
proof -
  obtain s where r: "sim_run demo_crypto id (beacon_setup @ [Run_until_idle 1]) = Some s" "ts_now_ms s = 4" by (rule beacon_stepE)
  have "permutes id" by (simp add: permutes_def)
  from sim_actions_settle [OF this r(1) beacon_sane] r show ?thesis by simp
qed

end
