(* ===== verification/Shell_Config.thy ===== *)
theory Shell_Config
  imports Endpoint Relay
begin

section \<open>Configuration of a node (raynet-shell config.rs, endpoint.rs, relay.rs)\<close>

text \<open>
  The values of the configuration file after parsing (the parser is the \<^verbatim>\<open>toml\<close> and \<^verbatim>\<open>serde\<close> crates),
  their defaults, the topological sort \<open>build_route\<close> that turns named edges into the route graph of
  the planner, and the configurations the shell hands to the cores.  The \<^verbatim>\<open>HashMap\<close> from names to
  indexes is an association list: it is only filled and looked up.  \<open>None\<close> is a failed assertion or
  an index out of range.  In-degrees are integers; the \<^verbatim>\<open>i32\<close> of the source counts edges of the file.
\<close>

definition DEFAULT_TRANSPORT_MTU :: u32 where "DEFAULT_TRANSPORT_MTU = 1400"

record KcpFileConfig =
  kfc_send_window :: "u16 option"
  kfc_receive_window :: "u16 option"
  kfc_time_scale :: "u8 option"
  kfc_fast_resend :: "u32 option"

record RouteFileConfig =
  rfc_min_mtu :: "u32 option"
  rfc_feedback_interval_ms :: "u32 option"
  rfc_feedback_timeout_ms :: "u32 option"

record CoreFileConfig =
  cfc_local_min_mtu :: "u32 option"
  cfc_padding_reserve :: "u8 option"
  cfc_keepalive_interval_ms :: "u32 option"
  cfc_kcp :: KcpFileConfig
  cfc_route :: RouteFileConfig

record RelayCoreTuning =
  rct_local_min_mtu :: u32

record RouteTiming =
  rt_min_mtu :: u32
  rt_feedback_interval_ms :: u32
  rt_feedback_timeout_ms :: u32

record EndpointCoreTuning =
  ect_kcp :: KcpConfig
  ect_route :: RouteTiming
  ect_padding_reserve :: u8
  ect_keepalive_interval_ms :: u32

record RouteEdgeConfig =
  rec_from :: string
  rec_to :: string
  rec_channel :: ChannelId
  rec_capacity_hint_kbps :: u32
  rec_latency_hint_ms :: u32

subsection \<open>Defaults\<close>

definition unwrap_or :: "'a option \<Rightarrow> 'a \<Rightarrow> 'a" where
  "unwrap_or x d = (case x of None \<Rightarrow> d | Some v \<Rightarrow> v)"

definition core_file_config_default :: CoreFileConfig where
  "core_file_config_default = \<lparr>cfc_local_min_mtu = None, cfc_padding_reserve = None, cfc_keepalive_interval_ms = None,
     cfc_kcp = \<lparr>kfc_send_window = None, kfc_receive_window = None, kfc_time_scale = None, kfc_fast_resend = None\<rparr>,
     cfc_route = \<lparr>rfc_min_mtu = None, rfc_feedback_interval_ms = None, rfc_feedback_timeout_ms = None\<rparr>\<rparr>"

definition to_kcp_config :: "KcpFileConfig \<Rightarrow> KcpConfig" where
  "to_kcp_config c =
     (let defaults = kcp_config_default
      in \<lparr>kcf_send_window = unwrap_or (kfc_send_window c) (kcf_send_window defaults),
          kcf_receive_window = unwrap_or (kfc_receive_window c) (kcf_receive_window defaults),
          kcf_time_scale = unwrap_or (kfc_time_scale c) (kcf_time_scale defaults),
          kcf_fast_resend = unwrap_or (kfc_fast_resend c) (kcf_fast_resend defaults)\<rparr>)"

definition to_route_timing :: "RouteFileConfig \<Rightarrow> RouteTiming" where
  "to_route_timing c = \<lparr>rt_min_mtu = unwrap_or (rfc_min_mtu c) DEFAULT_TRANSPORT_MTU,
     rt_feedback_interval_ms = unwrap_or (rfc_feedback_interval_ms c) 1000,
     rt_feedback_timeout_ms = unwrap_or (rfc_feedback_timeout_ms c) 5000\<rparr>"

definition relay_tuning :: "CoreFileConfig \<Rightarrow> RelayCoreTuning" where
  "relay_tuning c = \<lparr>rct_local_min_mtu = unwrap_or (cfc_local_min_mtu c) DEFAULT_TRANSPORT_MTU\<rparr>"

definition endpoint_tuning :: "CoreFileConfig \<Rightarrow> EndpointCoreTuning" where
  "endpoint_tuning c = \<lparr>ect_kcp = to_kcp_config (cfc_kcp c), ect_route = to_route_timing (cfc_route c),
     ect_padding_reserve = unwrap_or (cfc_padding_reserve c) 128,
     ect_keepalive_interval_ms = unwrap_or (cfc_keepalive_interval_ms c) 0\<rparr>"

definition route_config :: "EndpointCoreTuning \<Rightarrow> RouteGraph \<Rightarrow> RouteConfig" where
  "route_config tuning graph = \<lparr>rcf_graph = graph, rcf_min_mtu = rt_min_mtu (ect_route tuning),
     rcf_feedback_interval_ms = rt_feedback_interval_ms (ect_route tuning),
     rcf_feedback_timeout_ms = rt_feedback_timeout_ms (ect_route tuning)\<rparr>"

subsection \<open>Sorting the route graph\<close>

type_synonym name_table = "(string \<times> usize) list"

definition or_insert :: "string \<Rightarrow> name_table \<Rightarrow> name_table" where
  "or_insert name indexes = (if map_of indexes name = None then (name, length indexes) # indexes else indexes)"

definition index_names :: "RouteEdgeConfig list \<Rightarrow> name_table" where
  "index_names edges = fold (\<lambda>edge indexes. or_insert (rec_to edge) (or_insert (rec_from edge) indexes)) edges []"

definition insert_edge :: "name_table \<Rightarrow> RouteEdgeConfig \<Rightarrow> RouteNode list \<times> int list \<Rightarrow> (RouteNode list \<times> int list) run" where
  "insert_edge indexes edge st = do {
     let (nodes, indegree) = st;
     from \<leftarrow> map_of indexes (rec_from edge);
     nxt \<leftarrow> map_of indexes (rec_to edge);
     if from = nxt then panic
     else do {
       indegree' \<leftarrow> update_run indegree nxt (\<lambda>d. d + 1);
       nodes' \<leftarrow> update_run nodes from (\<lambda>node. node\<lparr>rn_edges := rn_edges node @
         [\<lparr>re_channel_id = rec_channel edge, re_next = word_of_nat nxt, re_capacity_hint_kbps = rec_capacity_hint_kbps edge,
           re_latency_hint_ms = rec_latency_hint_ms edge\<rparr>]\<rparr>);
       Some (nodes', indegree')
     }
   }"

definition release_edge :: "RouteEdge \<Rightarrow> int list \<times> usize list \<Rightarrow> (int list \<times> usize list) run" where
  "release_edge edge st = do {
     let (indegree, ready) = st;
     let nxt = unat (re_next edge);
     indegree' \<leftarrow> update_run indegree nxt (\<lambda>d. d - 1);
     count \<leftarrow> index_run indegree' nxt;
     Some (indegree', if count = 0 then ready @ [nxt] else ready)
   }"

definition positive :: "int list \<Rightarrow> nat" where
  "positive indegree = length (filter (\<lambda>d. 0 < d) indegree)"

lemma release_edge_measure:
  assumes "release_edge edge (indegree, ready) = Some (indegree', ready')"
  shows "length ready' + positive indegree' \<le> length ready + positive indegree"
proof -
  let ?n = "unat (re_next edge)"
  from assms have n: "?n < length indegree" "indegree' = indegree[?n := indegree ! ?n - 1]"
    "ready' = (if indegree ! ?n = 1 then ready @ [?n] else ready)"
    by (auto simp: release_edge_def bind_eq_Some_conv update_run_Some_iff index_run_Some_iff Let_def split: if_splits)
  define f where "f d = (if 0 < d then 1 else 0 :: nat)" for d :: int
  have p: "positive xs = sum_list (map f xs)" for xs
    by (induction xs) (simp_all add: positive_def f_def)
  have s: "sum_list (map f indegree) = f (indegree ! ?n) + (sum_list (map f indegree) - f (indegree ! ?n))"
    "f (indegree ! ?n) \<le> sum_list (map f indegree)"
    using n(1) elem_le_sum_list [of ?n "map f indegree"] by simp_all
  have "sum_list (map f indegree') = sum_list (map f indegree) + f (indegree ! ?n - 1) - f (indegree ! ?n)"
    using n(1) sum_list_update [of ?n "map f indegree" "f (indegree ! ?n - 1)"] unfolding n(2) by (simp add: map_update)
  then show ?thesis using s(2) n(3) unfolding p by (auto simp: f_def split: if_splits)
qed

lemma release_edges_measure:
  "fold_run release_edge es st = Some st' \<Longrightarrow> length (snd st') + positive (fst st') \<le> length (snd st) + positive (fst st)"
proof (induction es arbitrary: st)
  case (Cons e es)
  then obtain st1 where s: "release_edge e st = Some st1" "fold_run release_edge es st1 = Some st'" by (auto simp: bind_eq_Some_conv)
  with Cons.IH [OF s(2)] release_edge_measure [of e "fst st" "snd st" "fst st1" "snd st1"] show ?case by simp
qed simp

function sort_nodes :: "RouteNode list \<Rightarrow> int list \<Rightarrow> usize list \<Rightarrow> usize list \<Rightarrow> usize list run" where
  "sort_nodes nodes indegree [] order = Some order"
| "sort_nodes nodes indegree (node # ready) order =
     (case index_run nodes node of
        None \<Rightarrow> panic
      | Some n \<Rightarrow>
          (case fold_run release_edge (rn_edges n) (indegree, ready) of
             None \<Rightarrow> panic
           | Some (indegree', ready') \<Rightarrow> sort_nodes nodes indegree' ready' (order @ [node])))"
  by pat_completeness auto

termination
proof (relation "measure (\<lambda>(nodes, indegree, ready, order). length ready + positive indegree)")
  fix nodes indegree node ready and order :: "usize list" and n r indegree' ready'
  assume "fold_run release_edge (rn_edges n) (indegree, ready) = Some r" "(indegree', ready') = r"
  then show "((nodes, indegree', ready', order @ [node]), nodes, indegree, node # ready, order)
      \<in> measure (\<lambda>(nodes, indegree, ready, order). length ready + positive indegree)"
    using release_edges_measure [of "rn_edges n" "(indegree, ready)" "(indegree', ready')"] by auto
qed simp

definition set_position :: "usize list \<Rightarrow> usize \<Rightarrow> u32 list \<Rightarrow> u32 list run" where
  "set_position order i positions = update_run positions (order ! i) (\<lambda>_. word_of_nat i)"

definition place_edge :: "u32 list \<Rightarrow> RouteEdge \<Rightarrow> RouteEdge run" where
  "place_edge positions edge = do { p \<leftarrow> index_run positions (unat (re_next edge)); Some (edge\<lparr>re_next := p\<rparr>) }"

fun map_run :: "('a \<Rightarrow> 'b run) \<Rightarrow> 'a list \<Rightarrow> 'b list run" where
  "map_run f [] = Some []"
| "map_run f (x # xs) = do { y \<leftarrow> f x; ys \<leftarrow> map_run f xs; Some (y # ys) }"

definition place_node :: "RouteNode list \<Rightarrow> u32 list \<Rightarrow> usize \<Rightarrow> RouteNode run" where
  "place_node nodes positions node = do {
     n \<leftarrow> index_run nodes node;
     edges \<leftarrow> map_run (place_edge positions) (rn_edges n);
     Some \<lparr>rn_edges = edges\<rparr>
   }"

definition sources :: "int list \<Rightarrow> usize list" where
  "sources indegree = filter (\<lambda>i. indegree ! i = 0) [0..<length indegree]"

definition build_route :: "RouteEdgeConfig list \<Rightarrow> RouteGraph run" where
  "build_route edges = do {
     if edges = [] then panic
     else do {
       let indexes = index_names edges;
       (nodes, indegree) \<leftarrow> fold_run (insert_edge indexes) edges
         (replicate (length indexes) \<lparr>rn_edges = []\<rparr>, replicate (length indexes) 0);
       if length (sources indegree) \<noteq> 1 \<or> length (filter (\<lambda>node. rn_edges node = []) nodes) \<noteq> 1 then panic
       else do {
         order \<leftarrow> sort_nodes nodes indegree (sources indegree) [];
         if length order \<noteq> length nodes then panic
         else do {
           positions \<leftarrow> fold_run (set_position order) [0..<length order] (replicate (length nodes) 0);
           placed \<leftarrow> map_run (place_node nodes positions) order;
           Some \<lparr>rg_nodes = placed\<rparr>
         }
       }
     }
   }"

subsection \<open>Core configurations\<close>

definition default_graph :: "ChannelId list \<Rightarrow> RouteGraph" where
  "default_graph local_channels = \<lparr>rg_nodes = [
     \<lparr>rn_edges = map (\<lambda>ch. \<lparr>re_channel_id = ch, re_next = 1, re_capacity_hint_kbps = 0, re_latency_hint_ms = 0\<rparr>) local_channels\<rparr>,
     \<lparr>rn_edges = []\<rparr>]\<rparr>"

definition endpoint_route_graph :: "ChannelId list \<Rightarrow> RouteGraph option \<Rightarrow> RouteGraph run" where
  "endpoint_route_graph local_channels route = do {
     let graph = unwrap_or route (default_graph local_channels);
     first \<leftarrow> index_run (rg_nodes graph) 0;
     if list_all (\<lambda>e. re_channel_id e \<in> set local_channels) (rn_edges first) then Some graph else panic
   }"

definition start_endpoint :: "bytes \<Rightarrow> bytes \<Rightarrow> bytes \<Rightarrow> u64 \<Rightarrow> ChannelId list \<Rightarrow> RouteGraph option \<Rightarrow> EndpointCoreTuning \<Rightarrow>
    EndpointConfig run" where
  "start_endpoint envelope_key message_key random_seed boot_time_ms local_channels route tuning = do {
     graph \<leftarrow> endpoint_route_graph local_channels route;
     Some \<lparr>ec_envelope_key = envelope_key, ec_message_key = message_key, ec_random_seed = random_seed,
       ec_boot_time_ms = boot_time_ms, ec_kcp = ect_kcp tuning, ec_route = route_config tuning graph,
       ec_local_channels = local_channels, ec_padding_reserve = ect_padding_reserve tuning,
       ec_keepalive_interval_ms = ect_keepalive_interval_ms tuning\<rparr>
   }"

definition start_relay :: "bytes \<Rightarrow> bytes \<Rightarrow> u64 \<Rightarrow> ChannelId list \<Rightarrow> RelayCoreTuning \<Rightarrow> RelayConfig" where
  "start_relay envelope_key random_seed boot_time_ms local_channels tuning =
     \<lparr>rc_envelope_key = envelope_key, rc_random_seed = random_seed, rc_boot_time_ms = boot_time_ms,
      rc_local_channels = local_channels, rc_local_min_mtu = rct_local_min_mtu tuning\<rparr>"

end
