(* ===== verification/Shell_Config_Correct.thy ===== *)
theory Shell_Config_Correct
  imports Shell_Config Endpoint_Theorems
begin

section \<open>Correctness of the route construction and of the default configuration\<close>

text \<open>
  The invariant of the sort (\<open>sort_inv\<close>: the in-degree left for a node counts its edges from nodes that are
  not sorted yet, the nodes sorted or ready are those with no such edge, and the predecessors of each come before
  it), the relation between the table of names, the graph of indexes and the sorted graph, and the three
  properties: when \<open>build_route\<close> accepts, what it returns, and that an endpoint configured by
  it runs.  \<open>config_nodes\<close> is the graph of a list of names, used with the index of the table
  before the sort and with the position in the order after it.
\<close>

definition edges_to :: "RouteNode list \<Rightarrow> usize \<Rightarrow> usize \<Rightarrow> nat" where
  "edges_to nodes u v = length (filter (\<lambda>e. unat (re_next e) = v) (rn_edges (nodes ! u)))"

definition in_count :: "RouteNode list \<Rightarrow> usize set \<Rightarrow> usize \<Rightarrow> nat" where
  "in_count nodes U v = (\<Sum>u \<in> U. edges_to nodes u v)"

definition raw_graph :: "RouteNode list \<Rightarrow> int list \<Rightarrow> bool" where
  "raw_graph nodes indegree \<longleftrightarrow> length indegree = length nodes \<and>
     (\<forall>u < length nodes. \<forall>e \<in> set (rn_edges (nodes ! u)). unat (re_next e) < length nodes) \<and>
     (\<forall>v < length nodes. indegree ! v = int (in_count nodes {..<length nodes} v))"

definition sort_inv :: "RouteNode list \<Rightarrow> usize list \<Rightarrow> usize list \<Rightarrow> RouteEdge list \<Rightarrow> int list \<Rightarrow> usize list \<Rightarrow> bool" where
  "sort_inv nodes before order es indegree ready \<longleftrightarrow> length indegree = length nodes \<and>
     distinct (order @ ready) \<and> set (order @ ready) \<subseteq> {..<length nodes} \<and>
     (\<forall>v < length nodes. indegree ! v = int (in_count nodes {..<length nodes} v) - int (in_count nodes (set before) v)
        - int (length (filter (\<lambda>e. unat (re_next e) = v) es))) \<and>
     (\<forall>v < length nodes. v \<in> set (order @ ready) \<longleftrightarrow> indegree ! v = 0) \<and>
     (\<forall>i < length (order @ ready). \<forall>u < length nodes. 0 < edges_to nodes u ((order @ ready) ! i) \<longrightarrow> u \<in> set (take i order))"

definition route_names :: "RouteEdgeConfig list \<Rightarrow> string set" where
  "route_names edges = rec_from ` set edges \<union> rec_to ` set edges"

definition names_of :: "name_table \<Rightarrow> string list" where
  "names_of indexes = map fst (rev indexes)"

definition table_ok :: "name_table \<Rightarrow> bool" where
  "table_ok indexes \<longleftrightarrow> distinct (names_of indexes) \<and> map snd (rev indexes) = [0..<length indexes]"

definition config_edge :: "(string \<Rightarrow> usize) \<Rightarrow> RouteEdgeConfig \<Rightarrow> RouteEdge" where
  "config_edge ix edge = \<lparr>re_channel_id = rec_channel edge, re_next = word_of_nat (ix (rec_to edge)),
     re_capacity_hint_kbps = rec_capacity_hint_kbps edge, re_latency_hint_ms = rec_latency_hint_ms edge\<rparr>"

definition config_nodes :: "(string \<Rightarrow> usize) \<Rightarrow> string list \<Rightarrow> RouteEdgeConfig list \<Rightarrow> RouteNode list" where
  "config_nodes ix names edges = map (\<lambda>name. \<lparr>rn_edges = map (config_edge ix) (filter (\<lambda>e. rec_from e = name) edges)\<rparr>) names"

definition table_index :: "name_table \<Rightarrow> string \<Rightarrow> usize" where
  "table_index indexes name = the (map_of indexes name)"

definition edges_into :: "string \<Rightarrow> RouteEdgeConfig list \<Rightarrow> nat" where
  "edges_into name edges = length (filter (\<lambda>e. rec_to e = name) edges)"

definition name_position :: "string list \<Rightarrow> string \<Rightarrow> usize" where
  "name_position names name = length (takeWhile (\<lambda>x. x \<noteq> name) names)"

definition edge_pairs :: "RouteEdgeConfig list \<Rightarrow> (string \<times> string) set" where
  "edge_pairs edges = (\<lambda>e. (rec_from e, rec_to e)) ` set edges"

definition route_sources :: "RouteEdgeConfig list \<Rightarrow> string set" where
  "route_sources edges = {name \<in> route_names edges. \<forall>e \<in> set edges. rec_to e \<noteq> name}"

definition route_sinks :: "RouteEdgeConfig list \<Rightarrow> string set" where
  "route_sinks edges = {name \<in> route_names edges. \<forall>e \<in> set edges. rec_from e \<noteq> name}"

definition sorted_names :: "RouteEdgeConfig list \<Rightarrow> string list \<Rightarrow> bool" where
  "sorted_names edges names \<longleftrightarrow> distinct names \<and> set names = route_names edges \<and>
     (\<forall>e \<in> set edges. name_position names (rec_from e) < name_position names (rec_to e))"

definition accepted :: "RouteEdgeConfig list \<Rightarrow> bool" where
  "accepted edges \<longleftrightarrow> edges \<noteq> [] \<and> acyclic (edge_pairs edges) \<and> card (route_sources edges) = 1 \<and> card (route_sinks edges) = 1"

definition sorted_graph :: "RouteEdgeConfig list \<Rightarrow> string list \<Rightarrow> RouteGraph" where
  "sorted_graph edges names = \<lparr>rg_nodes = config_nodes (name_position names) names edges\<rparr>"

definition distinct_channels :: "RouteEdgeConfig list \<Rightarrow> bool" where
  "distinct_channels edges \<longleftrightarrow> (\<forall>name. distinct (map rec_channel (filter (\<lambda>e. rec_from e = name) edges)))"

definition demo_edge :: "string \<Rightarrow> string \<Rightarrow> ChannelId \<Rightarrow> RouteEdgeConfig" where
  "demo_edge a b ch = \<lparr>rec_from = a, rec_to = b, rec_channel = ch, rec_capacity_hint_kbps = 0, rec_latency_hint_ms = 0\<rparr>"

definition demo_edges :: "RouteEdgeConfig list" where
  "demo_edges = [demo_edge ''mid'' ''exit'' 3, demo_edge ''home'' ''exit'' 1, demo_edge ''home'' ''mid'' 2]"

subsection \<open>Sorting: in-degrees and the ready queue\<close>

lemma in_count_mono: "U \<subseteq> {..<n} \<Longrightarrow> in_count nodes U v \<le> in_count nodes {..<n} v"
  unfolding in_count_def by (rule sum_mono2) auto

lemma in_count_insert: "finite U \<Longrightarrow> x \<notin> U \<Longrightarrow> in_count nodes (insert x U) v = edges_to nodes x v + in_count nodes U v"
  by (simp add: in_count_def)

lemma in_count_rest:
  assumes "U \<subseteq> {..<n}" "u < n" "u \<notin> U"
  shows "in_count nodes U v + edges_to nodes u v \<le> in_count nodes {..<n} v"
proof -
  have "finite U" using assms(1) finite_subset by blast
  then show ?thesis using in_count_mono [of "insert u U" n nodes v] in_count_insert [of U u nodes v] assms by simp
qed

lemma release_step:
  assumes raw: "\<forall>u < length nodes. \<forall>e \<in> set (rn_edges (nodes ! u)). unat (re_next e) < length nodes"
    and x: "x < length nodes" "rn_edges (nodes ! x) = es @ e # rest" "x \<notin> set before" "order = before @ [x]"
    and inv: "sort_inv nodes before order es indegree ready"
  shows "\<exists>indegree' ready'. release_edge e (indegree, ready) = Some (indegree', ready') \<and> sort_inv nodes before order (es @ [e]) indegree' ready'"
proof -
  let ?v = "unat (re_next e)" and ?n = "length nodes"
  have v: "?v < ?n" using raw x by auto
  have I: "length indegree = ?n" "distinct (order @ ready)" "set (order @ ready) \<subseteq> {..<?n}"
    "\<forall>v < ?n. indegree ! v = int (in_count nodes {..<?n} v) - int (in_count nodes (set before) v) - int (length (filter (\<lambda>e. unat (re_next e) = v) es))"
    "\<forall>v < ?n. v \<in> set (order @ ready) \<longleftrightarrow> indegree ! v = 0"
    "\<forall>i < length (order @ ready). \<forall>u < ?n. 0 < edges_to nodes u ((order @ ready) ! i) \<longrightarrow> u \<in> set (take i order)"
    using inv by (simp_all add: sort_inv_def)
  have before: "set before \<subseteq> {..<?n}" using I(3) x(4) by simp
  let ?c = "length (filter (\<lambda>e. unat (re_next e) = ?v) es)"
  have c: "?c + 1 \<le> edges_to nodes x ?v" by (simp add: edges_to_def x(2))
  have "in_count nodes (set before) ?v + edges_to nodes x ?v \<le> in_count nodes {..<?n} ?v" by (rule in_count_rest [OF before x(1,3)])
  then have pos: "1 \<le> indegree ! ?v" using I(4) v c by simp
  define indegree' where "indegree' = indegree[?v := indegree ! ?v - 1]"
  define ready' where "ready' = (if indegree ! ?v - 1 = 0 then ready @ [?v] else ready)"
  have run: "release_edge e (indegree, ready) = Some (indegree', ready')"
    using v I(1) by (simp add: release_edge_def update_run_def index_run_def indegree'_def ready'_def Let_def)
  have fresh: "?v \<notin> set (order @ ready)" using I(5) v pos by auto
  have val: "indegree' ! w = int (in_count nodes {..<?n} w) - int (in_count nodes (set before) w) - int (length (filter (\<lambda>e. unat (re_next e) = w) (es @ [e])))"
    if "w < ?n" for w
    using that I(1,4) v by (auto simp: indegree'_def nth_list_update)
  have zero: "w \<in> set (order @ ready') \<longleftrightarrow> indegree' ! w = 0" if "w < ?n" for w
    using that I(1,5) v pos fresh by (auto simp: indegree'_def ready'_def nth_list_update)
  have topo: "u \<in> set (take i order)" if i: "i < length (order @ ready')" and u: "u < ?n" "0 < edges_to nodes u ((order @ ready') ! i)" for i u
  proof (cases "i < length (order @ ready)")
    case True
    then have "(order @ ready') ! i = (order @ ready) ! i" by (auto simp: ready'_def nth_append)
    then show ?thesis using I(6) True u by auto
  next
    case False
    then have z: "indegree ! ?v - 1 = 0" "i = length (order @ ready)" using i by (auto simp: ready'_def split: if_splits)
    then have at: "(order @ ready') ! i = ?v" by (simp add: ready'_def nth_append)
    have "u \<in> set order"
    proof (rule ccontr)
      assume "u \<notin> set order"
      then have "in_count nodes (insert x (set before)) ?v + edges_to nodes u ?v \<le> in_count nodes {..<?n} ?v"
        using before x(1,4) u(1) by (intro in_count_rest) auto
      then have "in_count nodes (set before) ?v + edges_to nodes x ?v + edges_to nodes u ?v \<le> in_count nodes {..<?n} ?v"
        using in_count_insert [OF finite_set x(3)] by simp
      then show False using u(2) at z(1) I(4) v c by simp
    qed
    then show ?thesis using z(2) by simp
  qed
  have "sort_inv nodes before order (es @ [e]) indegree' ready'"
    unfolding sort_inv_def using I(1-3) v fresh val zero topo by (auto simp: indegree'_def ready'_def)
  then show ?thesis using run by blast
qed

lemma release_edges:
  assumes raw: "\<forall>u < length nodes. \<forall>e \<in> set (rn_edges (nodes ! u)). unat (re_next e) < length nodes"
    and x: "x < length nodes" "x \<notin> set before" "order = before @ [x]"
  shows "rn_edges (nodes ! x) = es @ rest \<Longrightarrow> sort_inv nodes before order es indegree ready \<Longrightarrow>
    \<exists>indegree' ready'. fold_run release_edge rest (indegree, ready) = Some (indegree', ready') \<and>
      sort_inv nodes before order (rn_edges (nodes ! x)) indegree' ready'"
proof (induction rest arbitrary: es indegree ready)
  case (Cons e rest)
  from release_step [OF raw x(1) Cons.prems(1) x(2,3) Cons.prems(2)] obtain indegree1 ready1 where
    r: "release_edge e (indegree, ready) = Some (indegree1, ready1)" "sort_inv nodes before order (es @ [e]) indegree1 ready1" by blast
  from Cons.IH [of "es @ [e]", OF _ r(2)] Cons.prems(1) r(1) show ?case by simp
qed simp

subsection \<open>Names and indexes\<close>

lemma length_names_of [simp]: "length (names_of indexes) = length indexes"
  by (simp add: names_of_def)

lemma or_insert_ok: "table_ok indexes \<Longrightarrow> table_ok (or_insert name indexes)"
  by (auto simp: table_ok_def or_insert_def names_of_def map_of_eq_None_iff)

lemma or_insert_names: "set (names_of (or_insert name indexes)) = insert name (set (names_of indexes))"
proof (cases "map_of indexes name")
  case (Some i)
  then show ?thesis using map_of_SomeD [OF Some] by (force simp: or_insert_def names_of_def)
qed (simp add: or_insert_def names_of_def)

lemma or_insert_length: "length (or_insert name indexes) \<le> Suc (length indexes)"
  by (simp add: or_insert_def)

lemma index_names_step:
  assumes "table_ok indexes"
  shows "table_ok (fold (\<lambda>edge indexes. or_insert (rec_to edge) (or_insert (rec_from edge) indexes)) edges indexes) \<and>
    set (names_of (fold (\<lambda>edge indexes. or_insert (rec_to edge) (or_insert (rec_from edge) indexes)) edges indexes)) =
      set (names_of indexes) \<union> route_names edges \<and>
    length (fold (\<lambda>edge indexes. or_insert (rec_to edge) (or_insert (rec_from edge) indexes)) edges indexes) \<le> length indexes + 2 * length edges"
  using assms
proof (induction edges arbitrary: indexes)
  case (Cons e edges)
  let ?t = "or_insert (rec_to e) (or_insert (rec_from e) indexes)"
  have "table_ok ?t" by (intro or_insert_ok Cons.prems)
  moreover have "length ?t \<le> Suc (Suc (length indexes))" using or_insert_length [of "rec_to e"] or_insert_length [of "rec_from e"] le_trans by fastforce
  ultimately show ?case using Cons.IH [of ?t] by (auto simp: or_insert_names route_names_def)
qed (simp add: route_names_def)

lemma index_names_ok: "table_ok (index_names edges)"
  and index_names_set: "set (names_of (index_names edges)) = route_names edges"
  and index_names_length: "length (index_names edges) \<le> 2 * length edges"
  using index_names_step [of "[]" edges] by (simp_all add: index_names_def table_ok_def names_of_def)

lemma table_lookup:
  assumes "table_ok indexes"
  shows "map_of indexes name = Some i \<longleftrightarrow> i < length indexes \<and> names_of indexes ! i = name"
proof -
  have d: "distinct (map fst indexes)" using assms by (simp add: table_ok_def names_of_def rev_map [symmetric])
  have s: "snd (rev indexes ! j) = j" if "j < length indexes" for j
    using assms that nth_map [of j "rev indexes" snd] by (simp add: table_ok_def)
  have "(name, i) \<in> set (rev indexes) \<longleftrightarrow> i < length indexes \<and> names_of indexes ! i = name"
  proof
    assume "(name, i) \<in> set (rev indexes)"
    then obtain j where "j < length indexes" "rev indexes ! j = (name, i)" by (metis in_set_conv_nth length_rev)
    with s [of j] show "i < length indexes \<and> names_of indexes ! i = name" by (auto simp: names_of_def)
  next
    assume a: "i < length indexes \<and> names_of indexes ! i = name"
    then have "rev indexes ! i = (name, i)" using s [of i] by (auto simp: names_of_def intro: prod_eqI)
    with a show "(name, i) \<in> set (rev indexes)" by (metis length_rev nth_mem)
  qed
  then show ?thesis using map_of_eq_Some_iff [OF d, of name i] by simp
qed

lemma insert_edge_step:
  assumes ok: "table_ok indexes"
    and run: "insert_edge indexes edge (config_nodes (table_index indexes) (names_of indexes) past,
      map (\<lambda>name. int (edges_into name past)) (names_of indexes)) = Some st'"
  shows "st' = (config_nodes (table_index indexes) (names_of indexes) (past @ [edge]),
    map (\<lambda>name. int (edges_into name (past @ [edge]))) (names_of indexes))"
    and "rec_from edge \<noteq> rec_to edge"
proof -
  from run obtain i j where ij: "map_of indexes (rec_from edge) = Some i" "map_of indexes (rec_to edge) = Some j" "i \<noteq> j"
    and st: "st' = ((config_nodes (table_index indexes) (names_of indexes) past)[i :=
        (config_nodes (table_index indexes) (names_of indexes) past ! i)\<lparr>rn_edges :=
          rn_edges (config_nodes (table_index indexes) (names_of indexes) past ! i) @ [config_edge (table_index indexes) edge]\<rparr>],
      (map (\<lambda>name. int (edges_into name past)) (names_of indexes))[j := map (\<lambda>name. int (edges_into name past)) (names_of indexes) ! j + 1])"
    by (auto simp: insert_edge_def bind_eq_Some_conv update_run_Some_iff Let_def config_edge_def table_index_def split: if_splits)
  have i: "i < length indexes" "names_of indexes ! i = rec_from edge" and j: "j < length indexes" "names_of indexes ! j = rec_to edge"
    using ij(1,2) by (simp_all add: table_lookup [OF ok])
  have d: "names_of indexes ! k = names_of indexes ! l \<longleftrightarrow> k = l" if "k < length indexes" "l < length indexes" for k l
    using ok that by (simp add: table_ok_def nth_eq_iff_index_eq)
  show "rec_from edge \<noteq> rec_to edge" using ij by auto
  show "st' = (config_nodes (table_index indexes) (names_of indexes) (past @ [edge]),
    map (\<lambda>name. int (edges_into name (past @ [edge]))) (names_of indexes))"
    unfolding st prod.inject
  proof (intro conjI nth_equalityI)
    fix k
    assume "k < length ((config_nodes (table_index indexes) (names_of indexes) past)[i :=
        (config_nodes (table_index indexes) (names_of indexes) past ! i)\<lparr>rn_edges :=
          rn_edges (config_nodes (table_index indexes) (names_of indexes) past ! i) @ [config_edge (table_index indexes) edge]\<rparr>])"
    then have k: "k < length indexes" by (simp add: config_nodes_def)
    show "(config_nodes (table_index indexes) (names_of indexes) past)[i :=
        (config_nodes (table_index indexes) (names_of indexes) past ! i)\<lparr>rn_edges :=
          rn_edges (config_nodes (table_index indexes) (names_of indexes) past ! i) @ [config_edge (table_index indexes) edge]\<rparr>] ! k =
      config_nodes (table_index indexes) (names_of indexes) (past @ [edge]) ! k"
      using k i d [OF i(1) k] by (cases "k = i") (simp_all add: config_nodes_def)
  next
    fix k
    assume "k < length ((map (\<lambda>name. int (edges_into name past)) (names_of indexes))[j := map (\<lambda>name. int (edges_into name past)) (names_of indexes) ! j + 1])"
    then have k: "k < length indexes" by simp
    show "(map (\<lambda>name. int (edges_into name past)) (names_of indexes))[j := map (\<lambda>name. int (edges_into name past)) (names_of indexes) ! j + 1] ! k =
      map (\<lambda>name. int (edges_into name (past @ [edge]))) (names_of indexes) ! k"
      using k j d [OF j(1) k] by (cases "k = j") (simp_all add: edges_into_def)
  qed (simp_all add: config_nodes_def)
qed

lemma insert_edges:
  assumes ok: "table_ok indexes"
  shows "fold_run (insert_edge indexes) edges (config_nodes (table_index indexes) (names_of indexes) past,
      map (\<lambda>name. int (edges_into name past)) (names_of indexes)) = Some st' \<Longrightarrow>
    st' = (config_nodes (table_index indexes) (names_of indexes) (past @ edges),
      map (\<lambda>name. int (edges_into name (past @ edges))) (names_of indexes)) \<and> (\<forall>e \<in> set edges. rec_from e \<noteq> rec_to e)"
proof (induction edges arbitrary: past)
  case (Cons e edges)
  then obtain st1 where s: "insert_edge indexes e (config_nodes (table_index indexes) (names_of indexes) past,
      map (\<lambda>name. int (edges_into name past)) (names_of indexes)) = Some st1" "fold_run (insert_edge indexes) edges st1 = Some st'"
    by (auto simp: bind_eq_Some_conv)
  from Cons.IH [OF s(2) [unfolded insert_edge_step(1) [OF ok s(1)]]] insert_edge_step(2) [OF ok s(1)] show ?case by simp
qed simp

lemma table_index_at:
  assumes "table_ok indexes" "i < length indexes"
  shows "table_index indexes (names_of indexes ! i) = i"
  using table_lookup [OF assms(1), of "names_of indexes ! i" i] assms(2) by (simp add: table_index_def)

lemma table_index_less:
  assumes "table_ok indexes" "name \<in> set (names_of indexes)"
  shows "table_index indexes name < length indexes" "names_of indexes ! table_index indexes name = name"
  using assms(2) table_index_at [OF assms(1)] by (auto simp: in_set_conv_nth)

subsection \<open>The graph of the file\<close>

lemma config_edge_next:
  assumes "table_ok indexes" "length indexes \<le> 2 ^ 32" "rec_to e \<in> set (names_of indexes)"
  shows "unat (re_next (config_edge (table_index indexes) e)) = table_index indexes (rec_to e)"
proof -
  have "table_index indexes (rec_to e) < 2 ^ 32" using table_index_less(1) [OF assms(1,3)] assms(2) by simp
  then show ?thesis by (simp add: config_edge_def unat_of_nat take_bit_nat_eq_self)
qed

lemma edges_to_config:
  assumes "table_ok indexes" "length indexes \<le> 2 ^ 32" "route_names edges \<subseteq> set (names_of indexes)"
    "u < length indexes" "v < length indexes"
  shows "edges_to (config_nodes (table_index indexes) (names_of indexes) edges) u v =
    length (filter (\<lambda>e. rec_from e = names_of indexes ! u \<and> rec_to e = names_of indexes ! v) edges)"
proof -
  have "unat (re_next (config_edge (table_index indexes) e)) = v \<longleftrightarrow> rec_to e = names_of indexes ! v" if "e \<in> set edges" for e
  proof -
    have m: "rec_to e \<in> set (names_of indexes)" using that assms(3) by (auto simp: route_names_def)
    show ?thesis using config_edge_next [OF assms(1,2) m] table_index_less(2) [OF assms(1) m] table_index_at [OF assms(1,5)] by auto
  qed
  then have "filter (\<lambda>e. unat (re_next (config_edge (table_index indexes) e)) = v) (filter (\<lambda>e. rec_from e = names_of indexes ! u) edges) =
    filter (\<lambda>e. rec_from e = names_of indexes ! u \<and> rec_to e = names_of indexes ! v) edges"
    unfolding filter_filter by (intro filter_cong) auto
  then show ?thesis using assms(4) by (simp add: edges_to_def config_nodes_def filter_map o_def)
qed

lemma edges_into_sum:
  assumes ok: "table_ok indexes" and names: "route_names edges \<subseteq> set (names_of indexes)"
  shows "(\<Sum>u < length indexes. length (filter (\<lambda>e. rec_from e = names_of indexes ! u \<and> rec_to e = name) edges)) = edges_into name edges"
  using names
proof (induction edges)
  case (Cons e edges)
  have m: "rec_from e \<in> set (names_of indexes)" using Cons.prems by (simp add: route_names_def)
  have at: "rec_from e = names_of indexes ! u \<longleftrightarrow> u = table_index indexes (rec_from e)" if "u < length indexes" for u
    using table_index_less(2) [OF ok m] table_index_at [OF ok that] by auto
  have "(\<Sum>u < length indexes. length (filter (\<lambda>e. rec_from e = names_of indexes ! u \<and> rec_to e = name) (e # edges))) =
    (\<Sum>u < length indexes. (if u = table_index indexes (rec_from e) then (if rec_to e = name then 1 else 0) else 0) +
       length (filter (\<lambda>e. rec_from e = names_of indexes ! u \<and> rec_to e = name) edges))"
    by (intro sum.cong) (auto simp: at)
  also have "\<dots> = (if rec_to e = name then 1 else 0) + edges_into name edges"
    using Cons table_index_less(1) [OF ok m] by (simp add: sum.distrib route_names_def)
  finally show ?case by (simp add: edges_into_def)
qed (simp add: edges_into_def)

lemma config_raw_graph:
  assumes "table_ok indexes" "length indexes \<le> 2 ^ 32" "route_names edges \<subseteq> set (names_of indexes)"
  shows "raw_graph (config_nodes (table_index indexes) (names_of indexes) edges) (map (\<lambda>name. int (edges_into name edges)) (names_of indexes))"
proof -
  let ?nodes = "config_nodes (table_index indexes) (names_of indexes) edges"
  have len: "length ?nodes = length indexes" by (simp add: config_nodes_def)
  have bound: "unat (re_next e) < length indexes" if u: "u < length indexes" and e: "e \<in> set (rn_edges (?nodes ! u))" for u e
  proof -
    from u e obtain c where c: "e = config_edge (table_index indexes) c" "c \<in> set edges" by (auto simp: config_nodes_def)
    then have "rec_to c \<in> set (names_of indexes)" using assms(3) by (auto simp: route_names_def)
    then show ?thesis using config_edge_next [OF assms(1,2)] table_index_less(1) [OF assms(1)] c(1) by simp
  qed
  have "in_count ?nodes {..<length indexes} v = edges_into (names_of indexes ! v) edges" if "v < length indexes" for v
    using that edges_to_config [OF assms] edges_into_sum [OF assms(1,3)] by (simp add: in_count_def)
  with bound len show ?thesis by (simp add: raw_graph_def)
qed

lemma sort_inv_start:
  assumes raw: "raw_graph nodes indegree"
  shows "sort_inv nodes [] [] [] indegree (sources indegree)"
proof -
  have len: "length indegree = length nodes" and val: "v < length nodes \<Longrightarrow> indegree ! v = int (in_count nodes {..<length nodes} v)" for v
    using raw by (simp_all add: raw_graph_def)
  have none: "\<not> 0 < edges_to nodes u v" if "v \<in> set (sources indegree)" "u < length nodes" for u v
  proof -
    have v: "v < length nodes" "indegree ! v = 0" using that(1) len by (simp_all add: sources_def)
    then show ?thesis using in_count_rest [of "{}" "length nodes" u nodes v] val [of v] that(2) by simp
  qed
  have "\<not> 0 < edges_to nodes u (sources indegree ! i)" if "i < length (sources indegree)" "u < length nodes" for i u
    using none that nth_mem by blast
  moreover have "distinct (sources indegree)" "set (sources indegree) = {v. v < length nodes \<and> indegree ! v = 0}"
    using len by (auto simp: sources_def)
  ultimately show ?thesis unfolding sort_inv_def using len val by (auto simp: in_count_def)
qed

lemma sort_nodes_step:
  assumes raw: "raw_graph nodes indegree0" and inv: "sort_inv nodes order order [] indegree (x # ready)"
  shows "\<exists>indegree' ready'. x < length nodes \<and> fold_run release_edge (rn_edges (nodes ! x)) (indegree, ready) = Some (indegree', ready') \<and>
    sort_inv nodes (order @ [x]) (order @ [x]) [] indegree' ready'"
proof -
  have x: "x < length nodes" "x \<notin> set order" using inv by (auto simp: sort_inv_def)
  have topo: "u \<in> set (take i (order @ [x]))" if "i < length (order @ x # ready)" "u < length nodes" "0 < edges_to nodes u ((order @ x # ready) ! i)" for i u
    using inv that by (fastforce simp: sort_inv_def)
  have "sort_inv nodes order (order @ [x]) [] indegree ready"
    using inv topo by (simp add: sort_inv_def)
  from release_edges [OF _ x refl _ this, of "rn_edges (nodes ! x)"] raw obtain indegree' ready' where
    r: "fold_run release_edge (rn_edges (nodes ! x)) (indegree, ready) = Some (indegree', ready')"
      "sort_inv nodes order (order @ [x]) (rn_edges (nodes ! x)) indegree' ready'"
    by (auto simp: raw_graph_def)
  have "in_count nodes (set (order @ [x])) v = length (filter (\<lambda>e. unat (re_next e) = v) (rn_edges (nodes ! x))) + in_count nodes (set order) v" for v
    using in_count_insert [OF finite_set x(2), of nodes v] by (simp add: edges_to_def)
  with r(2) have "sort_inv nodes (order @ [x]) (order @ [x]) [] indegree' ready'" by (simp add: sort_inv_def)
  with r(1) x(1) show ?thesis by blast
qed

lemma sort_nodes_total:
  assumes raw: "raw_graph nodes indegree0"
  shows "sort_inv nodes order order [] indegree ready \<Longrightarrow>
    \<exists>result indegree'. sort_nodes nodes indegree ready order = Some result \<and> sort_inv nodes result result [] indegree' []"
  using raw
proof (induction nodes indegree ready order rule: sort_nodes.induct)
  case (2 nodes indegree x ready order)
  from sort_nodes_step [OF 2(3,2)] obtain indegree' ready' where
    s: "x < length nodes" "fold_run release_edge (rn_edges (nodes ! x)) (indegree, ready) = Some (indegree', ready')"
      "sort_inv nodes (order @ [x]) (order @ [x]) [] indegree' ready'" by blast
  from "2.IH" [OF _ s(2) refl s(3)] 2(3) s(1,2) show ?case by (simp add: index_run_def)
qed auto

subsection \<open>Positions and placement\<close>

lemma position_at: "distinct names \<Longrightarrow> i < length names \<Longrightarrow> name_position names (names ! i) = i"
proof (induction names arbitrary: i)
  case (Cons n names)
  then show ?case by (cases i) (auto simp: name_position_def)
qed simp

lemma position_less: "name \<in> set names \<Longrightarrow> name_position names name < length names \<and> names ! name_position names name = name"
  by (induction names) (auto simp: name_position_def)

lemma insert_edges_total:
  assumes ok: "table_ok indexes"
  shows "\<forall>e \<in> set edges. rec_from e \<noteq> rec_to e \<Longrightarrow> route_names edges \<subseteq> set (names_of indexes) \<Longrightarrow>
    \<exists>st'. fold_run (insert_edge indexes) edges (config_nodes (table_index indexes) (names_of indexes) past,
      map (\<lambda>name. int (edges_into name past)) (names_of indexes)) = Some st'"
proof (induction edges arbitrary: past)
  case (Cons e edges)
  let ?st = "\<lambda>past. (config_nodes (table_index indexes) (names_of indexes) past, map (\<lambda>name. int (edges_into name past)) (names_of indexes))"
  have "rec_from e \<in> set (names_of indexes)" "rec_to e \<in> set (names_of indexes)" using Cons.prems(2) by (auto simp: route_names_def)
  then obtain i j where ij: "map_of indexes (rec_from e) = Some i" "map_of indexes (rec_to e) = Some j"
    using table_index_less [OF ok] by (metis table_lookup [OF ok])
  then have b: "i < length indexes" "j < length indexes" "i \<noteq> j" using Cons.prems(1) by (auto simp: table_lookup [OF ok])
  then obtain st1 where s: "insert_edge indexes e (?st past) = Some st1"
    using ij by (simp add: insert_edge_def update_run_def config_nodes_def)
  from Cons.IH [of "past @ [e]"] Cons.prems s insert_edge_step(1) [OF ok s] show ?case by (simp add: route_names_def)
qed simp

lemma set_positions:
  assumes "distinct order" "set order \<subseteq> {..<n}"
  shows "\<exists>positions. fold_run (set_position order) [0..<length order] (replicate n 0) = Some positions \<and>
    length positions = n \<and> (\<forall>i < length order. positions ! (order ! i) = word_of_nat i)"
proof -
  let ?I = "\<lambda>i positions. length positions = n \<and> (\<forall>k < i. positions ! (order ! k) = word_of_nat k)"
  have "\<exists>p'. set_position order i p = Some p' \<and> ?I (Suc i) p'" if "i < length order" "?I i p" for i p
  proof -
    have b: "order ! i < n" using assms(2) that(1) nth_mem by blast
    have "order ! i \<noteq> order ! k" if "k < i" for k using assms(1) that \<open>i < length order\<close> by (simp add: nth_eq_iff_index_eq)
    then have "\<forall>k < Suc i. p[order ! i := word_of_nat i] ! (order ! k) = word_of_nat k"
      using b that by (simp add: less_Suc_eq all_conj_distrib nth_list_update)
    with b that show ?thesis by (simp add: set_position_def update_run_def)
  qed
  then show ?thesis using fold_run_upt [of ?I "replicate n 0" "length order" "set_position order"] by simp
qed

lemma map_run_map: "(\<And>x. x \<in> set xs \<Longrightarrow> f x = Some (g x)) \<Longrightarrow> map_run f xs = Some (map g xs)"
  by (induction xs) simp_all

lemma sort_nodes_topological:
  assumes raw: "raw_graph nodes indegree"
  shows "\<exists>order. sort_nodes nodes indegree (sources indegree) [] = Some order \<and> distinct order \<and> set order \<subseteq> {..<length nodes} \<and>
    (\<forall>i < length order. \<forall>u < length nodes. 0 < edges_to nodes u (order ! i) \<longrightarrow> u \<in> set (take i order)) \<and>
    (\<forall>v < length nodes. v \<notin> set order \<longrightarrow> (\<exists>u < length nodes. u \<notin> set order \<and> 0 < edges_to nodes u v))"
proof -
  from sort_nodes_total [OF raw sort_inv_start [OF raw]] obtain order indegree' where
    s: "sort_nodes nodes indegree (sources indegree) [] = Some order" and inv: "sort_inv nodes order order [] indegree' []" by blast
  have sub: "set order \<subseteq> {..<length nodes}" using inv by (simp add: sort_inv_def)
  have "\<exists>u < length nodes. u \<notin> set order \<and> 0 < edges_to nodes u v" if v: "v < length nodes" "v \<notin> set order" for v
  proof (rule ccontr)
    assume a: "\<not> ?thesis"
    have "in_count nodes {..<length nodes} v = in_count nodes (set order) v" unfolding in_count_def
      by (rule sum.mono_neutral_right) (use sub a in auto)
    then show False using inv v by (simp add: sort_inv_def)
  qed
  then show ?thesis using s inv by (auto simp: sort_inv_def)
qed

lemma edge_between:
  assumes "table_ok indexes" "length indexes \<le> 2 ^ 32" "route_names edges \<subseteq> set (names_of indexes)" "u < length indexes" "v < length indexes"
  shows "0 < edges_to (config_nodes (table_index indexes) (names_of indexes) edges) u v \<longleftrightarrow> (names_of indexes ! u, names_of indexes ! v) \<in> edge_pairs edges"
  unfolding edges_to_config [OF assms] by (force simp: edge_pairs_def filter_empty_conv)

lemma acyclic_sorted:
  assumes "table_ok indexes" "length indexes \<le> 2 ^ 32" "route_names edges \<subseteq> set (names_of indexes)" "acyclic (edge_pairs edges)"
    and "\<forall>v < length indexes. v \<notin> set order \<longrightarrow>
      (\<exists>u < length indexes. u \<notin> set order \<and> 0 < edges_to (config_nodes (table_index indexes) (names_of indexes) edges) u v)"
  shows "{..<length indexes} \<subseteq> set order"
proof (rule ccontr)
  let ?Q = "{name. \<exists>v < length indexes. v \<notin> set order \<and> name = names_of indexes ! v}"
  assume "\<not> ?thesis"
  then obtain name where "name \<in> ?Q" by auto
  moreover have "wf (edge_pairs edges)" using assms(4) by (intro finite_acyclic_wf) (simp add: edge_pairs_def)
  ultimately obtain z where z: "z \<in> ?Q" "\<And>y. (y, z) \<in> edge_pairs edges \<Longrightarrow> y \<notin> ?Q" by (metis (no_types, lifting) wfE_min)
  then obtain v where v: "v < length indexes" "v \<notin> set order" "z = names_of indexes ! v" by auto
  with assms(5) obtain u where "u < length indexes" "u \<notin> set order"
    "0 < edges_to (config_nodes (table_index indexes) (names_of indexes) edges) u v" by blast
  with v z(2) show False using edge_between [OF assms(1-3) _ v(1), of u] by blast
qed

subsection \<open>The whole construction\<close>

lemma sorted_names_acyclic:
  assumes "sorted_names edges names"
  shows "acyclic (edge_pairs edges)"
proof -
  have "edge_pairs edges \<subseteq> measure (name_position names)" using assms by (auto simp: sorted_names_def edge_pairs_def)
  then show ?thesis using wf_acyclic wf_subset wf_measure by blast
qed

lemma no_edges_yet:
  "(replicate (length indexes) \<lparr>rn_edges = []\<rparr>, replicate (length indexes) 0) =
    (config_nodes (table_index indexes) (names_of indexes) [], map (\<lambda>name. int (edges_into name [])) (names_of indexes))"
  by (simp add: config_nodes_def edges_into_def map_replicate_const)

lemma length_filter_names:
  assumes "table_ok indexes" "set (names_of indexes) = route_names edges"
  shows "length (filter P (names_of indexes)) = card {name \<in> route_names edges. P name}"
proof -
  have "distinct (filter P (names_of indexes))" using assms(1) by (simp add: table_ok_def)
  then show ?thesis using distinct_card assms(2) by fastforce
qed

lemma count_sources:
  assumes "table_ok indexes" "set (names_of indexes) = route_names edges"
  shows "length (sources (map (\<lambda>name. int (edges_into name edges)) (names_of indexes))) = card (route_sources edges)"
proof -
  let ?P = "\<lambda>name. edges_into name edges = 0"
  have "filter ?P (map ((!) (names_of indexes)) [0..<length indexes]) = map ((!) (names_of indexes)) (filter (\<lambda>i. ?P (names_of indexes ! i)) [0..<length indexes])"
    by (simp add: filter_map o_def)
  then have "length (filter ?P (names_of indexes)) = length (filter (\<lambda>i. ?P (names_of indexes ! i)) [0..<length indexes])"
    using map_nth [of "names_of indexes"] by simp
  also have "filter (\<lambda>i. ?P (names_of indexes ! i)) [0..<length indexes] = sources (map (\<lambda>name. int (edges_into name edges)) (names_of indexes))"
    unfolding sources_def by (auto intro: filter_cong)
  finally show ?thesis using length_filter_names [OF assms, of ?P]
    by (simp add: route_sources_def edges_into_def filter_empty_conv)
qed

lemma count_sinks:
  assumes "table_ok indexes" "set (names_of indexes) = route_names edges"
  shows "length (filter (\<lambda>node. rn_edges node = []) (config_nodes ix (names_of indexes) edges)) = card (route_sinks edges)"
  using length_filter_names [OF assms, of "\<lambda>name. \<forall>e \<in> set edges. rec_from e \<noteq> name"]
  by (simp add: config_nodes_def filter_map o_def filter_empty_conv route_sinks_def)

lemma placed_nodes:
  assumes ok: "table_ok indexes" "length indexes \<le> 2 ^ 32" "route_names edges \<subseteq> set (names_of indexes)"
    and order: "distinct order" "set order = {..<length indexes}"
    and pos: "length positions = length indexes" "\<forall>i < length order. positions ! (order ! i) = word_of_nat i"
    and names: "names = map ((!) (names_of indexes)) order"
  shows "map_run (place_node (config_nodes (table_index indexes) (names_of indexes) edges) positions) order =
    Some (config_nodes (name_position names) names edges)"
proof -
  have dn: "distinct names" unfolding names using order ok(1) by (auto simp: distinct_map table_ok_def inj_on_def nth_eq_iff_index_eq)
  have at: "positions ! table_index indexes name = word_of_nat (name_position names name)" if "name \<in> set (names_of indexes)" for name
  proof -
    from table_index_less [OF ok(1) that] order(2) obtain i where i: "i < length order" "order ! i = table_index indexes name"
      by (metis in_set_conv_nth lessThan_iff)
    then have "names ! i = name" using table_index_less(2) [OF ok(1) that] by (simp add: names)
    then have "name_position names name = i" using position_at [OF dn, of i] i(1) by (simp add: names)
    then show ?thesis using pos(2) i by auto
  qed
  have edge: "place_edge positions (config_edge (table_index indexes) e) = Some (config_edge (name_position names) e)" if "e \<in> set edges" for e
  proof -
    have m: "rec_to e \<in> set (names_of indexes)" using that ok(3) by (auto simp: route_names_def)
    show ?thesis using config_edge_next [OF ok(1,2) m] table_index_less(1) [OF ok(1) m] at [OF m] pos(1)
      by (simp add: place_edge_def index_run_def config_edge_def)
  qed
  have "place_node (config_nodes (table_index indexes) (names_of indexes) edges) positions x =
    Some \<lparr>rn_edges = map (config_edge (name_position names)) (filter (\<lambda>e. rec_from e = names_of indexes ! x) edges)\<rparr>" if "x \<in> set order" for x
  proof -
    have "map_run (place_edge positions) (map (config_edge (table_index indexes)) (filter (\<lambda>e. rec_from e = names_of indexes ! x) edges)) =
      Some (map (config_edge (name_position names)) (filter (\<lambda>e. rec_from e = names_of indexes ! x) edges))"
      using edge by (induction edges) simp_all
    then show ?thesis using that order(2) by (simp add: place_node_def index_run_def config_nodes_def)
  qed
  from map_run_map [OF this] show ?thesis by (simp add: config_nodes_def names o_def)
qed

lemma order_sorted_names:
  assumes ok: "table_ok indexes" "length indexes \<le> 2 ^ 32" "route_names edges = set (names_of indexes)"
    and order: "distinct order" "set order = {..<length indexes}"
    and topo: "\<forall>i < length order. \<forall>u < length indexes.
      0 < edges_to (config_nodes (table_index indexes) (names_of indexes) edges) u (order ! i) \<longrightarrow> u \<in> set (take i order)"
  shows "sorted_names edges (map ((!) (names_of indexes)) order)"
proof -
  let ?names = "map ((!) (names_of indexes)) order"
  have dn: "distinct ?names" using order ok(1) by (auto simp: distinct_map table_ok_def inj_on_def nth_eq_iff_index_eq)
  have sn: "set ?names = route_names edges" using order(2) ok(3) by (auto simp: in_set_conv_nth)
  have "name_position ?names (rec_from e) < name_position ?names (rec_to e)" if e: "e \<in> set edges" for e
  proof -
    let ?i = "name_position ?names (rec_to e)"
    have "rec_to e \<in> set ?names" "rec_from e \<in> set (names_of indexes)" using e sn ok(3) by (auto simp: route_names_def)
    then have i: "?i < length order" "names_of indexes ! (order ! ?i) = rec_to e" using position_less [of "rec_to e" ?names] by auto
    obtain u where u: "u < length indexes" "names_of indexes ! u = rec_from e"
      using \<open>rec_from e \<in> set (names_of indexes)\<close> by (auto simp: in_set_conv_nth)
    have "order ! ?i < length indexes" using i(1) order(2) nth_mem by blast
    then have "0 < edges_to (config_nodes (table_index indexes) (names_of indexes) edges) u (order ! ?i)"
      using edge_between [OF ok(1,2) _ u(1), of edges "order ! ?i"] ok(3) i(2) u(2) e by (auto simp: edge_pairs_def)
    then have "u \<in> set (take ?i order)" using topo i(1) u(1) by blast
    then obtain j where j: "j < ?i" "order ! j = u" using i(1) by (auto simp: in_set_conv_nth)
    then have "name_position ?names (rec_from e) = j" using position_at [OF dn, of j] i(1) u(2) by simp
    then show ?thesis using j(1) by simp
  qed
  then show ?thesis using dn sn by (simp add: sorted_names_def)
qed

lemma sort_config:
  assumes ok: "table_ok indexes" "length indexes \<le> 2 ^ 32" "set (names_of indexes) = route_names edges"
    and nodes: "nodes = config_nodes (table_index indexes) (names_of indexes) edges"
      "indegree = map (\<lambda>name. int (edges_into name edges)) (names_of indexes)"
  shows "\<exists>order. sort_nodes nodes indegree (sources indegree) [] = Some order \<and>
    (length order = length nodes \<longleftrightarrow> acyclic (edge_pairs edges)) \<and>
    (length order = length nodes \<longrightarrow> (\<exists>names positions. sorted_names edges names \<and>
       fold_run (set_position order) [0..<length order] (replicate (length nodes) 0) = Some positions \<and>
       map_run (place_node nodes positions) order = Some (config_nodes (name_position names) names edges)))"
proof -
  have sub: "route_names edges \<subseteq> set (names_of indexes)" using ok(3) by simp
  have len: "length nodes = length indexes" by (simp add: nodes(1) config_nodes_def)
  have raw: "raw_graph nodes indegree" unfolding nodes by (rule config_raw_graph [OF ok(1,2) sub])
  from sort_nodes_topological [OF raw] obtain order where
    s: "sort_nodes nodes indegree (sources indegree) [] = Some order" "distinct order" "set order \<subseteq> {..<length indexes}"
    and topo: "\<forall>i < length order. \<forall>u < length indexes. 0 < edges_to nodes u (order ! i) \<longrightarrow> u \<in> set (take i order)"
    and rest: "\<forall>v < length indexes. v \<notin> set order \<longrightarrow> (\<exists>u < length indexes. u \<notin> set order \<and> 0 < edges_to nodes u v)"
    unfolding len by auto
  have card: "length order = card (set order)" using s(2) by (simp add: distinct_card)
  have full: "set order = {..<length indexes}" if "length order = length nodes"
    using that card len s(3) card_subset_eq [of "{..<length indexes}" "set order"] by simp
  have placed: "\<exists>names positions. sorted_names edges names \<and>
       fold_run (set_position order) [0..<length order] (replicate (length nodes) 0) = Some positions \<and>
       map_run (place_node nodes positions) order = Some (config_nodes (name_position names) names edges)" if l: "length order = length nodes"
  proof -
    from set_positions [OF s(2,3)] obtain positions where p:
      "fold_run (set_position order) [0..<length order] (replicate (length indexes) 0) = Some positions"
      "length positions = length indexes" "\<forall>i < length order. positions ! (order ! i) = word_of_nat i" by blast
    show ?thesis using p(1) [folded len] placed_nodes [OF ok(1,2) sub s(2) full [OF l] p(2,3) refl]
        order_sorted_names [OF ok(1,2) ok(3) [symmetric] s(2) full [OF l] topo [unfolded nodes]] unfolding nodes by blast
  qed
  have "length order = length nodes" if "acyclic (edge_pairs edges)"
    using card subset_antisym [OF s(3) acyclic_sorted [OF ok(1,2) sub that rest [unfolded nodes]]] len by (metis card_lessThan)
  then show ?thesis using s(1) placed sorted_names_acyclic by blast
qed

lemma build_route_cases:
  assumes small: "2 * length edges \<le> 2 ^ 32"
  shows "if accepted edges then \<exists>names. sorted_names edges names \<and> build_route edges = Some (sorted_graph edges names)
    else build_route edges = None"
proof -
  let ?t = "index_names edges"
  define nodes where "nodes = config_nodes (table_index ?t) (names_of ?t) edges"
  define indegree where "indegree = map (\<lambda>name. int (edges_into name edges)) (names_of ?t)"
  have len: "length ?t \<le> 2 ^ 32" using index_names_length [of edges] small by simp
  note tbl = index_names_ok [of edges] index_names_set [of edges]
  have ins: "fold_run (insert_edge ?t) edges (replicate (length ?t) \<lparr>rn_edges = []\<rparr>, replicate (length ?t) 0) =
    (if \<forall>e \<in> set edges. rec_from e \<noteq> rec_to e then Some (nodes, indegree) else None)"
  proof (cases "fold_run (insert_edge ?t) edges (replicate (length ?t) \<lparr>rn_edges = []\<rparr>, replicate (length ?t) 0)")
    case None
    then show ?thesis using insert_edges_total [OF tbl(1), of edges "[]"] unfolding no_edges_yet by (auto simp: tbl(2))
  next
    case (Some st)
    then show ?thesis using insert_edges [OF tbl(1), of edges "[]" st] unfolding no_edges_yet by (simp add: nodes_def indegree_def)
  qed
  have loop: "\<forall>e \<in> set edges. rec_from e \<noteq> rec_to e" if "acyclic (edge_pairs edges)"
  proof
    fix e assume "e \<in> set edges"
    then have "(rec_from e, rec_to e) \<in> (edge_pairs edges)\<^sup>+" by (auto simp: edge_pairs_def)
    then show "rec_from e \<noteq> rec_to e" using that by (auto simp: acyclic_def)
  qed
  from sort_config [OF tbl(1) len tbl(2) nodes_def indegree_def] obtain order where
    o: "sort_nodes nodes indegree (sources indegree) [] = Some order" "length order = length nodes \<longleftrightarrow> acyclic (edge_pairs edges)"
      "length order = length nodes \<longrightarrow> (\<exists>names positions. sorted_names edges names \<and>
       fold_run (set_position order) [0..<length order] (replicate (length nodes) 0) = Some positions \<and>
       map_run (place_node nodes positions) order = Some (config_nodes (name_position names) names edges))" by blast
  have counts: "length (sources indegree) = card (route_sources edges)"
    "length (filter (\<lambda>node. rn_edges node = []) nodes) = card (route_sinks edges)"
    unfolding nodes_def indegree_def by (rule count_sources count_sinks, (rule tbl)+)+
  show ?thesis
  proof (cases "accepted edges")
    case True
    then have a: "edges \<noteq> []" "acyclic (edge_pairs edges)" "card (route_sources edges) = 1" "card (route_sinks edges) = 1"
      by (simp_all add: accepted_def)
    from o a(2) obtain names positions where n: "sorted_names edges names"
      "fold_run (set_position order) [0..<length order] (replicate (length nodes) 0) = Some positions"
      "map_run (place_node nodes positions) order = Some (config_nodes (name_position names) names edges)" by blast
    have "build_route edges = Some (sorted_graph edges names)"
      using a o(1,2) n(2,3) ins loop [OF a(2)] counts by (simp add: build_route_def Let_def sorted_graph_def)
    then show ?thesis using True n(1) by auto
  next
    case False
    then show ?thesis using o(1,2) ins counts by (auto simp: build_route_def Let_def accepted_def)
  qed
qed

subsection \<open>The graph handed to the planner\<close>

lemma sorted_names_length:
  assumes "sorted_names edges names"
  shows "length names = card (route_names edges)" "card (route_names edges) \<le> 2 * length edges"
proof -
  show "length names = card (route_names edges)" using assms distinct_card by (fastforce simp: sorted_names_def)
  have "card (route_names edges) \<le> card (rec_from ` set edges) + card (rec_to ` set edges)" unfolding route_names_def by (rule card_Un_le)
  then show "card (route_names edges) \<le> 2 * length edges"
    using card_image_le [of "set edges" rec_from] card_image_le [of "set edges" rec_to] card_length [of edges] by simp
qed

lemma sorted_graph_node:
  assumes "m < length names"
  shows "rn_edges (rg_nodes (sorted_graph edges names) ! m) = map (config_edge (name_position names)) (filter (\<lambda>e. rec_from e = names ! m) edges)"
  using assms by (simp add: sorted_graph_def config_nodes_def)

lemma sorted_graph_length [simp]: "length (rg_nodes (sorted_graph edges names)) = length names"
  by (simp add: sorted_graph_def config_nodes_def)

lemma sorted_graph_next:
  assumes names: "sorted_names edges names" and small: "2 * length edges \<le> 2 ^ 32" and e: "e \<in> set edges"
  shows "unat (re_next (config_edge (name_position names) e)) = name_position names (rec_to e)" "name_position names (rec_to e) < length names"
proof -
  have m: "rec_to e \<in> set names" using names e by (auto simp: sorted_names_def route_names_def)
  then show l: "name_position names (rec_to e) < length names" using position_less by blast
  have "length names \<le> 2 ^ 32" using sorted_names_length [OF names] small by simp
  then show "unat (re_next (config_edge (name_position names) e)) = name_position names (rec_to e)"
    using l by (simp add: config_edge_def unat_of_nat take_bit_nat_eq_self)
qed

lemma sorted_graph_ordered:
  assumes names: "sorted_names edges names" "edges \<noteq> []" and small: "2 * length edges \<le> 2 ^ 32"
  shows "graph_ordered (sorted_graph edges names)" "2 \<le> length names"
proof -
  obtain e where e: "e \<in> set edges" using names(2) by (cases edges) auto
  then have "name_position names (rec_from e) < name_position names (rec_to e)" using names(1) by (simp add: sorted_names_def)
  then show two: "2 \<le> length names" using sorted_graph_next(2) [OF names(1) small e] by simp
  have "m < unat (re_next x) \<and> unat (re_next x) < length names"
    if m: "m < length names" and x: "x \<in> set (rn_edges (rg_nodes (sorted_graph edges names) ! m))" for m x
  proof -
    from x obtain e where e: "e \<in> set edges" "rec_from e = names ! m" "x = config_edge (name_position names) e"
      unfolding sorted_graph_node [OF m] by auto
    have "name_position names (rec_from e) = m" using position_at [OF _ m] names(1) e(2) by (simp add: sorted_names_def)
    then show ?thesis using sorted_graph_next [OF names(1) small e(1)] names(1) e(1,3) by (auto simp: sorted_names_def)
  qed
  moreover have "rg_nodes (sorted_graph edges names) \<noteq> []" using two sorted_graph_length [of edges names] by fastforce
  ultimately show "graph_ordered (sorted_graph edges names)" by (simp add: graph_ordered_def)
qed

lemma sorted_sink:
  assumes names: "sorted_names edges names" "accepted edges" and small: "2 * length edges \<le> 2 ^ 32" and m: "m < length names"
  shows "rn_edges (rg_nodes (sorted_graph edges names) ! m) = [] \<longleftrightarrow> Suc m = length names"
proof -
  note ord = sorted_graph_ordered [OF names(1) _ small]
  have ne: "edges \<noteq> []" using names(2) by (simp add: accepted_def)
  have sink: "rn_edges (rg_nodes (sorted_graph edges names) ! k) = [] \<longleftrightarrow> names ! k \<in> route_sinks edges" if "k < length names" for k
    using names(1) nth_mem [OF that] by (auto simp: sorted_graph_node [OF that] route_sinks_def sorted_names_def filter_empty_conv)
  let ?l = "length names - 1"
  have l: "?l < length names" using m by simp
  have "rn_edges (rg_nodes (sorted_graph edges names) ! ?l) = []"
  proof (cases "rn_edges (rg_nodes (sorted_graph edges names) ! ?l)")
    case (Cons e es)
    then have "?l < unat (re_next e) \<and> unat (re_next e) < length names" using ord(1) [OF ne] l by (simp add: graph_ordered_def)
    then show ?thesis by arith
  qed
  then have s: "names ! ?l \<in> route_sinks edges" using sink [OF l] by simp
  have "card (route_sinks edges) = 1" using names(2) by (simp add: accepted_def)
  with s have "route_sinks edges = {names ! ?l}" by (metis card_1_singletonE singletonD)
  then have "rn_edges (rg_nodes (sorted_graph edges names) ! m) = [] \<longleftrightarrow> m = ?l"
    using sink [OF m] names(1) m l by (simp add: sorted_names_def nth_eq_iff_index_eq)
  then show ?thesis using m by auto
qed

lemma sorted_source:
  assumes names: "sorted_names edges names" "accepted edges" and m: "0 < m" "m < length names"
  shows "\<exists>e \<in> set edges. rec_to e = names ! m"
proof (rule ccontr)
  assume "\<not> ?thesis"
  then have s: "names ! m \<in> route_sources edges" using names(1) m by (auto simp: route_sources_def sorted_names_def)
  have "names ! 0 \<in> route_sources edges"
  proof -
    have "name_position names (names ! 0) = 0" using position_at [OF _ order.strict_trans [OF m]] names(1) by (simp add: sorted_names_def)
    then have "rec_to e \<noteq> names ! 0" if "e \<in> set edges" for e using names(1) that by (fastforce simp: sorted_names_def)
    moreover have "names ! 0 \<in> route_names edges" using names(1) nth_mem [OF order.strict_trans [OF m]] by (simp add: sorted_names_def)
    ultimately show ?thesis by (auto simp: route_sources_def)
  qed
  then have "names ! m = names ! 0" using s names(2) unfolding accepted_def by (metis card_1_singletonE singletonD)
  then show False using names(1) m nth_eq_iff_index_eq [OF _ m(2) order.strict_trans [OF m]] by (simp add: sorted_names_def)
qed

lemma sorted_graph_channels:
  assumes "distinct_channels edges"
  shows "\<forall>n \<in> set (rg_nodes (sorted_graph edges names)). distinct (map re_channel_id (rn_edges n))"
  using assms by (auto simp: sorted_graph_def config_nodes_def distinct_channels_def o_def config_edge_def)

lemma planner_channels:
  "(\<forall>n \<in> set (rg_nodes (rcf_graph route)). distinct (map re_channel_id (rn_edges n))) \<Longrightarrow> channels_distinct (planner_nodes (planner_new route))"
  by (auto simp: channels_distinct_def planner_new_def edge_new_def o_def)

lemma default_graph_ok:
  assumes "distinct chans"
  shows "graph_ordered (default_graph chans)" "length (rg_nodes (default_graph chans)) = 2"
    "\<forall>n \<in> set (rg_nodes (default_graph chans)). distinct (map re_channel_id (rn_edges n))"
  using assms by (auto simp: default_graph_def graph_ordered_def less_Suc_eq o_def)

lemma default_overhead_fits:
  assumes "graph_ordered (rcf_graph (ec_route config))" "length (rg_nodes (rcf_graph (ec_route config))) \<le> 65"
    "rcf_min_mtu (ec_route config) = DEFAULT_TRANSPORT_MTU"
  shows "case scheduled_packet_overhead config of None \<Rightarrow> False
    | Some overhead \<Rightarrow> overhead + 47 \<le> effective_transport_mtu (rcf_min_mtu (ec_route config))"
proof -
  let ?nodes = "rg_nodes (rcf_graph (ec_route config))"
  from scheduled_packet_overhead_spec [OF assms(1)] obtain hops where h: "longest_from ?nodes 0 hops"
    "scheduled_packet_overhead config = Some ((48 + unat (ec_padding_reserve config) + usize_sub hops 1 * 2) mod 2 ^ 64)" by blast
  then obtain path where "graph_path ?nodes 0 path" "length path = hops" by (auto simp: longest_from_def)
  with graph_path_short [OF assms(1), of 0 path] assms(1) have "hops < length ?nodes" by (simp add: graph_ordered_def)
  moreover have "unat (ec_padding_reserve config) < 256" using unsigned_less [of "ec_padding_reserve config"] by simp
  ultimately have "(48 + unat (ec_padding_reserve config) + usize_sub hops 1 * 2) mod 2 ^ 64 \<le> 431"
    using assms(2) by (cases hops) (simp_all add: usize_sub_def mod_if)
  moreover have "effective_transport_mtu (rcf_min_mtu (ec_route config)) = 1400"
    unfolding assms(3) by (simp add: effective_transport_mtu_def DEFAULT_TRANSPORT_MTU_def MAX_TRANSPORT_PACKET_SIZE_def)
  ultimately show ?thesis unfolding h(2) by simp
qed

lemma started_config_ok:
  assumes start: "start_endpoint ek mk seed boot chans route (endpoint_tuning fc) = Some config"
    and cf: "rfc_min_mtu (cfc_route fc) = None" "rfc_feedback_interval_ms (cfc_route fc) \<noteq> Some 0"
      "cfc_padding_reserve fc \<noteq> Some 0" "kfc_receive_window (cfc_kcp fc) \<noteq> Some 1"
    and graph: "graph = unwrap_or route (default_graph chans)" "graph_ordered graph" "2 \<le> length (rg_nodes graph)" "length (rg_nodes graph) \<le> 65"
      "\<forall>n \<in> set (rg_nodes graph). distinct (map re_channel_id (rn_edges n))"
  shows "config_ok config"
proof -
  from start have c: "config = \<lparr>ec_envelope_key = ek, ec_message_key = mk, ec_random_seed = seed,
       ec_boot_time_ms = boot, ec_kcp = to_kcp_config (cfc_kcp fc), ec_route = route_config (endpoint_tuning fc) graph,
       ec_local_channels = chans, ec_padding_reserve = unwrap_or (cfc_padding_reserve fc) 128,
       ec_keepalive_interval_ms = ect_keepalive_interval_ms (endpoint_tuning fc)\<rparr>"
    unfolding graph(1) by (auto simp: start_endpoint_def endpoint_route_graph_def Let_def bind_eq_Some_conv endpoint_tuning_def split: if_splits)
  have r: "rcf_graph (ec_route config) = graph" "rcf_min_mtu (ec_route config) = DEFAULT_TRANSPORT_MTU"
    "rcf_feedback_interval_ms (ec_route config) = unwrap_or (rfc_feedback_interval_ms (cfc_route fc)) 1000"
    "ec_padding_reserve config = unwrap_or (cfc_padding_reserve fc) 128"
    "kcf_receive_window (ec_kcp config) = unwrap_or (kfc_receive_window (cfc_kcp fc)) (kcf_receive_window kcp_config_default)"
    by (simp_all add: c route_config_def endpoint_tuning_def to_route_timing_def cf(1) unwrap_or_def to_kcp_config_def Let_def)
  have n: "unwrap_or (rfc_feedback_interval_ms (cfc_route fc)) 1000 \<noteq> 0" "unwrap_or (cfc_padding_reserve fc) 128 \<noteq> 0"
    "unwrap_or (kfc_receive_window (cfc_kcp fc)) (kcf_receive_window kcp_config_default) \<noteq> 1"
    using cf(2-4) by (auto simp: unwrap_or_def kcp_config_default_def split: option.splits)
  show ?thesis unfolding config_ok_def Let_def
    using graph(2-5) planner_channels [of "ec_route config"] default_overhead_fits [of config] r n by simp
qed

subsection \<open>Properties\<close>

lemma build_route_SomeE:
  assumes "build_route edges = Some g" "2 * length edges \<le> 2 ^ 32"
  obtains names where "sorted_names edges names" "g = sorted_graph edges names" "accepted edges"
  using build_route_cases [OF assms(2)] assms(1) by (auto split: if_splits)

text \<open>C21.  Acceptance of a route: \<open>build_route\<close> returns for an edge list exactly when the list is not
  empty, its edges form no cycle (a node joined to itself included), and exactly one node has no
  incoming edge and exactly one no outgoing edge; in every other case one of its assertions fails.
  The bound keeps the node indexes within their 32 bits.\<close>

theorem build_route_accepts:
  assumes "2 * length edges \<le> 2 ^ 32"
  shows "build_route edges \<noteq> None \<longleftrightarrow>
    edges \<noteq> [] \<and> acyclic (edge_pairs edges) \<and> card (route_sources edges) = 1 \<and> card (route_sinks edges) = 1"
  using build_route_cases [OF assms] by (auto simp: accepted_def split: if_splits)

theorem build_route_accepts_witness:
  "build_route [demo_edge ''a'' ''b'' 1, demo_edge ''b'' ''c'' 2, demo_edge ''c'' ''b'' 3, demo_edge ''b'' ''d'' 4] = None \<and>
   build_route demo_edges \<noteq> None \<and> acyclic (edge_pairs demo_edges)"
proof -
  have "build_route [demo_edge ''a'' ''b'' 1, demo_edge ''b'' ''c'' 2, demo_edge ''c'' ''b'' 3, demo_edge ''b'' ''d'' 4] = None" by code_simp
  moreover have "build_route demo_edges \<noteq> None" by code_simp
  ultimately show ?thesis using build_route_accepts [of demo_edges] by (simp add: demo_edges_def)
qed

text \<open>C19.  Result of \<open>build_route\<close>: there is an order of the node names, each named once, such that node
  \<open>m\<close> of the graph holds the edges of the file that leave the \<open>m\<close>-th name, in file order, with channel
  and hints kept and the target replaced by its position; every edge leads to a later node of the graph, the
  last node and only it has no outgoing edge, and the first node and only it has no incoming edge: the well-formedness
  the route planner relies on.\<close>

theorem build_route_sorts:
  assumes "build_route edges = Some g" "2 * length edges \<le> 2 ^ 32"
  shows "\<exists>names. distinct names \<and> set names = route_names edges \<and>
    rg_nodes g = map (\<lambda>name. \<lparr>rn_edges = map (config_edge (name_position names)) (filter (\<lambda>e. rec_from e = name) edges)\<rparr>) names \<and>
    graph_ordered g \<and> 2 \<le> length names \<and>
    (\<forall>m < length names. rn_edges (rg_nodes g ! m) = [] \<longleftrightarrow> Suc m = length names) \<and>
    (\<forall>m < length names. (\<exists>e \<in> set edges. rec_to e = names ! m) \<longleftrightarrow> m \<noteq> 0)"
proof -
  obtain names where n: "sorted_names edges names" "g = sorted_graph edges names" "accepted edges" by (rule build_route_SomeE [OF assms])
  have ne: "edges \<noteq> []" using n(3) by (simp add: accepted_def)
  have "rec_to e \<noteq> names ! 0" if e: "e \<in> set edges" and "0 < length names" for e
    using n(1) e position_at [of names 0] that(2) by (fastforce simp: sorted_names_def)
  then have src: "\<forall>m < length names. (\<exists>e \<in> set edges. rec_to e = names ! m) \<longleftrightarrow> m \<noteq> 0"
    using sorted_source [OF n(1,3)] by (metis gr0I)
  show ?thesis using n(1) sorted_graph_ordered [OF n(1) ne assms(2)] sorted_sink [OF n(1,3) assms(2)] src
    unfolding n(2) by (intro exI [of _ names]) (simp add: sorted_names_def sorted_graph_def config_nodes_def)
qed

theorem build_route_sorts_witness:
  "\<exists>g. build_route demo_edges = Some g \<and> graph_ordered g \<and> (\<exists>names. set names = {''home'', ''mid'', ''exit''} \<and>
    rg_nodes g = map (\<lambda>name. \<lparr>rn_edges = map (config_edge (name_position names)) (filter (\<lambda>e. rec_from e = name) demo_edges)\<rparr>) names)"
proof -
  have "build_route demo_edges \<noteq> None" by code_simp
  then obtain g where g: "build_route demo_edges = Some g" by blast
  have small: "2 * length demo_edges \<le> 2 ^ 32" and names: "route_names demo_edges = {''home'', ''mid'', ''exit''}"
    by (auto simp: demo_edges_def demo_edge_def route_names_def)
  from build_route_sorts [OF g small] g show ?thesis unfolding names by blast
qed

text \<open>C20.  From the file to a running endpoint: with the default MTU, a feedback interval and padding reserve
  that are not 0 and a receive window that is not 1, and either no route and distinct channels or a route that
  \<open>build_route\<close> accepts with at most 65 nodes and distinct channels per node, the endpoint the shell builds
  starts, and after any sequence of events it has processed neither a poll nor the opening of a session panics.\<close>

theorem configured_endpoint_runs:
  assumes "aead_correct cr" "start_endpoint ek mk seed boot chans route (endpoint_tuning fc) = Some config"
    and "case route_file of None \<Rightarrow> route = None \<and> distinct chans
      | Some edges \<Rightarrow> (\<exists>g. build_route edges = Some g \<and> route = Some g) \<and> distinct_channels edges \<and> card (route_names edges) \<le> 65 \<and> 2 * length edges \<le> 2 ^ 32"
    and "rfc_min_mtu (cfc_route fc) = None" "rfc_feedback_interval_ms (cfc_route fc) \<noteq> Some 0"
      "cfc_padding_reserve fc \<noteq> Some 0" "kfc_receive_window (cfc_kcp fc) \<noteq> Some 1"
  shows "\<exists>core0. endpoint_new cr config = Some core0 \<and>
    (\<forall>xs core es. endpoint_run cr xs core0 = Some (core, es) \<longrightarrow>
       endpoint_poll cr hash_iter core t actions \<noteq> None \<and> endpoint_handle_event cr core t SessionOpen actions \<noteq> None)"
proof -
  define graph where "graph = unwrap_or route (default_graph chans)"
  have "graph_ordered graph \<and> 2 \<le> length (rg_nodes graph) \<and> length (rg_nodes graph) \<le> 65 \<and>
    (\<forall>n \<in> set (rg_nodes graph). distinct (map re_channel_id (rn_edges n)))"
  proof (cases route_file)
    case None
    then show ?thesis using assms(3) default_graph_ok [of chans] by (simp add: graph_def unwrap_or_def)
  next
    case (Some edges)
    then obtain g where g: "build_route edges = Some g" "route = Some g" "distinct_channels edges" "card (route_names edges) \<le> 65"
      "2 * length edges \<le> 2 ^ 32" using assms(3) by auto
    obtain names where n: "sorted_names edges names" "g = sorted_graph edges names" "accepted edges" by (rule build_route_SomeE [OF g(1,5)])
    show ?thesis using sorted_graph_ordered [OF n(1) _ g(5)] n(3) sorted_names_length [OF n(1)] g(4) sorted_graph_channels [OF g(3)]
      by (simp add: graph_def g(2) n(2) unwrap_or_def accepted_def)
  qed
  then have ok: "config_ok config" using started_config_ok [OF assms(2) assms(4-7) graph_def] by blast
  from endpoint_new_good [OF assms(1) ok] obtain core0 where c: "endpoint_new cr config = Some core0" by blast
  have "endpoint_poll cr hash_iter core t actions \<noteq> None \<and> endpoint_handle_event cr core t SessionOpen actions \<noteq> None"
    if "endpoint_run cr xs core0 = Some (core, es)" for xs core es
  proof -
    note good = endpoint_run_good(1) [OF assms(1) ok c that]
    show ?thesis using endpoint_poll_total [OF good] session_open_total [OF good] by (simp only: endpoint_handle_event.simps) blast
  qed
  with c show ?thesis by blast
qed

lemma demo_edges_fit: "distinct_channels demo_edges" "card (route_names demo_edges) \<le> 65" "2 * length demo_edges \<le> 2 ^ 32"
  by (simp_all add: distinct_channels_def demo_edges_def demo_edge_def route_names_def card_insert_if)

lemma demo_start:
  "\<exists>g config. build_route demo_edges = Some g \<and>
    start_endpoint (replicate 16 0) (replicate 16 0) (replicate 32 0) 0 [1, 2] (Some g) (endpoint_tuning core_file_config_default) = Some config"
proof -
  have "map_option (\<lambda>g. start_endpoint (replicate 16 0) (replicate 16 0) (replicate 32 0) 0 [1, 2] (Some g) (endpoint_tuning core_file_config_default) \<noteq> None) (build_route demo_edges) = Some True"
    by code_simp
  then show ?thesis by auto
qed

theorem configured_endpoint_runs_witness:
  "\<exists>g config core0. build_route demo_edges = Some g \<and>
    start_endpoint (replicate 16 0) (replicate 16 0) (replicate 32 0) 0 [1, 2] (Some g) (endpoint_tuning core_file_config_default) = Some config \<and>
    endpoint_new demo_crypto config = Some core0 \<and> endpoint_poll demo_crypto id core0 5 [] \<noteq> None \<and>
    endpoint_handle_event demo_crypto core0 5 SessionOpen [] \<noteq> None"
proof -
  obtain g config where s: "build_route demo_edges = Some g"
    "start_endpoint (replicate 16 0) (replicate 16 0) (replicate 32 0) 0 [1, 2] (Some g) (endpoint_tuning core_file_config_default) = Some config"
    using demo_start by blast
  have "\<exists>core0. endpoint_new demo_crypto config = Some core0 \<and>
    (\<forall>xs core es. endpoint_run demo_crypto xs core0 = Some (core, es) \<longrightarrow>
       endpoint_poll demo_crypto id core 5 [] \<noteq> None \<and> endpoint_handle_event demo_crypto core 5 SessionOpen [] \<noteq> None)"
    by (rule configured_endpoint_runs [OF demo_crypto_correct s(2), of "Some demo_edges"])
      (use s(1) demo_edges_fit in \<open>simp_all add: core_file_config_default_def\<close>)
  then obtain core0 where c: "endpoint_new demo_crypto config = Some core0"
    "\<forall>xs core es. endpoint_run demo_crypto xs core0 = Some (core, es) \<longrightarrow>
       endpoint_poll demo_crypto id core 5 [] \<noteq> None \<and> endpoint_handle_event demo_crypto core 5 SessionOpen [] \<noteq> None" by blast
  have "endpoint_run demo_crypto [] core0 = Some (core0, [])" by simp
  with c s show ?thesis by blast
qed

end
