(* ===== verification/Socks5.thy ===== *)
theory Socks5
  imports Core_Types
begin

section \<open>SOCKS5 proxy (raynet-shell-plugins proxy_socks5.rs, proxy.rs)\<close>

text \<open>
  The handshake with a local client, the request it passes to the exit, the reply, and the transfer loop of both
  ends.  A task owns a TCP stream and the sending side of the channel to the endpoint runtime: the bytes the
  peer will send before it closes are \<open>tk_unread\<close>, the results of the coming writes and channel sends are the
  lists \<open>tk_write_results\<close> and \<open>tk_send_results\<close> (an exhausted list means success), and what was written and sent
  is recorded.  A computation returns \<open>Inl ()\<close> for \<^verbatim>\<open>Err(())\<close>.  A Rust \<^verbatim>\<open>String\<close> is its UTF-8 bytes; the decimal
  and hexadecimal formats, \<^verbatim>\<open>Display\<close> of addresses and \<^verbatim>\<open>from_utf8\<close> follow the standard library.
\<close>

datatype ProxyMessage = ProxyWrite bytes | ProxyClose CloseReason

datatype IpAddr = V4 bytes | V6 bytes

record SocketAddr =
  sa_ip :: IpAddr
  sa_port :: u16

record ProxyTask =
  tk_unread :: bytes
  tk_written :: bytes
  tk_shut :: bool
  tk_write_results :: "bool list"
  tk_output :: "ProxyMessage list"
  tk_send_results :: "bool list"

type_synonym 'a io = "ProxyTask \<Rightarrow> (unit + 'a) \<times> ProxyTask"

subsection \<open>Streams and channels\<close>

definition io_return :: "'a \<Rightarrow> 'a io" where
  "io_return x t = (Inr x, t)"

definition io_err :: "'a io" where
  "io_err t = (Inl (), t)"

definition io_bind :: "'a io \<Rightarrow> ('a \<Rightarrow> 'b io) \<Rightarrow> 'b io" where
  "io_bind m f t = (case m t of (Inl (), t') \<Rightarrow> (Inl (), t') | (Inr x, t') \<Rightarrow> f x t')"

definition read_exact :: "usize \<Rightarrow> bytes io" where
  "read_exact n t =
     (if n \<le> length (tk_unread t) then (Inr (take n (tk_unread t)), t\<lparr>tk_unread := drop n (tk_unread t)\<rparr>)
      else (Inl (), t\<lparr>tk_unread := []\<rparr>))"

definition next_result :: "bool list \<Rightarrow> bool" where
  "next_result rs = (case rs of [] \<Rightarrow> True | r # _ \<Rightarrow> r)"

definition write_all :: "bytes \<Rightarrow> unit io" where
  "write_all bs t =
     (let t' = t\<lparr>tk_write_results := tl (tk_write_results t)\<rparr>
      in if next_result (tk_write_results t) then (Inr (), t'\<lparr>tk_written := tk_written t @ bs\<rparr>) else (Inl (), t'))"

definition shutdown :: "unit io" where
  "shutdown t =
     (let t' = t\<lparr>tk_write_results := tl (tk_write_results t)\<rparr>
      in if next_result (tk_write_results t) then (Inr (), t'\<lparr>tk_shut := True\<rparr>) else (Inl (), t'))"

definition send_output :: "ProxyMessage \<Rightarrow> unit io" where
  "send_output msg t =
     (let t' = t\<lparr>tk_send_results := tl (tk_send_results t)\<rparr>
      in if next_result (tk_send_results t) then (Inr (), t'\<lparr>tk_output := tk_output t @ [msg]\<rparr>) else (Inl (), t'))"

subsection \<open>Handshake and reply\<close>

definition to_be_bytes :: "u16 \<Rightarrow> bytes" where
  "to_be_bytes p = [ucast (drop_bit 8 p), ucast p]"

definition from_be_bytes :: "bytes \<Rightarrow> u16" where
  "from_be_bytes bs = push_bit 8 (ucast (bs ! 0)) OR ucast (bs ! 1)"

definition reply :: "u8 \<Rightarrow> SocketAddr option \<Rightarrow> bytes" where
  "reply status addr =
     (let addr = (case addr of None \<Rightarrow> \<lparr>sa_ip = V4 [0, 0, 0, 0], sa_port = 0\<rparr> | Some a \<Rightarrow> a)
      in [5, status, 0] @ (case sa_ip addr of V4 ip \<Rightarrow> 1 # ip | V6 ip \<Rightarrow> 4 # ip) @ to_be_bytes (sa_port addr))"

definition read_request :: "bytes \<Rightarrow> usize \<Rightarrow> bytes io" where
  "read_request request remaining = io_bind (read_exact remaining) (\<lambda>rest. io_return (request @ rest))"

definition read_header :: "bytes io" where
  "read_header =
     io_bind (read_exact 4) (\<lambda>header.
     if take 3 header \<noteq> [5, 1, 0] then io_bind (write_all (reply 7 None)) (\<lambda>_. io_err)
     else if header ! 3 = 1 then read_request header 6
     else if header ! 3 = 4 then read_request header 18
     else if header ! 3 = 3 then io_bind (read_exact 1) (\<lambda>len. read_request (header @ len) (unat (len ! 0) + 2))
     else io_bind (write_all (reply 8 None)) (\<lambda>_. io_err))"

definition handshake :: "bytes io" where
  "handshake =
     io_bind (read_exact 2) (\<lambda>greeting.
     io_bind (read_exact (unat (greeting ! 1))) (\<lambda>methods.
     if greeting ! 0 \<noteq> 5 \<or> 0 \<notin> set methods then io_bind (write_all [5, 0xff]) (\<lambda>_. io_err)
     else io_bind (write_all [5, 0]) (\<lambda>_. read_header)))"

subsection \<open>Target of a request\<close>

fun digits :: "nat \<Rightarrow> nat \<Rightarrow> nat list" where
  "digits base n = (if base < 2 \<or> n < base then [n] else digits base (n div base) @ [n mod base])"

declare digits.simps [simp del]

definition digit_char :: "nat \<Rightarrow> u8" where
  "digit_char d = (if d < 10 then word_of_nat (48 + d) else word_of_nat (87 + d))"

definition decimal :: "nat \<Rightarrow> bytes" where
  "decimal n = map digit_char (digits 10 n)"

definition hexadecimal :: "nat \<Rightarrow> bytes" where
  "hexadecimal n = map digit_char (digits 16 n)"

fun join :: "bytes \<Rightarrow> bytes list \<Rightarrow> bytes" where
  "join sep [] = []"
| "join sep [x] = x"
| "join sep (x # xs) = x @ sep @ join sep xs"

definition ipv4_display :: "bytes \<Rightarrow> bytes" where
  "ipv4_display octets = join [46] (map (\<lambda>b. decimal (unat b)) octets)"

fun segments :: "bytes \<Rightarrow> nat list" where
  "segments (a # b # rest) = (256 * unat a + unat b) # segments rest"
| "segments _ = []"

definition zero_span_step :: "nat list \<Rightarrow> usize \<Rightarrow> (usize \<times> usize) \<times> (usize \<times> usize) \<Rightarrow> (usize \<times> usize) \<times> (usize \<times> usize)" where
  "zero_span_step segs i st =
     (let (longest, current) = st
      in if segs ! i = 0 then
           let current = (if snd current = 0 then (i, 1) else (fst current, snd current + 1))
           in (if snd longest < snd current then current else longest, current)
         else (longest, (0, 0)))"

definition zero_span :: "nat list \<Rightarrow> usize \<times> usize" where
  "zero_span segs = fst (fold (zero_span_step segs) [0..<length segs] ((0, 0), (0, 0)))"

definition ipv6_display :: "bytes \<Rightarrow> bytes" where
  "ipv6_display octets =
     (if take 12 octets = replicate 10 0 @ [0xff, 0xff] then [58, 58, 102, 102, 102, 102, 58] @ ipv4_display (drop 12 octets)
      else let segs = segments octets; (start, len) = zero_span segs; fmt = (\<lambda>xs. join [58] (map hexadecimal xs))
           in if 1 < len then fmt (take start segs) @ [58, 58] @ fmt (drop (start + len) segs) else fmt segs)"

definition continuation :: "u8 \<Rightarrow> bool" where
  "continuation b \<longleftrightarrow> 0x80 \<le> b \<and> b \<le> 0xBF"

fun utf8_valid :: "bytes \<Rightarrow> bool" where
  "utf8_valid [] = True"
| "utf8_valid (a # rest) =
     (if a < 0x80 then utf8_valid rest
      else case rest of [] \<Rightarrow> False
      | b # rest1 \<Rightarrow>
        if 0xC2 \<le> a \<and> a \<le> 0xDF then continuation b \<and> utf8_valid rest1
        else case rest1 of [] \<Rightarrow> False
        | c # rest2 \<Rightarrow>
          if 0xE0 \<le> a \<and> a \<le> 0xEF then
            continuation b \<and> (a = 0xE0 \<longrightarrow> 0xA0 \<le> b) \<and> (a = 0xED \<longrightarrow> b \<le> 0x9F) \<and> continuation c \<and> utf8_valid rest2
          else case rest2 of [] \<Rightarrow> False
          | d # rest3 \<Rightarrow>
            0xF0 \<le> a \<and> a \<le> 0xF4 \<and> continuation b \<and> (a = 0xF0 \<longrightarrow> 0x90 \<le> b) \<and> (a = 0xF4 \<longrightarrow> b \<le> 0x8F) \<and>
              continuation c \<and> continuation d \<and> utf8_valid rest3)"

definition target :: "bytes \<Rightarrow> (unit + bytes) run" where
  "target request =
     (if take 3 request \<noteq> [5, 1, 0] then Some (Inl ())
      else do {
        let atyp = (if 3 < length request then Some (request ! 3) else None);
        let len = (if atyp = Some 1 \<and> length request = 10 then Some 4
                   else if atyp = Some 4 \<and> length request = 22 then Some 16
                   else if atyp = Some 3 \<and> 7 \<le> length request \<and> length request = unat (request ! 4) + 7 then Some (unat (request ! 4))
                   else None);
        case len of
          None \<Rightarrow> Some (Inl ())
        | Some len \<Rightarrow> do {
            tail \<leftarrow> slice_run request (length request - 2) (length request);
            let port = [58] @ decimal (unat (from_be_bytes tail));
            kind \<leftarrow> index_run request 3;
            if kind = 1 then do { ip \<leftarrow> slice_run request 4 8; Some (Inr (ipv4_display ip @ port)) }
            else if kind = 4 then do { ip \<leftarrow> slice_run request 4 20; Some (Inr ([91] @ ipv6_display ip @ [93] @ port)) }
            else if kind = 3 then do {
              name \<leftarrow> slice_run request 5 (5 + len);
              Some (if utf8_valid name then Inr (name @ port) else Inl ())
            }
            else panic
          }
      })"

subsection \<open>Transfer\<close>

datatype TransferEvent = Received "ProxyMessage option" | Read "unit + bytes"

datatype TaskStatus = Waiting | Returned

fun transfer_event :: "bool \<Rightarrow> bool \<Rightarrow> TransferEvent \<Rightarrow> (bool \<times> bool) option io" where
  "transfer_event read_open write_open (Received None) = io_return None"
| "transfer_event read_open write_open (Received (Some (ProxyClose r))) = io_return None"
| "transfer_event read_open write_open (Received (Some (ProxyWrite bs))) =
     (if bs = [] then io_bind shutdown (\<lambda>_. io_return (Some (read_open, False)))
      else io_bind (write_all bs) (\<lambda>_. io_return (Some (read_open, write_open))))"
| "transfer_event read_open write_open (Read (Inl _)) = io_err"
| "transfer_event read_open write_open (Read (Inr bs)) =
     io_bind (send_output (ProxyWrite bs)) (\<lambda>_. io_return (Some (read_open \<and> bs \<noteq> [], write_open)))"

fun enabled :: "bool \<Rightarrow> TransferEvent \<Rightarrow> bool" where
  "enabled read_open (Received _) = True"
| "enabled read_open (Read (Inl _)) = read_open"
| "enabled read_open (Read (Inr bs)) = (read_open \<and> length bs \<le> MAX_SESSION_DATA_SIZE)"

fun transfer :: "CloseReason \<Rightarrow> bool \<Rightarrow> bool \<Rightarrow> TransferEvent list \<Rightarrow> TaskStatus io" where
  "transfer reason read_open write_open [] = io_return Waiting"
| "transfer reason read_open write_open (e # es) =
     (if \<not> enabled read_open e then transfer reason read_open write_open es
      else io_bind (transfer_event read_open write_open e) (\<lambda>r.
        case r of
          None \<Rightarrow> io_return Returned
        | Some (read_open', write_open') \<Rightarrow>
            if \<not> read_open' \<and> \<not> write_open' then io_bind (send_output (ProxyClose reason)) (\<lambda>_. io_return Returned)
            else transfer reason read_open' write_open' es))"

subsection \<open>Entry and exit tasks\<close>

definition run_entry :: "bytes \<Rightarrow> ProxyMessage option \<Rightarrow> TransferEvent list \<Rightarrow> TaskStatus io" where
  "run_entry request input events =
     io_bind (send_output (ProxyWrite request)) (\<lambda>_.
     case input of
       Some (ProxyWrite answer) \<Rightarrow>
         if length answer \<le> 1 then io_err
         else io_bind (write_all answer) (\<lambda>_.
           if answer ! 1 \<noteq> 0 then io_return Returned else transfer LocalClosed True True events)
     | _ \<Rightarrow> io_return Returned)"

definition run_exit :: "(bytes \<Rightarrow> SocketAddr option option) \<Rightarrow> ProxyMessage option \<Rightarrow> TransferEvent list \<Rightarrow> TaskStatus io run" where
  "run_exit connect input events =
     (case input of
        Some (ProxyWrite request) \<Rightarrow> do {
          addr \<leftarrow> target request;
          Some (case addr of
            Inl _ \<Rightarrow> io_err
          | Inr addr \<Rightarrow>
              (case connect addr of
                 None \<Rightarrow> io_bind (send_output (ProxyWrite (reply 5 None))) (\<lambda>_.
                   io_bind (send_output (ProxyClose Reset)) (\<lambda>_. io_return Returned))
               | Some None \<Rightarrow> io_err
               | Some (Some bound_addr) \<Rightarrow> io_bind (send_output (ProxyWrite (reply 0 (Some bound_addr)))) (\<lambda>_.
                   transfer RemoteClosed True True events)))
        }
      | _ \<Rightarrow> Some (io_return Returned))"

definition reset_on_error :: "TaskStatus io \<Rightarrow> ProxyTask \<Rightarrow> TaskStatus \<times> ProxyTask" where
  "reset_on_error m t =
     (case m t of
        (Inl (), t') \<Rightarrow> (Returned, snd (send_output (ProxyClose Reset) t'))
      | (Inr s, t') \<Rightarrow> (s, t'))"

definition accept_entry :: "bool \<Rightarrow> ProxyMessage option \<Rightarrow> TransferEvent list \<Rightarrow> ProxyTask \<Rightarrow> (unit + TaskStatus) \<times> ProxyTask" where
  "accept_entry listening input events t =
     (case handshake t of
        (Inl (), t') \<Rightarrow> (Inl (), t')
      | (Inr request, t') \<Rightarrow>
          if \<not> listening then (Inl (), t')
          else let (s, t'') = reset_on_error (run_entry request input events) t' in (Inr s, t''))"

definition open_exit :: "(bytes \<Rightarrow> SocketAddr option option) \<Rightarrow> ProxyMessage option \<Rightarrow> TransferEvent list \<Rightarrow> ProxyTask \<Rightarrow>
    (TaskStatus \<times> ProxyTask) run" where
  "open_exit connect input events t = do {
     m \<leftarrow> run_exit connect input events;
     Some (reset_on_error m t)
   }"

end
