(* ===== verification/Socks5_Correct.thy ===== *)
theory Socks5_Correct
  imports Socks5
begin

section \<open>Correctness of the SOCKS5 proxy\<close>

text \<open>
  A request is the encoding of a \<open>Destination\<close> and a port; \<open>render\<close> is the address the exit connects to.
  \<open>consumed\<close> describes what a computation read from the stream.  The transfer loop is described by the events it
  processed: \<open>relayed\<close> are the chunks read from the stream while reading was open (an empty chunk is the end of the
  stream), \<open>delivered\<close> the bytes of the messages from the other end.
\<close>

datatype Destination = Ip4 bytes | Ip6 bytes | Domain bytes

fun destination_ok :: "Destination \<Rightarrow> bool" where
  "destination_ok (Ip4 ip) = (length ip = 4)"
| "destination_ok (Ip6 ip) = (length ip = 16)"
| "destination_ok (Domain name) = (length name < 256)"

fun encode_destination :: "Destination \<Rightarrow> bytes" where
  "encode_destination (Ip4 ip) = 1 # ip"
| "encode_destination (Ip6 ip) = 4 # ip"
| "encode_destination (Domain name) = 3 # word_of_nat (length name) # name"

definition encode_request :: "Destination \<Rightarrow> u16 \<Rightarrow> bytes" where
  "encode_request dest port = [5, 1, 0] @ encode_destination dest @ to_be_bytes port"

fun render :: "Destination \<Rightarrow> u16 \<Rightarrow> unit + bytes" where
  "render (Ip4 ip) port = Inr (ipv4_display ip @ [58] @ decimal (unat port))"
| "render (Ip6 ip) port = Inr ([91] @ ipv6_display ip @ [93, 58] @ decimal (unat port))"
| "render (Domain name) port = (if utf8_valid name then Inr (name @ [58] @ decimal (unat port)) else Inl ())"

definition method_greeting :: "bytes \<Rightarrow> bytes" where
  "method_greeting methods = 5 # word_of_nat (length methods) # methods"

definition after_handshake :: "ProxyTask \<Rightarrow> bytes \<Rightarrow> ProxyTask" where
  "after_handshake t rest = t\<lparr>tk_unread := rest, tk_written := tk_written t @ [5, 0], tk_write_results := tl (tk_write_results t)\<rparr>"

definition consumed :: "bytes \<Rightarrow> ProxyTask \<Rightarrow> ProxyTask \<Rightarrow> bool" where
  "consumed bs t t' \<longleftrightarrow> (\<exists>rest. tk_unread t = bs @ rest \<and> t' = t\<lparr>tk_unread := rest\<rparr>)"

definition request_form :: "bytes \<Rightarrow> bool" where
  "request_form request \<longleftrightarrow> (\<exists>body. request = [5, 1, 0, 1] @ body \<and> length body = 4 + 2) \<or> (\<exists>body. request = [5, 1, 0, 4] @ body \<and> length body = 16 + 2) \<or>
     (\<exists>len body. request = [5, 1, 0, 3] @ len # body \<and> length body = unat len + 2)"

fun relayed :: "bool \<Rightarrow> TransferEvent list \<Rightarrow> bytes list" where
  "relayed read_open [] = []"
| "relayed read_open (Received _ # es) = relayed read_open es"
| "relayed read_open (Read (Inl _) # es) = relayed read_open es"
| "relayed read_open (Read (Inr bs) # es) =
     (if read_open \<and> length bs \<le> MAX_SESSION_DATA_SIZE then bs # relayed (bs \<noteq> []) es else relayed read_open es)"

fun delivered :: "TransferEvent list \<Rightarrow> bytes" where
  "delivered [] = []"
| "delivered (Received (Some (ProxyWrite bs)) # es) = bs @ delivered es"
| "delivered (_ # es) = delivered es"

definition read_ended :: "bool \<Rightarrow> TransferEvent list \<Rightarrow> bool" where
  "read_ended read_open es \<longleftrightarrow> \<not> read_open \<or> [] \<in> set (relayed read_open es)"

definition write_ended :: "bool \<Rightarrow> TransferEvent list \<Rightarrow> bool" where
  "write_ended write_open es \<longleftrightarrow> \<not> write_open \<or> Received (Some (ProxyWrite [])) \<in> set es"

fun stops :: "TransferEvent \<Rightarrow> bool" where
  "stops (Received None) = True"
| "stops (Received (Some (ProxyClose _))) = True"
| "stops _ = False"

definition transfer_result :: "CloseReason \<Rightarrow> bool \<Rightarrow> bool \<Rightarrow> TransferEvent list \<Rightarrow> TaskStatus \<Rightarrow> ProxyTask \<Rightarrow> ProxyTask \<Rightarrow> bool" where
  "transfer_result reason ro wo es status t t' \<longleftrightarrow>
     tk_written t' = tk_written t @ delivered es \<and>
     (tk_shut t' \<longleftrightarrow> tk_shut t \<or> Received (Some (ProxyWrite [])) \<in> set es) \<and>
     tk_output t' = tk_output t @ map ProxyWrite (relayed ro es) @ (if read_ended ro es \<and> write_ended wo es then [ProxyClose reason] else []) \<and>
     (status = Returned \<longleftrightarrow> (read_ended ro es \<and> write_ended wo es) \<or> (es \<noteq> [] \<and> stops (last es)))"

definition transfer_done :: "CloseReason \<Rightarrow> bool \<Rightarrow> bool \<Rightarrow> TransferEvent list \<Rightarrow> TaskStatus \<Rightarrow> ProxyTask \<Rightarrow> ProxyTask \<Rightarrow> bool" where
  "transfer_done reason ro wo es status t t' \<longleftrightarrow>
     (\<exists>es1 es2. es = es1 @ es2 \<and> (status = Waiting \<longrightarrow> es2 = []) \<and> (\<forall>e \<in> set (butlast es1). \<not> stops e) \<and> transfer_result reason ro wo es1 status t t')"

definition client_task :: ProxyTask where
  "client_task = \<lparr>tk_unread = [5, 2, 2, 0, 5, 1, 0, 3, 2, 97, 98, 31, 144, 7], tk_written = [], tk_shut = False, tk_write_results = [],
     tk_output = [], tk_send_results = []\<rparr>"

lemma be_roundtrip: "from_be_bytes (to_be_bytes p) = p"
  by (simp add: from_be_bytes_def to_be_bytes_def, rule bit_word_eqI) (auto simp: bit_simps)

interpretation port: wire_codec to_be_bytes "\<lambda>bs. Some (from_be_bytes bs)" "\<lambda>_. True"
  by unfold_locales (simp add: be_roundtrip)

lemma be_roundtrip': "length bs = 2 \<Longrightarrow> to_be_bytes (from_be_bytes bs) = bs"
proof -
  assume "length bs = 2"
  then obtain a b where bs: "bs = [a, b]" by (auto simp: numeral_2_eq_2 length_Suc_conv)
  have "ucast (drop_bit 8 (from_be_bytes [a, b])) = a"
    by (rule bit_word_eqI) (auto simp: from_be_bytes_def bit_simps dest: bit_imp_le_length)
  moreover have "ucast (from_be_bytes [a, b]) = b"
    by (rule bit_word_eqI) (auto simp: from_be_bytes_def bit_simps)
  ultimately
  show ?thesis by (simp add: bs to_be_bytes_def)
qed

lemma length_be [simp]: "length (to_be_bytes p) = 2"
  by (simp add: to_be_bytes_def)

lemma target_encoded:
  assumes "destination_ok dest"
  shows "target (encode_request dest port) = Some (render dest port)"
proof -
  have n: "unat (word_of_nat (length name) :: u8) = length name" if "length name < 256" for name :: bytes
    using that by (simp add: unat_of_nat take_bit_nat_eq_self)
  show ?thesis using assms
    by (cases dest) (auto simp: target_def encode_request_def slice_run_def index_run_def be_roundtrip nth_Cons' n Let_def)
qed

lemma request_split:
  assumes "take 3 request = [5, 1, 0]" "6 \<le> length request"
  shows "request = [5, 1, 0] @ request ! 3 # take (length request - 6) (drop 4 request) @ to_be_bytes (from_be_bytes (drop (length request - 2) request))"
proof -
  have "drop 3 request = request ! 3 # drop 4 request" using assms(2) Cons_nth_drop_Suc [of 3 request] by (simp add: eval_nat_numeral)
  moreover have "drop 4 request = take (length request - 6) (drop 4 request) @ drop (length request - 6) (drop 4 request)" by (rule append_take_drop_id [symmetric])
  moreover have "drop (length request - 6) (drop 4 request) = drop (length request - 2) request" using assms(2) by simp
  moreover have "to_be_bytes (from_be_bytes (drop (length request - 2) request)) = drop (length request - 2) request"
    using assms(2) by (intro be_roundtrip') simp
  ultimately show ?thesis using append_take_drop_id [of 3 request] assms(1) by metis
qed

lemma target_decodes:
  "target request = Some (Inl ()) \<or>
   (\<exists>dest port. request = encode_request dest port \<and> destination_ok dest \<and> target request = Some (render dest port))"
proof (cases "take 3 request = [5, 1, 0] \<and> 6 \<le> length request")
  case False
  then show ?thesis by (auto simp: target_def Let_def)
next
  case True
  note split = request_split [OF conjunct1 [OF True] conjunct2 [OF True]]
  let ?body = "take (length request - 6) (drop 4 request)" and ?port = "from_be_bytes (drop (length request - 2) request)"
  have enc: "target request = Some (render dest ?port) \<and> request = encode_request dest ?port" if "destination_ok dest" "encode_destination dest = request ! 3 # ?body" for dest
  proof -
    have "request = encode_request dest ?port" using split that(2) by (simp add: encode_request_def)
    then show ?thesis using target_encoded [OF that(1)] by metis
  qed
  have "target request = Some (Inl ())" if "\<not> (request ! 3 = 1 \<and> length request = 10)" "\<not> (request ! 3 = 4 \<and> length request = 22)"
    "\<not> (request ! 3 = 3 \<and> 7 \<le> length request \<and> length request = unat (request ! 4) + 7)"
    using that by (simp only: target_def Let_def option.inject simp_thms if_cancel option.case split: if_split) auto
  then consider "request ! 3 = 1" "length request = 10" | "request ! 3 = 4" "length request = 22"
    | "request ! 3 = 3" "7 \<le> length request" "length request = unat (request ! 4) + 7" | "target request = Some (Inl ())"
    by blast
  then show ?thesis
  proof cases
    case 1
    then show ?thesis using enc [of "Ip4 ?body"] by force
  next
    case 2
    then show ?thesis using enc [of "Ip6 ?body"] by force
  next
    case 3
    have l: "length (drop 5 request) = unat (request ! 4) + 2" using 3 by simp
    have b: "?body = request ! 4 # take (unat (request ! 4)) (drop 5 request)"
    proof -
      have "drop 4 request = request ! 4 # drop 5 request" using 3(2) Cons_nth_drop_Suc [of 4 request] by simp
      moreover have "length request - 6 = Suc (unat (request ! 4))" using 3(3) by simp
      ultimately show ?thesis by simp
    qed
    have "unat (request ! 4) < 256" using unsigned_less [of "request ! 4"] by simp
    then show ?thesis using enc [of "Domain (take (unat (request ! 4)) (drop 5 request))"] 3(1) b l by force
  qed simp
qed


lemma target_returns: "target request \<noteq> None"
  using target_decodes [of request] by auto

lemma open_exit_returns: "open_exit connect input events t \<noteq> None"
proof -
  have "run_exit connect input events \<noteq> None"
    by (simp add: run_exit_def bind_eq_None_conv target_returns del: not_None_eq split: option.splits ProxyMessage.splits)
  then show ?thesis by (auto simp: open_exit_def)
qed

subsection \<open>Handshake\<close>

lemma io_bind_Inr:
  "io_bind m f t = (Inr y, t'') \<longleftrightarrow> (\<exists>x t'. m t = (Inr x, t') \<and> f x t' = (Inr y, t''))"
  by (auto simp: io_bind_def split: prod.splits sum.splits unit.splits)

lemma io_simps [simp]: "io_return x t = (r, t') \<longleftrightarrow> r = Inr x \<and> t' = t" "io_err t = (r, t') \<longleftrightarrow> r = Inl () \<and> t' = t"
  by (auto simp: io_return_def io_err_def)

lemma consumed_append: "consumed (a @ b) t t' \<longleftrightarrow> (\<exists>t1. consumed a t t1 \<and> consumed b t1 t')"
  by (auto simp: consumed_def)

lemma read_exact_Inr: "read_exact n t = (Inr bs, t') \<longleftrightarrow> length bs = n \<and> consumed bs t t'"
proof
  assume "read_exact n t = (Inr bs, t')"
  then show "length bs = n \<and> consumed bs t t'" by (auto simp: read_exact_def consumed_def split: if_splits intro: exI [of _ "drop n (tk_unread t)"])
next
  assume "length bs = n \<and> consumed bs t t'"
  then show "read_exact n t = (Inr bs, t')" by (auto simp: read_exact_def consumed_def)
qed

lemma write_all_Inr: "write_all bs t = (Inr u, t') \<longleftrightarrow> next_result (tk_write_results t) \<and>
    t' = t\<lparr>tk_write_results := tl (tk_write_results t), tk_written := tk_written t @ bs\<rparr>"
  by (auto simp: write_all_def Let_def)

lemma refuse_Inr: "io_bind (write_all bs) (\<lambda>_. io_err) t = (Inr x, t') \<longleftrightarrow> False"
  by (simp add: io_bind_Inr)

lemma read_request_Inr:
  "read_request req n t = (Inr request, t') \<longleftrightarrow> (\<exists>body. request = req @ body \<and> length body = n \<and> consumed body t t')"
  by (auto simp: read_request_def io_bind_Inr read_exact_Inr)

lemma read_length_Inr:
  "io_bind (read_exact 1) (\<lambda>len. read_request (req @ len) (unat (len ! 0) + 2)) t = (Inr request, t') \<longleftrightarrow>
    (\<exists>len body. request = req @ len # body \<and> length body = unat len + 2 \<and> consumed (len # body) t t')"
proof -
  have "consumed (len # body) t t' \<longleftrightarrow> (\<exists>t1. consumed [len] t t1 \<and> consumed body t1 t')" for len body
    using consumed_append [of "[len]" body t t'] by simp
  then show ?thesis by (fastforce simp: io_bind_Inr read_exact_Inr read_request_Inr length_Suc_conv)
qed

lemma take3: "length header = 4 \<Longrightarrow> take 3 header = [5, 1, 0] \<Longrightarrow> header = [5, 1, 0, header ! 3]"
  by (auto simp: eval_nat_numeral length_Suc_conv)

lemma body_split: "length body = n + 2 \<longleftrightarrow> (\<exists>ip port. length ip = n \<and> body = ip @ to_be_bytes port)"
proof
  assume "length body = n + 2"
  then show "\<exists>ip port. length ip = n \<and> body = ip @ to_be_bytes port"
    using be_roundtrip' [of "drop n body"] by (intro exI [of _ "take n body"] exI [of _ "from_be_bytes (drop n body)"]) simp
qed auto

lemma request_form_iff: "request_form request \<longleftrightarrow> (\<exists>dest port. destination_ok dest \<and> request = encode_request dest port)"
proof
  assume "request_form request"
  then show "\<exists>dest port. destination_ok dest \<and> request = encode_request dest port" unfolding request_form_def body_split
  proof (elim disjE exE conjE)
    fix body ip port assume "request = [5, 1, 0, 1] @ body" "length ip = 4" "body = ip @ to_be_bytes port"
    then show ?thesis by (intro exI [of _ "Ip4 ip"] exI [of _ port]) (simp add: encode_request_def)
  next
    fix body ip port assume "request = [5, 1, 0, 4] @ body" "length ip = 16" "body = ip @ to_be_bytes port"
    then show ?thesis by (intro exI [of _ "Ip6 ip"] exI [of _ port]) (simp add: encode_request_def)
  next
    fix len body name port assume "request = [5, 1, 0, 3] @ len # body" "length name = unat len" "body = name @ to_be_bytes port"
    then show ?thesis using unsigned_less [of len] by (intro exI [of _ "Domain name"] exI [of _ port]) (simp add: encode_request_def)
  qed
next
  assume "\<exists>dest port. destination_ok dest \<and> request = encode_request dest port"
  then obtain dest port where "destination_ok dest" "request = encode_request dest port" by blast
  then show "request_form request"
    by (cases dest) (auto simp: request_form_def encode_request_def unat_of_nat take_bit_nat_eq_self)
qed

lemma read_header_Inr:
  "read_header t = (Inr request, t') \<longleftrightarrow> (\<exists>dest port. destination_ok dest \<and> request = encode_request dest port) \<and> consumed request t t'"
proof -
  have "read_header t = (Inr request, t') \<longleftrightarrow> (\<exists>kind t1. consumed [5, 1, 0, kind] t t1 \<and>
      (kind = 1 \<and> read_request [5, 1, 0, 1] 6 t1 = (Inr request, t') \<or> kind = 4 \<and> read_request [5, 1, 0, 4] 18 t1 = (Inr request, t') \<or>
       kind = 3 \<and> io_bind (read_exact 1) (\<lambda>len. read_request ([5, 1, 0, 3] @ len) (unat (len ! 0) + 2)) t1 = (Inr request, t')))"
    (is "_ \<longleftrightarrow> (\<exists>kind t1. ?P kind t1)")
  proof
    assume "read_header t = (Inr request, t')"
    then obtain header t1 where h: "length header = 4" "consumed header t t1" "take 3 header = [5, 1, 0]"
      and c: "header ! 3 = 1 \<and> read_request header 6 t1 = (Inr request, t') \<or> header ! 3 = 4 \<and> read_request header 18 t1 = (Inr request, t') \<or>
        header ! 3 = 3 \<and> io_bind (read_exact 1) (\<lambda>len. read_request (header @ len) (unat (len ! 0) + 2)) t1 = (Inr request, t')"
      by (auto simp: read_header_def io_bind_Inr [of "read_exact 4"] read_exact_Inr [of 4] refuse_Inr split: if_splits)
    show "\<exists>kind t1. ?P kind t1" using h(2) c take3 [OF h(1,3)] by (intro exI [of _ "header ! 3"] exI [of _ t1]) auto
  next
    assume "\<exists>kind t1. ?P kind t1"
    then obtain kind t1 where c: "?P kind t1" by blast
    then have "read_exact 4 t = (Inr [5, 1, 0, kind], t1)" by (simp add: read_exact_Inr)
    with c show "read_header t = (Inr request, t')"
      by (elim conjE disjE) (simp_all add: read_header_def io_bind_def [of "read_exact 4"])
  qed
  also have "\<dots> \<longleftrightarrow> request_form request \<and> consumed request t t'"
  proof -
    have c: "consumed (5 # 1 # 0 # kind # body) t t' \<longleftrightarrow> (\<exists>t1. consumed [5, 1, 0, kind] t t1 \<and> consumed body t1 t')" for kind body
      using consumed_append [of "[5, 1, 0, kind]" body t t'] by simp
    show ?thesis unfolding read_request_Inr read_length_Inr request_form_def by (auto simp: c)
  qed
  finally show ?thesis by (simp add: request_form_iff)
qed

lemma handshake_Inr:
  "handshake t = (Inr request, t') \<longleftrightarrow> (\<exists>methods dest port rest. length methods < 256 \<and> 0 \<in> set methods \<and> destination_ok dest \<and>
     request = encode_request dest port \<and> next_result (tk_write_results t) \<and>
     tk_unread t = method_greeting methods @ request @ rest \<and> t' = after_handshake t rest)"
  (is "?L \<longleftrightarrow> (\<exists>methods dest port rest. ?R methods dest port rest)")
proof
  assume ?L
  then obtain greeting methods t1 t2 t3 where g: "length greeting = 2" "consumed greeting t t1" "length methods = unat (greeting ! 1)" "consumed methods t1 t2"
      "greeting ! 0 = 5" "0 \<in> set methods" "write_all [5, 0] t2 = (Inr (), t3)" "read_header t3 = (Inr request, t')"
    by (auto simp: handshake_def io_bind_Inr read_exact_Inr refuse_Inr split: if_splits)
  have m: "length methods < 256" using g(3) unsigned_less [of "greeting ! 1"] by simp
  have gr: "greeting = [5, word_of_nat (length methods)]" using g(1,3,5) by (auto simp: numeral_2_eq_2 length_Suc_conv)
  from g(8) obtain dest port where d: "destination_ok dest" "request = encode_request dest port" "consumed request t3 t'"
    by (auto simp: read_header_Inr)
  show "\<exists>methods dest port rest. ?R methods dest port rest"
    using m g(2,4,6,7) d gr
    by (intro exI [of _ methods] exI [of _ dest] exI [of _ port] exI [of _ "tk_unread t'"])
      (auto simp: consumed_def write_all_Inr method_greeting_def after_handshake_def)
next
  assume "\<exists>methods dest port rest. ?R methods dest port rest"
  then obtain methods dest port rest where r: "?R methods dest port rest" by blast
  let ?len = "word_of_nat (length methods) :: u8"
  have n: "unat ?len = length methods" using r by (simp add: unat_of_nat take_bit_nat_eq_self)
  let ?t1 = "t\<lparr>tk_unread := methods @ request @ rest\<rparr>" and ?t2 = "t\<lparr>tk_unread := request @ rest\<rparr>"
  let ?t3 = "?t2\<lparr>tk_write_results := tl (tk_write_results t), tk_written := tk_written t @ [5, 0]\<rparr>"
  have "read_exact 2 t = (Inr [5, ?len], ?t1)" using r by (simp add: read_exact_Inr consumed_def method_greeting_def)
  moreover have "read_exact (length methods) ?t1 = (Inr methods, ?t2)" by (simp add: read_exact_Inr consumed_def)
  moreover have "write_all [5, 0] ?t2 = (Inr (), ?t3)" using r by (simp add: write_all_Inr)
  moreover have "read_header ?t3 = (Inr request, t')" using r by (auto simp: read_header_Inr consumed_def after_handshake_def)
  ultimately show ?L using r n by (simp add: handshake_def io_bind_def)
qed

subsection \<open>Transfer\<close>

lemma send_output_Inr: "send_output msg t = (Inr u, t') \<longleftrightarrow> next_result (tk_send_results t) \<and>
    t' = t\<lparr>tk_send_results := tl (tk_send_results t), tk_output := tk_output t @ [msg]\<rparr>"
  by (auto simp: send_output_def Let_def)

lemma shutdown_Inr: "shutdown t = (Inr u, t') \<longleftrightarrow> next_result (tk_write_results t) \<and>
    t' = t\<lparr>tk_write_results := tl (tk_write_results t), tk_shut := True\<rparr>"
  by (auto simp: shutdown_def Let_def)

lemma transfer_done_skip:
  assumes "\<not> enabled ro e" "transfer_done reason ro wo es status t t'"
  shows "transfer_done reason ro wo (e # es) status t t'"
proof -
  obtain es1 es2 where x: "es = es1 @ es2" "status = Waiting \<longrightarrow> es2 = []" "\<forall>e \<in> set (butlast es1). \<not> stops e"
    "transfer_result reason ro wo es1 status t t'" using assms(2) by (auto simp: transfer_done_def)
  obtain d where e: "e = Read d" using assms(1) by (cases e) auto
  have "relayed ro (e # es1) = relayed ro es1" using assms(1) by (cases d) (auto simp: e)
  then show ?thesis unfolding transfer_done_def using x
    by (intro exI [of _ "e # es1"] exI [of _ es2]) (auto simp: e transfer_result_def read_ended_def write_ended_def split: if_splits)
qed

lemma transfer_done_more:
  assumes ne: "\<not> stops e" and rest: "transfer_done reason ro' wo' es status t1 t'"
    and w: "\<And>es1. tk_written t1 @ delivered es1 = tk_written t @ delivered (e # es1)"
    and sh: "\<And>es1. (tk_shut t1 \<or> Received (Some (ProxyWrite [])) \<in> set es1) = (tk_shut t \<or> Received (Some (ProxyWrite [])) \<in> set (e # es1))"
    and o: "\<And>es1. tk_output t1 @ map ProxyWrite (relayed ro' es1) = tk_output t @ map ProxyWrite (relayed ro (e # es1))"
    and r: "\<And>es1. read_ended ro' es1 = read_ended ro (e # es1)" and w': "\<And>es1. write_ended wo' es1 = write_ended wo (e # es1)"
  shows "transfer_done reason ro wo (e # es) status t t'"
proof -
  from rest obtain es1 es2 where x: "es = es1 @ es2" "status = Waiting \<longrightarrow> es2 = []" "\<forall>e \<in> set (butlast es1). \<not> stops e"
    "transfer_result reason ro' wo' es1 status t1 t'" by (auto simp: transfer_done_def)
  have "transfer_result reason ro wo (e # es1) status t t'"
    using x(4) w [of es1] sh [of es1] o [of es1] r [of es1] w' [of es1] ne unfolding transfer_result_def by (simp del: map_append flip: append_assoc)
  then show ?thesis unfolding transfer_done_def using x(1-3) ne by (intro exI [of _ "e # es1"] exI [of _ es2]) simp
qed

lemma transfer_done_one: "transfer_result reason ro wo [e] Returned t t' \<Longrightarrow> transfer_done reason ro wo (e # es) Returned t t'"
  unfolding transfer_done_def by (intro exI [of _ "[e]"] exI [of _ es]) simp

lemma transfer_write_done:
  assumes run: "transfer reason ro wo (Received (Some (ProxyWrite bs)) # es) t = (Inr status, t')" and "ro \<or> wo"
    and rest: "\<And>ro wo t. transfer reason ro wo es t = (Inr status, t') \<Longrightarrow> ro \<or> wo \<Longrightarrow> transfer_done reason ro wo es status t t'"
  shows "transfer_done reason ro wo (Received (Some (ProxyWrite bs)) # es) status t t'"
proof (cases "bs = []")
  case True
  then obtain t1 where t1: "t1 = t\<lparr>tk_write_results := tl (tk_write_results t), tk_shut := True\<rparr>"
    "(if \<not> ro then io_bind (send_output (ProxyClose reason)) (\<lambda>_. io_return Returned) t1 else transfer reason ro False es t1) = (Inr status, t')"
    using run by (auto simp: io_bind_Inr shutdown_Inr split: if_splits)
  show ?thesis
  proof (cases ro)
    case True
    then show ?thesis using t1 \<open>bs = []\<close> by (intro transfer_done_more [of _ reason ro False es status t1] rest) (auto simp: read_ended_def write_ended_def)
  next
    case False
    then have "status = Returned" "transfer_result reason ro wo [Received (Some (ProxyWrite bs))] Returned t t'" using t1 \<open>bs = []\<close>
      by (auto simp: io_bind_Inr send_output_Inr transfer_result_def read_ended_def write_ended_def)
    then show ?thesis using transfer_done_one by blast
  qed
next
  case False
  then show ?thesis using run assms(2)
    by (intro transfer_done_more [of _ reason ro wo es status "t\<lparr>tk_write_results := tl (tk_write_results t), tk_written := tk_written t @ bs\<rparr>"] rest)
      (auto simp: io_bind_Inr write_all_Inr read_ended_def write_ended_def)
qed

lemma transfer_read_done:
  assumes run: "transfer reason ro wo (Read d # es) t = (Inr status, t')" and on: "enabled ro (Read d)"
    and rest: "\<And>ro wo t. transfer reason ro wo es t = (Inr status, t') \<Longrightarrow> ro \<or> wo \<Longrightarrow> transfer_done reason ro wo es status t t'"
  shows "transfer_done reason ro wo (Read d # es) status t t'"
proof -
  obtain bs where d: "d = Inr bs" using run on by (cases d) (auto simp: io_bind_Inr)
  have ro: "ro" "length bs \<le> MAX_SESSION_DATA_SIZE" using on d by simp_all
  define t1 where "t1 = t\<lparr>tk_send_results := tl (tk_send_results t), tk_output := tk_output t @ [ProxyWrite bs]\<rparr>"
  have r: "(if bs = [] \<and> \<not> wo then io_bind (send_output (ProxyClose reason)) (\<lambda>_. io_return Returned) t1 else transfer reason (bs \<noteq> []) wo es t1) = (Inr status, t')"
    using run d ro by (auto simp: io_bind_Inr send_output_Inr t1_def split: if_splits)
  show ?thesis
  proof (cases "bs = [] \<and> \<not> wo")
    case True
    then have "status = Returned" "transfer_result reason ro wo [Read d] Returned t t'" using r d ro
      by (auto simp: io_bind_Inr send_output_Inr transfer_result_def read_ended_def write_ended_def t1_def)
    then show ?thesis using transfer_done_one by blast
  next
    case False
    then show ?thesis using r d ro
      by (intro transfer_done_more [of _ reason "bs \<noteq> []" wo es status t1] rest) (auto simp: t1_def read_ended_def write_ended_def)
  qed
qed

lemma transfer_spec:
  "transfer reason ro wo es t = (Inr status, t') \<Longrightarrow> ro \<or> wo \<Longrightarrow> transfer_done reason ro wo es status t t'"
proof (induction es arbitrary: ro wo t)
  case Nil
  then show ?case by (auto simp: transfer_done_def transfer_result_def read_ended_def write_ended_def)
next
  case (Cons e es)
  consider (off) "\<not> enabled ro e" | (stop) "stops e" | (wr) bs where "e = Received (Some (ProxyWrite bs))" | (rd) d where "e = Read d" "enabled ro e"
    by (cases e rule: stops.cases) auto
  then show ?case
  proof cases
    case off
    then show ?thesis using Cons by (intro transfer_done_skip) auto
  next
    case stop
    then have "status = Returned" "transfer_result reason ro wo [e] Returned t t'" using Cons.prems
      by (cases e rule: stops.cases; auto simp: io_bind_Inr transfer_result_def read_ended_def write_ended_def)+
    then show ?thesis using transfer_done_one by blast
  next
    case (wr bs)
    then show ?thesis using Cons transfer_write_done by simp
  next
    case (rd d)
    then show ?thesis using Cons transfer_read_done by simp
  qed
qed

lemma next_result_ok: "False \<notin> set rs \<Longrightarrow> next_result rs \<and> False \<notin> set (tl rs)"
  by (cases rs) (auto simp: next_result_def)

lemma transfer_returns:
  assumes "False \<notin> set (tk_write_results t)" "False \<notin> set (tk_send_results t)" "\<forall>u. Read (Inl u) \<notin> set es"
  shows "\<exists>status t'. transfer reason ro wo es t = (Inr status, t')"
  using assms
proof (induction es arbitrary: ro wo t)
  case (Cons e es)
  have sent: "\<exists>t'. send_output msg t = (Inr (), t') \<and> False \<notin> set (tk_write_results t') \<and> False \<notin> set (tk_send_results t')"
    if "False \<notin> set (tk_write_results t)" "False \<notin> set (tk_send_results t)" for msg t
    using that next_result_ok [of "tk_send_results t"] by (simp add: send_output_def Let_def)
  have "\<exists>r t'. transfer_event ro wo e t = (Inr r, t') \<and> False \<notin> set (tk_write_results t') \<and> False \<notin> set (tk_send_results t')"
    using Cons.prems next_result_ok [of "tk_write_results t"] next_result_ok [of "tk_send_results t"]
    by (cases "(ro, wo, e)" rule: transfer_event.cases) (auto simp: io_bind_def io_return_def shutdown_def write_all_def send_output_def Let_def)
  then obtain r t1 where r: "transfer_event ro wo e t = (Inr r, t1)" "False \<notin> set (tk_write_results t1)" "False \<notin> set (tk_send_results t1)" by blast
  have rest: "\<exists>status t'. transfer reason ro' wo' es t'' = (Inr status, t')" if "False \<notin> set (tk_write_results t'')" "False \<notin> set (tk_send_results t'')" for ro' wo' t''
    using Cons.IH [OF that] Cons.prems(3) by simp
  show ?case using r rest [OF Cons.prems(1,2)] rest [OF r(2,3)] sent [OF r(2,3), of "ProxyClose reason"]
    by (auto simp: io_bind_def io_return_def split: option.splits)
qed (simp add: io_return_def)

text \<open>C23.  Requests: \<open>target\<close> never panics, and \<open>handshake\<close> returns a request exactly when the client offered the method
  without authentication and then sent the encoding of a destination and a port, of which it consumed exactly
  these bytes and answered \<open>[5, 0]\<close>; the exit accepts every such request and connects to the address it names, unless
  that is a domain name that is not UTF-8.\<close>

theorem socks_requests_reach_exit:
  "target request \<noteq> None \<and>
   (handshake t = (Inr request, t') \<longleftrightarrow> (\<exists>methods dest port rest. length methods < 256 \<and> 0 \<in> set methods \<and> destination_ok dest \<and>
     request = encode_request dest port \<and> target request = Some (render dest port) \<and> next_result (tk_write_results t) \<and>
     tk_unread t = method_greeting methods @ request @ rest \<and> t' = after_handshake t rest))"
proof
  show "target request \<noteq> None" by (rule target_returns)
  show "handshake t = (Inr request, t') \<longleftrightarrow> (\<exists>methods dest port rest. length methods < 256 \<and> 0 \<in> set methods \<and> destination_ok dest \<and>
     request = encode_request dest port \<and> target request = Some (render dest port) \<and> next_result (tk_write_results t) \<and>
     tk_unread t = method_greeting methods @ request @ rest \<and> t' = after_handshake t rest)"
    unfolding handshake_Inr by (metis target_encoded)
qed

text \<open>C24.  Transfer: without I/O errors the loop returns or waits, having processed a prefix of the events; it has written to
  the stream the bytes of the messages in order and shut the stream down when an empty message came, has passed on the
  chunks read in order with an empty message at the end of the stream, and sends a close exactly when both directions
  have ended, as its last message.\<close>

theorem transfer_relays_streams:
  assumes "False \<notin> set (tk_write_results t)" "False \<notin> set (tk_send_results t)" "\<forall>u. Read (Inl u) \<notin> set es"
  shows "\<exists>status t' es1 es2. transfer reason True True es t = (Inr status, t') \<and> es = es1 @ es2 \<and> (status = Waiting \<longrightarrow> es2 = []) \<and>
    (\<forall>e \<in> set (butlast es1). \<not> stops e) \<and> transfer_result reason True True es1 status t t'"
  using transfer_returns [OF assms] transfer_spec unfolding transfer_done_def by blast

theorem transfer_relays_streams_witness:
  "\<exists>status t' es1 es2. transfer LocalClosed True True [Read (Inr [1, 2]), Received (Some (ProxyWrite [3])), Read (Inr []), Received (Some (ProxyWrite []))] client_task = (Inr status, t') \<and>
     transfer_result LocalClosed True True es1 status client_task t' \<and>
     [Read (Inr [1, 2]), Received (Some (ProxyWrite [3])), Read (Inr []), Received (Some (ProxyWrite []))] = es1 @ es2"
  using transfer_relays_streams [of client_task "[Read (Inr [1, 2]), Received (Some (ProxyWrite [3])), Read (Inr []), Received (Some (ProxyWrite []))]" LocalClosed]
  by (auto simp: client_task_def)

end
