(* ===== verification/Reverse_Udp.thy ===== *)
theory Reverse_Udp
  imports Core_Types "HOL-Library.Multiset"
begin

section \<open>UDP channels (raynet-shell-plugins channel_udp.rs)\<close>

text \<open>
  The state the UDP plugins keep and the packets they send, without the sockets: a socket is its index, an address
  a value of the type \<open>'a\<close>, and every call on a socket carries its result in the event.  Time is counted in
  nanoseconds since an arbitrary start.  Random nonces and random choices are part of the events; the iteration order
  of the \<^verbatim>\<open>HashMap\<close> of peers is the parameter \<open>peer_order\<close>.  The keyed hash of the \<^verbatim>\<open>blake3\<close> crate is the parameter \<open>kh\<close>,
  its key derivation \<open>dk\<close>.
\<close>

definition PROBE_INTERVAL :: nat where "PROBE_INTERVAL = 15000000000"


subsection \<open>Challenge and response\<close>

definition tag :: "(bytes \<Rightarrow> bytes \<Rightarrow> bytes) \<Rightarrow> bytes \<Rightarrow> u8 \<Rightarrow> bytes \<Rightarrow> bytes" where
  "tag kh key domain bs = take 16 (kh key (domain # bs))"

definition challenge_key :: "(string \<Rightarrow> bytes \<Rightarrow> bytes) \<Rightarrow> bytes \<Rightarrow> bytes" where
  "challenge_key dk channel_key = dk ''RayNet reverse UDP challenge key v1'' channel_key"

definition make_probe :: "(bytes \<Rightarrow> bytes \<Rightarrow> bytes) \<Rightarrow> bytes \<Rightarrow> bytes \<Rightarrow> bytes" where
  "make_probe kh key nonce = nonce @ tag kh key 0 nonce"

definition valid_probe :: "(bytes \<Rightarrow> bytes \<Rightarrow> bytes) \<Rightarrow> bytes \<Rightarrow> bytes \<Rightarrow> bool" where
  "valid_probe kh probe key \<longleftrightarrow> length probe = 32 \<and> drop 16 probe = tag kh key 0 (take 16 probe)"

definition make_response :: "(bytes \<Rightarrow> bytes \<Rightarrow> bytes) \<Rightarrow> bytes \<Rightarrow> bytes \<Rightarrow> bytes \<Rightarrow> bytes" where
  "make_response kh key challenge nonce = nonce @ tag kh key 1 (challenge @ nonce)"

definition valid_response :: "(bytes \<Rightarrow> bytes \<Rightarrow> bytes) \<Rightarrow> bytes \<Rightarrow> bytes \<Rightarrow> bytes \<Rightarrow> bool" where
  "valid_response kh response key challenge \<longleftrightarrow>
     length response = 32 \<and> drop 16 response = tag kh key 1 (challenge @ take 16 response)"

subsection \<open>Sending side of a reverse channel\<close>

type_synonym 'a peer_table = "((nat \<times> 'a) \<times> nat) list"

record 'a ReverseSender =
  rs_channel_id :: ChannelId
  rs_key :: bytes
  rs_peers :: "'a peer_table"

datatype 'a UdpOutput = SentTo nat 'a bytes | SendFailed ChannelId bytes

definition insert_peer :: "nat \<times> 'a \<Rightarrow> nat \<Rightarrow> 'a peer_table \<Rightarrow> 'a peer_table" where
  "insert_peer path seen peers = (path, seen) # filter (\<lambda>p. fst p \<noteq> path) peers"

definition sender_receive :: "(bytes \<Rightarrow> bytes \<Rightarrow> bytes) \<Rightarrow> nat \<Rightarrow> 'a \<Rightarrow> bytes \<Rightarrow> bytes \<Rightarrow> bool \<Rightarrow> nat \<Rightarrow> 'a ReverseSender \<Rightarrow>
    'a ReverseSender \<times> 'a UdpOutput list" where
  "sender_receive kh socket_index peer bs nonce sent now s =
     (if valid_probe kh bs (rs_key s) then
        let response = make_response kh (rs_key s) (take 16 bs) nonce
        in if sent then (s\<lparr>rs_peers := insert_peer (socket_index, peer) now (rs_peers s)\<rparr>, [SentTo socket_index peer response])
           else (s, [])
      else (s, []))"






definition sender_new :: "(string \<Rightarrow> bytes \<Rightarrow> bytes) \<Rightarrow> ChannelId \<Rightarrow> bytes \<Rightarrow> 'a ReverseSender" where
  "sender_new dk channel_id channel_key = \<lparr>rs_channel_id = channel_id, rs_key = challenge_key dk channel_key, rs_peers = []\<rparr>"

subsection \<open>Receiving side of a reverse channel\<close>

record 'a ReverseReceiver =
  rr_key :: bytes
  rr_destinations :: "'a list"
  rr_challenges :: "'a \<rightharpoonup> bytes"

definition probe_destination :: "(bytes \<Rightarrow> bytes \<Rightarrow> bytes) \<Rightarrow> 'a \<times> bytes \<Rightarrow> 'a ReverseReceiver \<times> ('a \<times> bytes) list \<Rightarrow>
    'a ReverseReceiver \<times> ('a \<times> bytes) list" where
  "probe_destination kh dn st =
     (let (destination, nonce) = dn; (r, probes) = st; probe = make_probe kh (rr_key r) nonce
      in (r\<lparr>rr_challenges := (rr_challenges r)(destination \<mapsto> take 16 probe)\<rparr>, probes @ [(destination, probe)]))"

definition receiver_tick :: "(bytes \<Rightarrow> bytes \<Rightarrow> bytes) \<Rightarrow> bytes list \<Rightarrow> 'a ReverseReceiver \<Rightarrow> 'a ReverseReceiver \<times> ('a \<times> bytes) list" where
  "receiver_tick kh nonces r = fold (probe_destination kh) (zip (rr_destinations r) nonces) (r, [])"

definition receiver_receive :: "(bytes \<Rightarrow> bytes \<Rightarrow> bytes) \<Rightarrow> 'a \<Rightarrow> bytes \<Rightarrow> 'a ReverseReceiver \<Rightarrow> 'a ReverseReceiver \<times> bytes option" where
  "receiver_receive kh peer bs r =
     (case rr_challenges r peer of
        Some nonce \<Rightarrow>
          if valid_response kh bs (rr_key r) nonce then (r\<lparr>rr_challenges := (rr_challenges r)(peer := None)\<rparr>, None)
          else (r, Some bs)
      | None \<Rightarrow> (r, Some bs))"

definition receiver_new :: "(string \<Rightarrow> bytes \<Rightarrow> bytes) \<Rightarrow> 'a list \<Rightarrow> bytes \<Rightarrow> 'a ReverseReceiver" where
  "receiver_new dk destinations channel_key =
     \<lparr>rr_key = challenge_key dk channel_key, rr_destinations = destinations, rr_challenges = Map.empty\<rparr>"

subsection \<open>Forward channels\<close>

definition forward_send :: "ChannelId \<Rightarrow> nat \<Rightarrow> 'a list \<Rightarrow> bytes \<Rightarrow> nat \<Rightarrow> nat \<Rightarrow> bool \<Rightarrow> 'a UdpOutput run" where
  "forward_send channel_id sockets destinations bs c1 c2 sent = do {
     destination \<leftarrow> index_run destinations (c2 mod length destinations);
     Some (if sent then SentTo (c1 mod sockets) destination bs else SendFailed channel_id bs)
   }"

subsection \<open>Facts\<close>

















lemma hash_tag: "\<forall>k m. length (kh k m) = 32 \<Longrightarrow> length (tag kh key d bs) = 16"
  by (simp add: tag_def)

lemma receiver_tick_state:
  assumes "length nonces = length (rr_destinations r)" "distinct (rr_destinations r)" "\<forall>n \<in> set nonces. length n = 16"
  shows "receiver_tick kh nonces r = (r\<lparr>rr_challenges := rr_challenges r ++ map_of (zip (rr_destinations r) nonces)\<rparr>,
    zip (rr_destinations r) (map (make_probe kh (rr_key r)) nonces))"
proof -
  have step: "fold (probe_destination kh) (zip ds ns) (r, probes) = (r\<lparr>rr_challenges := rr_challenges r ++ map_of (zip ds ns)\<rparr>,
      probes @ zip ds (map (make_probe kh (rr_key r)) ns))"
    if "length ns = length ds" "distinct ds" "\<forall>n \<in> set ns. length n = 16" for ds ns probes and r :: "'a ReverseReceiver"
    using that
  proof (induction ds arbitrary: ns r probes)
    case (Cons d ds)
    then obtain n ns' where ns: "ns = n # ns'" "length ns' = length ds" by (cases ns) auto
    have "d \<notin> dom (map_of (zip ds ns'))" using Cons.prems(2) ns(2) by (simp add: dom_map_of_zip)
    then have m: "(rr_challenges r)(d \<mapsto> n) ++ map_of (zip ds ns') = (rr_challenges r ++ map_of (zip ds ns'))(d \<mapsto> n)"
      by (rule map_add_upd_left)
    then have m: "(rr_challenges r)(d \<mapsto> n) ++ map_of (zip ds ns') = rr_challenges r ++ map_of (zip (d # ds) ns)"
      unfolding ns(1) by (simp only: zip_Cons_Cons map_of.simps map_add_upd fst_conv snd_conv)
    have p: "probe_destination kh (d, n) (r, probes) = (r\<lparr>rr_challenges := (rr_challenges r)(d \<mapsto> n)\<rparr>, probes @ [(d, make_probe kh (rr_key r) n)])"
      using Cons.prems(3) ns(1) by (simp add: probe_destination_def make_probe_def Let_def)
    have "fold (probe_destination kh) (zip (d # ds) ns) (r, probes) =
        fold (probe_destination kh) (zip ds ns') (r\<lparr>rr_challenges := (rr_challenges r)(d \<mapsto> n)\<rparr>, probes @ [(d, make_probe kh (rr_key r) n)])"
      unfolding ns(1) by (simp add: p)
    also have "\<dots> = (r\<lparr>rr_challenges := (rr_challenges r)(d \<mapsto> n) ++ map_of (zip ds ns')\<rparr>,
        (probes @ [(d, make_probe kh (rr_key r) n)]) @ zip ds (map (make_probe kh (rr_key r)) ns'))"
      using Cons.IH [of ns' "r\<lparr>rr_challenges := (rr_challenges r)(d \<mapsto> n)\<rparr>"] Cons.prems ns by (simp add: fun_upd_def)
    finally show ?case unfolding m by (simp only: ns(1) zip_Cons_Cons list.map append_assoc append_Cons append_Nil)
  qed simp
  show ?thesis using step [OF assms, of r "[]"] by (simp add: receiver_tick_def)
qed

lemma reverse_challenge_completes:
  assumes "\<forall>k m. length (kh k m) = 32" "length nonces = length destinations" "distinct destinations" "\<forall>n \<in> set nonces. length n = 16"
    and "receiver_tick kh nonces (receiver_new dk destinations ck) = (r, probes)" "(d, probe) \<in> set probes" "length nonce = 16"
    and "sender_receive kh i peer probe nonce True now (sender_new dk ch ck) = (s, out)"
  shows "map fst probes = destinations \<and> (\<exists>response. out = [SentTo i peer response] \<and> rs_peers s = [((i, peer), now)] \<and>
    receiver_receive kh d response r = (r\<lparr>rr_challenges := (rr_challenges r)(d := None)\<rparr>, None) \<and> rr_challenges r d \<noteq> None)"
proof -
  let ?r0 = "receiver_new dk destinations ck" and ?key = "challenge_key dk ck"
  have t: "r = ?r0\<lparr>rr_challenges := map_of (zip destinations nonces)\<rparr>" "probes = zip destinations (map (make_probe kh ?key) nonces)"
    using receiver_tick_state [of nonces ?r0 kh] assms(2-5) by (simp_all add: receiver_new_def)
  from assms(6) obtain j where j: "j < length destinations" "d = destinations ! j" "probe = make_probe kh ?key (nonces ! j)"
    using assms(2) by (auto simp: t(2) in_set_conv_nth)
  have n: "length (nonces ! j) = 16" using assms(2,4) j(1) by simp
  have c: "rr_challenges r d = Some (nonces ! j)"
    using assms(2,3) j(1,2) by (simp add: t(1) map_of_zip_nth)
  have v: "valid_probe kh probe ?key" "take 16 probe = nonces ! j"
    using n hash_tag [OF assms(1)] by (simp_all add: j(3) valid_probe_def make_probe_def)
  let ?response = "make_response kh ?key (nonces ! j) nonce"
  have "valid_response kh ?response (rr_key r) (nonces ! j)"
    using assms(7) hash_tag [OF assms(1)] by (simp add: valid_response_def make_response_def t(1) receiver_new_def)
  then have "receiver_receive kh d ?response r = (r\<lparr>rr_challenges := (rr_challenges r)(d := None)\<rparr>, None)" using c by (simp add: receiver_receive_def)
  moreover have "s = (sender_new dk ch ck)\<lparr>rs_peers := [((i, peer), now)]\<rparr>" "out = [SentTo i peer ?response]"
    using assms(8) v by (auto simp: sender_receive_def sender_new_def insert_peer_def Let_def)
  moreover have "map fst probes = destinations" using assms(2) by (simp add: t(2))
  ultimately show ?thesis using c by simp
qed

end
