(* ===== verification/Shell_Runtime.thy ===== *)
theory Shell_Runtime
  imports Endpoint Relay Ordered_Map Socks5
begin

section \<open>Shell runtime (raynet-shell remote.rs, channels.rs, endpoint.rs)\<close>

text \<open>
  The tasks around an endpoint core and the state they share: the core behind its mutex, the table from conversations
  to the proxy sessions, and the queue of outgoing packets with its capacity.  A move is what a task does
  between two points where another task can run: one locked section of the core, one action carried out, one channel
  operation.  The first four tasks are those \<^verbatim>\<open>endpoint::run\<close> spawns (packet intake, accepting local sessions,
  polling, forwarding packets out); \<^verbatim>\<open>attach\<close> appends one task per proxy session.  A move that is not possible in a state is
  \<open>Disabled\<close>, an abort of the process is \<open>Panicked\<close>.  Clock values, arriving messages and results of sends
  come with the move.  Messages to proxy sessions are logged with the session's number; a proxy session always
  takes them.  A blocked write may be retried at any moment, which includes the moments the wake-up of \<open>writable\<close> allows.
\<close>

definition PACKET_BATCH_SIZE :: usize where "PACKET_BATCH_SIZE = 64"

definition RAY_QUEUE_SIZE :: usize where "RAY_QUEUE_SIZE = 65536"

type_synonym packet = "ChannelId \<times> bytes"

subsection \<open>Channel senders\<close>

definition add_sender :: "ChannelId \<times> 's \<Rightarrow> (ChannelId \<times> 's) list \<Rightarrow> (ChannelId \<times> 's) list run" where
  "add_sender sender by_id = (if map_of by_id (fst sender) = None then Some (bt_insert (fst sender) (snd sender) by_id) else panic)"

definition channel_senders :: "(ChannelId \<times> 's) list \<Rightarrow> (ChannelId \<times> 's) list run" where
  "channel_senders senders = fold_run add_sender senders []"

definition channel_ids :: "(ChannelId \<times> 's) list \<Rightarrow> ChannelId list" where
  "channel_ids by_id = map fst by_id"

definition channels_send :: "('s \<Rightarrow> bytes \<Rightarrow> bool) \<Rightarrow> (ChannelId \<times> 's) list \<Rightarrow> packet \<Rightarrow> packet + unit" where
  "channels_send sender_send by_id packet =
     (case map_of by_id (fst packet) of
        None \<Rightarrow> Inl packet
      | Some sender \<Rightarrow> if sender_send sender (snd packet) then Inr () else Inl packet)"

subsection \<open>Endpoint runtime\<close>

datatype TaskKind = ReceivePackets | AcceptLoop | PollLoop | ForwardOut | SessionLoop ConvId nat

datatype TaskPhase =
    TaskIdle
  | PollDue
  | Attaching ConvId "CoreAction list"
  | Executing "CoreAction list" bool
  | WriteBlocked bytes
  | TaskEnded

record Task =
  task_kind :: TaskKind
  task_phase :: TaskPhase

record EndpointRuntime =
  rt_core :: EndpointCore
  rt_sessions :: "ConvId \<rightharpoonup> nat"
  rt_ray_tx :: "packet list"
  rt_out_batch :: "packet list"
  rt_proxy_log :: "(nat \<times> ProxyMessage) list"
  rt_next_proxy :: nat
  rt_tasks :: "Task list"

datatype 'a outcome = Disabled | Panicked | Next 'a

definition runtime_new :: "EndpointCore \<Rightarrow> EndpointRuntime" where
  "runtime_new core = \<lparr>rt_core = core, rt_sessions = Map.empty, rt_ray_tx = [], rt_out_batch = [], rt_proxy_log = [], rt_next_proxy = 0,
     rt_tasks = map (\<lambda>kind. \<lparr>task_kind = kind, task_phase = TaskIdle\<rparr>) [ReceivePackets, AcceptLoop, PollLoop, ForwardOut]\<rparr>"

definition in_phase :: "EndpointRuntime \<Rightarrow> nat \<Rightarrow> TaskPhase \<Rightarrow> bool" where
  "in_phase rt i phase \<longleftrightarrow> i < length (rt_tasks rt) \<and> task_phase (rt_tasks rt ! i) = phase"

definition set_phase :: "nat \<Rightarrow> TaskPhase \<Rightarrow> EndpointRuntime \<Rightarrow> EndpointRuntime" where
  "set_phase i phase rt = rt\<lparr>rt_tasks := (rt_tasks rt)[i := (rt_tasks rt ! i)\<lparr>task_phase := phase\<rparr>]\<rparr>"

definition attach :: "ConvId \<Rightarrow> EndpointRuntime \<Rightarrow> EndpointRuntime" where
  "attach conv_id rt =
     (let p = rt_next_proxy rt
      in rt\<lparr>rt_sessions := (rt_sessions rt)(conv_id \<mapsto> p), rt_next_proxy := p + 1,
           rt_tasks := rt_tasks rt @ [\<lparr>task_kind = SessionLoop conv_id p, task_phase = TaskIdle\<rparr>]\<rparr>)"

definition send_proxy :: "nat option \<Rightarrow> ProxyMessage \<Rightarrow> EndpointRuntime \<Rightarrow> EndpointRuntime" where
  "send_proxy input msg rt = (case input of None \<Rightarrow> rt | Some p \<Rightarrow> rt\<lparr>rt_proxy_log := rt_proxy_log rt @ [(p, msg)]\<rparr>)"

fun execute_action :: "CoreAction \<Rightarrow> EndpointRuntime \<Rightarrow> EndpointRuntime outcome" where
  "execute_action (OpenSession conv_id) rt = Next (attach conv_id rt)"
| "execute_action (WriteSession conv_id bs) rt = Next (send_proxy (rt_sessions rt conv_id) (ProxyWrite bs) rt)"
| "execute_action (CloseSession conv_id reason) rt =
     Next (send_proxy (rt_sessions rt conv_id) (ProxyClose reason) (rt\<lparr>rt_sessions := (rt_sessions rt)(conv_id := None)\<rparr>))"
| "execute_action (SendTransportPacket ch bs) rt =
     (if length (rt_ray_tx rt) < RAY_QUEUE_SIZE then Next (rt\<lparr>rt_ray_tx := rt_ray_tx rt @ [(ch, bs)]\<rparr>) else Disabled)"

definition end_session_loop :: "nat \<Rightarrow> EndpointRuntime \<Rightarrow> EndpointRuntime" where
  "end_session_loop i rt =
     (case task_kind (rt_tasks rt ! i) of
        SessionLoop conv_id p \<Rightarrow> set_phase i TaskEnded (rt\<lparr>rt_sessions := (rt_sessions rt)(conv_id := None)\<rparr>)
      | _ \<Rightarrow> set_phase i TaskEnded rt)"

definition execute :: "nat \<Rightarrow> EndpointRuntime \<Rightarrow> EndpointRuntime outcome" where
  "execute i rt =
     (if i < length (rt_tasks rt) then
        case task_phase (rt_tasks rt ! i) of
          Executing (a # actions) closed \<Rightarrow>
            (case execute_action a rt of
               Next rt' \<Rightarrow> Next (set_phase i (Executing actions closed) rt')
             | Disabled \<Rightarrow> Disabled
             | Panicked \<Rightarrow> Panicked)
        | Executing [] closed \<Rightarrow> Next (if closed then end_session_loop i rt else set_phase i TaskIdle rt)
        | _ \<Rightarrow> Disabled
      else Disabled)"

definition core_event :: "crypto \<Rightarrow> nat \<Rightarrow> u64 \<Rightarrow> CoreEvent \<Rightarrow> (CoreAction list \<Rightarrow> CoreEventResult \<Rightarrow> TaskPhase run) \<Rightarrow>
    EndpointRuntime \<Rightarrow> EndpointRuntime outcome" where
  "core_event cr i now event continue rt =
     (case endpoint_handle_event cr (rt_core rt) now event [] of
        None \<Rightarrow> Panicked
      | Some (core, actions, result) \<Rightarrow>
          (case continue actions result of
             None \<Rightarrow> Panicked
           | Some phase \<Rightarrow> Next (set_phase i phase (rt\<lparr>rt_core := core\<rparr>))))"

definition handle :: "crypto \<Rightarrow> nat \<Rightarrow> u64 \<Rightarrow> CoreEvent \<Rightarrow> bool \<Rightarrow> EndpointRuntime \<Rightarrow> EndpointRuntime outcome" where
  "handle cr i now event closed = core_event cr i now event (\<lambda>actions result. Some (Executing actions closed))"

definition receive_event :: "crypto \<Rightarrow> u64 \<Rightarrow> packet \<Rightarrow> EndpointCore \<times> CoreAction list \<Rightarrow> (EndpointCore \<times> CoreAction list) run" where
  "receive_event cr now packet st = do {
     (core, actions, result) \<leftarrow> endpoint_handle_event cr (fst st) now (TransportPacketReceived (fst packet) (snd packet)) (snd st);
     Some (core, actions)
   }"

definition receive_packets :: "crypto \<Rightarrow> u64 \<Rightarrow> packet list \<Rightarrow> EndpointRuntime \<Rightarrow> EndpointRuntime outcome" where
  "receive_packets cr now batch rt =
     (if in_phase rt 0 TaskIdle \<and> batch \<noteq> [] \<and> length batch \<le> PACKET_BATCH_SIZE then
        case fold_run (receive_event cr now) batch (rt_core rt, []) of
          None \<Rightarrow> Panicked
        | Some (core, actions) \<Rightarrow> Next (set_phase 0 (Executing actions False) (rt\<lparr>rt_core := core\<rparr>))
      else Disabled)"

fun created :: "CoreAction list \<Rightarrow> CoreEventResult \<Rightarrow> TaskPhase run" where
  "created actions (SessionCreated conv_id) = Some (Attaching conv_id actions)"
| "created actions _ = panic"

definition accept_session :: "crypto \<Rightarrow> u64 \<Rightarrow> EndpointRuntime \<Rightarrow> EndpointRuntime outcome" where
  "accept_session cr now rt = (if in_phase rt 1 TaskIdle then core_event cr 1 now SessionOpen created rt else Disabled)"

definition attach_accepted :: "EndpointRuntime \<Rightarrow> EndpointRuntime outcome" where
  "attach_accepted rt =
     (if 1 < length (rt_tasks rt) then
        case task_phase (rt_tasks rt ! 1) of
          Attaching conv_id actions \<Rightarrow> Next (set_phase 1 (Executing actions False) (attach conv_id rt))
        | _ \<Rightarrow> Disabled
      else Disabled)"

definition check_deadline :: "u64 \<Rightarrow> EndpointRuntime \<Rightarrow> EndpointRuntime outcome" where
  "check_deadline now rt =
     (if in_phase rt 2 TaskIdle then
        Next (if endpoint_next_deadline (rt_core rt) now \<le> now then set_phase 2 PollDue rt else rt)
      else Disabled)"

definition run_poll :: "crypto \<Rightarrow> (window_table \<Rightarrow> window_table) \<Rightarrow> u64 \<Rightarrow> EndpointRuntime \<Rightarrow> EndpointRuntime outcome" where
  "run_poll cr hash_iter now rt =
     (if in_phase rt 2 PollDue then
        case endpoint_poll cr hash_iter (rt_core rt) now [] of
          None \<Rightarrow> Panicked
        | Some (core, actions) \<Rightarrow> Next (set_phase 2 (Executing actions False) (rt\<lparr>rt_core := core\<rparr>))
      else Disabled)"

definition take_batch :: "EndpointRuntime \<Rightarrow> EndpointRuntime outcome" where
  "take_batch rt =
     (if in_phase rt 3 TaskIdle \<and> rt_out_batch rt = [] \<and> rt_ray_tx rt \<noteq> [] then
        Next (rt\<lparr>rt_out_batch := take PACKET_BATCH_SIZE (rt_ray_tx rt), rt_ray_tx := drop PACKET_BATCH_SIZE (rt_ray_tx rt)\<rparr>)
      else Disabled)"

definition forward_packet :: "crypto \<Rightarrow> u64 \<Rightarrow> bool \<Rightarrow> EndpointRuntime \<Rightarrow> EndpointRuntime outcome" where
  "forward_packet cr now sent rt =
     (if in_phase rt 3 TaskIdle then
        case rt_out_batch rt of
          [] \<Rightarrow> Disabled
        | packet # batch \<Rightarrow>
            if sent then Next (rt\<lparr>rt_out_batch := batch\<rparr>)
            else handle cr 3 now (TransportPacketSendFailed (fst packet) (snd packet)) False (rt\<lparr>rt_out_batch := batch\<rparr>)
      else Disabled)"

definition channel_failed :: "crypto \<Rightarrow> u64 \<Rightarrow> packet \<Rightarrow> EndpointRuntime \<Rightarrow> EndpointRuntime outcome" where
  "channel_failed cr now packet rt =
     (if in_phase rt 3 TaskIdle \<and> rt_out_batch rt = [] then handle cr 3 now (TransportPacketSendFailed (fst packet) (snd packet)) False rt
      else Disabled)"

fun written :: "bytes \<Rightarrow> CoreAction list \<Rightarrow> CoreEventResult \<Rightarrow> TaskPhase run" where
  "written bs actions SessionWriteBlocked = Some (WriteBlocked bs)"
| "written bs actions EventNone = Some (Executing actions False)"
| "written bs actions (SessionCreated conv_id) = panic"

definition emit_write :: "crypto \<Rightarrow> nat \<Rightarrow> u64 \<Rightarrow> ConvId \<Rightarrow> bytes \<Rightarrow> EndpointRuntime \<Rightarrow> EndpointRuntime outcome" where
  "emit_write cr i now conv_id bs = core_event cr i now (SessionWrite conv_id bs) (written bs)"

definition session_message :: "crypto \<Rightarrow> nat \<Rightarrow> u64 \<Rightarrow> ProxyMessage option \<Rightarrow> EndpointRuntime \<Rightarrow> EndpointRuntime outcome" where
  "session_message cr i now msg rt =
     (if in_phase rt i TaskIdle then
        case task_kind (rt_tasks rt ! i) of
          SessionLoop conv_id p \<Rightarrow>
            (case msg of
               None \<Rightarrow> Next (end_session_loop i rt)
             | Some (ProxyWrite bs) \<Rightarrow> emit_write cr i now conv_id bs rt
             | Some (ProxyClose reason) \<Rightarrow> handle cr i now (SessionClose conv_id reason) True rt)
        | _ \<Rightarrow> Disabled
      else Disabled)"

definition retry_write :: "crypto \<Rightarrow> nat \<Rightarrow> u64 \<Rightarrow> EndpointRuntime \<Rightarrow> EndpointRuntime outcome" where
  "retry_write cr i now rt =
     (if i < length (rt_tasks rt) then
        case (task_kind (rt_tasks rt ! i), task_phase (rt_tasks rt ! i)) of
          (SessionLoop conv_id p, WriteBlocked bs) \<Rightarrow> emit_write cr i now conv_id bs rt
        | _ \<Rightarrow> Disabled
      else Disabled)"

datatype RuntimeMove =
    ReceiveBatch u64 "packet list"
  | AcceptSession u64
  | AttachAccepted
  | CheckDeadline u64
  | RunPoll u64 "window_table \<Rightarrow> window_table"
  | TakeBatch
  | ForwardPacket u64 bool
  | ChannelFailed u64 packet
  | FromProxy nat u64 "ProxyMessage option"
  | RetryWrite nat u64
  | Execute nat

fun runtime_do :: "crypto \<Rightarrow> RuntimeMove \<Rightarrow> EndpointRuntime \<Rightarrow> EndpointRuntime outcome" where
  "runtime_do cr (ReceiveBatch now batch) rt = receive_packets cr now batch rt"
| "runtime_do cr (AcceptSession now) rt = accept_session cr now rt"
| "runtime_do cr AttachAccepted rt = attach_accepted rt"
| "runtime_do cr (CheckDeadline now) rt = check_deadline now rt"
| "runtime_do cr (RunPoll now hash_iter) rt = run_poll cr hash_iter now rt"
| "runtime_do cr TakeBatch rt = take_batch rt"
| "runtime_do cr (ForwardPacket now sent) rt = forward_packet cr now sent rt"
| "runtime_do cr (ChannelFailed now packet) rt = channel_failed cr now packet rt"
| "runtime_do cr (FromProxy i now msg) rt = session_message cr i now msg rt"
| "runtime_do cr (RetryWrite i now) rt = retry_write cr i now rt"
| "runtime_do cr (Execute i) rt = execute i rt"

fun runtime_run :: "crypto \<Rightarrow> RuntimeMove list \<Rightarrow> EndpointRuntime \<Rightarrow> EndpointRuntime outcome" where
  "runtime_run cr [] rt = Next rt"
| "runtime_run cr (m # ms) rt = (case runtime_do cr m rt of Next rt' \<Rightarrow> runtime_run cr ms rt' | r \<Rightarrow> r)"

subsection \<open>Relay tasks\<close>

definition relay_receive :: "crypto \<Rightarrow> (window_table \<Rightarrow> window_table) \<Rightarrow> u64 \<Rightarrow> packet \<Rightarrow> RelayCore \<times> CoreAction list \<Rightarrow>
    (RelayCore \<times> CoreAction list) run" where
  "relay_receive cr hash_iter now packet st = do {
     (core, actions, result) \<leftarrow> relay_handle_event cr hash_iter (fst st) now (TransportPacketReceived (fst packet) (snd packet)) (snd st);
     Some (core, actions)
   }"

fun transport_packets :: "CoreAction list \<Rightarrow> packet list" where
  "transport_packets [] = []"
| "transport_packets (SendTransportPacket ch bs # actions) = (ch, bs) # transport_packets actions"
| "transport_packets (_ # actions) = transport_packets actions"

definition forward_in :: "crypto \<Rightarrow> (window_table \<Rightarrow> window_table) \<Rightarrow> u64 \<Rightarrow> packet list \<Rightarrow> RelayCore \<Rightarrow> (RelayCore \<times> packet list) run" where
  "forward_in cr hash_iter now batch core = do {
     (core', actions) \<leftarrow> fold_run (relay_receive cr hash_iter now) batch (core, []);
     Some (core', transport_packets actions)
   }"

definition relay_send_failed :: "crypto \<Rightarrow> (window_table \<Rightarrow> window_table) \<Rightarrow> u64 \<Rightarrow> packet \<Rightarrow> RelayCore \<Rightarrow> RelayCore run" where
  "relay_send_failed cr hash_iter now packet core = do {
     (core', actions, result) \<leftarrow> relay_handle_event cr hash_iter core now (TransportPacketSendFailed (fst packet) (snd packet)) [];
     Some core'
   }"

end
