(* ===== verification/Shell_Runtime_Correct.thy ===== *)
theory Shell_Runtime_Correct
  imports Shell_Runtime Endpoint_Theorems
begin

section \<open>Panics and progress of the shell runtime\<close>



definition out_stuck :: "EndpointRuntime \<Rightarrow> bool" where
  "out_stuck rt \<longleftrightarrow> RAY_QUEUE_SIZE \<le> length (rt_ray_tx rt) \<and> 3 < length (rt_tasks rt) \<and>
     (\<exists>ch bs actions closed. task_phase (rt_tasks rt ! 3) = Executing (SendTransportPacket ch bs # actions) closed)"

definition out_frozen :: "EndpointRuntime \<Rightarrow> EndpointRuntime \<Rightarrow> bool" where
  "out_frozen rt rt' \<longleftrightarrow> rt_ray_tx rt' = rt_ray_tx rt \<and> rt_out_batch rt' = rt_out_batch rt \<and> 3 < length (rt_tasks rt') \<and> rt_tasks rt' ! 3 = rt_tasks rt ! 3"

definition full_runtime :: EndpointRuntime where
  "full_runtime = (runtime_new demo_core)\<lparr>rt_ray_tx := replicate 65536 (7, []),
     rt_tasks := map (\<lambda>kind. \<lparr>task_kind = kind, task_phase = TaskIdle\<rparr>) [ReceivePackets, AcceptLoop, PollLoop] @
       [\<lparr>task_kind = ForwardOut, task_phase = Executing [SendTransportPacket 7 [1]] False\<rparr>]\<rparr>"

lemma set_phase_core [simp]: "rt_core (set_phase i ph rt) = rt_core rt"
  by (simp add: set_phase_def)

lemma attach_core [simp]: "rt_core (attach c rt) = rt_core rt"
  by (simp add: attach_def Let_def)

lemma send_proxy_core [simp]: "rt_core (send_proxy p msg rt) = rt_core rt"
  by (simp add: send_proxy_def split: option.splits)

lemma end_session_loop_core [simp]: "rt_core (end_session_loop i rt) = rt_core rt"
  by (simp add: end_session_loop_def split: TaskKind.splits)

lemma execute_action_core: "execute_action a rt = Next rt' \<Longrightarrow> rt_core rt' = rt_core rt"
  by (cases a) (auto split: if_splits)

lemma execute_core: "execute i rt = Next rt' \<Longrightarrow> rt_core rt' = rt_core rt"
  by (auto simp: execute_def execute_action_core split: if_splits TaskPhase.splits list.splits outcome.splits)


locale core_invariant =
  fixes cr :: crypto and I :: "EndpointCore \<Rightarrow> bool"
  assumes event_keeps: "I core \<Longrightarrow> endpoint_handle_event cr core t ev actions = Some (core', actions', r) \<Longrightarrow> I core'"
    and poll_keeps: "I core \<Longrightarrow> endpoint_poll cr hash_iter core t actions = Some (core', actions') \<Longrightarrow> I core'"
begin

lemma core_event_keeps:
  assumes "I (rt_core rt)" "core_event cr i now ev k rt = Next rt'"
  shows "I (rt_core rt')"
proof -
  from assms(2) obtain core actions r where "endpoint_handle_event cr (rt_core rt) now ev [] = Some (core, actions, r)" "rt_core rt' = core"
    by (auto simp: core_event_def split: option.splits)
  then show ?thesis using event_keeps [OF assms(1)] by blast
qed

lemma batch_keeps:
  assumes "fold_run (receive_event cr now) batch st = Some st'" "I (fst st)"
  shows "I (fst st')"
proof (rule fold_run_inv [where I = "\<lambda>st. I (fst st)", OF assms])
  fix x s s' assume a: "receive_event cr now x s = Some s'" "I (fst s)"
  then obtain r where "endpoint_handle_event cr (fst s) now (TransportPacketReceived (fst x) (snd x)) (snd s) = Some (fst s', snd s', r)"
    by (auto simp: receive_event_def bind_eq_Some_conv)
  then show "I (fst s')" using event_keeps [OF a(2)] by blast
qed

lemma move_keeps:
  assumes good: "I (rt_core rt)" and run: "runtime_do cr m rt = Next rt'"
  shows "I (rt_core rt')"
  using run
proof (cases m)
  case (ReceiveBatch now batch)
  with run obtain core actions where "fold_run (receive_event cr now) batch (rt_core rt, []) = Some (core, actions)" "rt_core rt' = core"
    by (auto simp: receive_packets_def split: if_splits option.splits)
  then show ?thesis using batch_keeps good by fastforce
next
  case (RunPoll now h)
  with run obtain core actions where "endpoint_poll cr h (rt_core rt) now [] = Some (core, actions)" "rt_core rt' = core"
    by (auto simp: run_poll_def split: if_splits option.splits)
  then show ?thesis using poll_keeps [OF good] by blast
next
  case (Execute i)
  then show ?thesis using run execute_core good by simp
next
  case (ForwardPacket now sent)
  then show ?thesis using run good core_event_keeps [of "rt\<lparr>rt_out_batch := _\<rparr>"]
    by (auto simp: forward_packet_def handle_def split: if_splits list.splits)
qed (use good core_event_keeps [OF good] in \<open>auto simp: accept_session_def attach_accepted_def check_deadline_def take_batch_def channel_failed_def
    handle_def session_message_def emit_write_def retry_write_def split: if_splits TaskPhase.splits TaskKind.splits option.splits ProxyMessage.splits prod.splits\<close>)

lemma run_keeps: "I (rt_core rt) \<Longrightarrow> runtime_run cr ms rt = Next rt' \<Longrightarrow> I (rt_core rt')"
  by (induction ms arbitrary: rt) (auto dest: move_keeps split: outcome.splits)

end


interpretation rp: core_invariant cr "\<lambda>core. \<exists>es. ep_path core0 es core" for cr core0
proof
  show "\<exists>es. ep_path core0 es core \<Longrightarrow> endpoint_handle_event cr core t ev actions = Some (core', actions', r) \<Longrightarrow> \<exists>es. ep_path core0 es core'"
    for core t ev actions core' actions' r using endpoint_handle_event_path ep_path_trans by blast
  show "\<exists>es. ep_path core0 es core \<Longrightarrow> endpoint_poll cr h core t actions = Some (core', actions') \<Longrightarrow> \<exists>es. ep_path core0 es core'"
    for core h t actions core' actions'
  proof -
    assume "\<exists>es. ep_path core0 es core" and p: "endpoint_poll cr h core t actions = Some (core', actions')"
    moreover from acts_then_path [OF endpoint_poll_acts [OF p]] obtain new where "ep_path core (map Did new) core'"
      by (auto simp: ep_path_def ep_static_def session_map_def ep_window_def)
    ultimately show ?thesis using ep_path_trans by blast
  qed
qed

lemma forward_in_returns:
  assumes "relay_reach cr config core" "\<forall>m. mset (hash_iter m) = mset m"
  shows "\<exists>core' packets. forward_in cr hash_iter now batch core = Some (core', packets) \<and> relay_reach cr config core'"
proof -
  have "\<exists>st'. fold_run (relay_receive cr hash_iter now) batch (core, []) = Some st' \<and> relay_reach cr config (fst st')"
  proof (rule fold_run_total [where I = "\<lambda>st. relay_reach cr config (fst st)"])
    fix x and st :: "RelayCore \<times> CoreAction list" assume reach: "relay_reach cr config (fst st)"
    from relay_event_returns [OF relay_reach_ok [OF reach], of "TransportPacketReceived (fst x) (snd x)" cr hash_iter now "snd st"]
    obtain core' actions' r where e: "relay_handle_event cr hash_iter (fst st) now (TransportPacketReceived (fst x) (snd x)) (snd st) = Some (core', actions', r)"
      by auto
    with relay_event [OF reach assms(2) e] show "\<exists>st'. relay_receive cr hash_iter now x st = Some st' \<and> relay_reach cr config (fst st')"
      by (simp add: relay_receive_def)
  qed (simp add: assms(1))
  then show ?thesis by (auto simp: forward_in_def)
qed

lemma channel_senders_sorted:
  assumes "channel_senders senders = Some by_id"
  shows "distinct (map fst senders)" "set (channel_ids by_id) = fst ` set senders" "bt_ordered by_id"
proof -
  have step: "fold_run add_sender senders m = Some by_id \<Longrightarrow> bt_ordered m \<Longrightarrow>
    distinct (map fst senders) \<and> fst ` set senders \<inter> fst ` set m = {} \<and> fst ` set by_id = fst ` set m \<union> fst ` set senders \<and> bt_ordered by_id" for m
  proof (induction senders arbitrary: m)
    case (Cons x senders)
    then have n: "fst x \<notin> fst ` set m" and r: "fold_run add_sender senders (bt_insert (fst x) (snd x) m) = Some by_id"
      by (auto simp: add_sender_def [of x m] map_of_eq_None_iff bind_eq_Some_conv split: if_splits)
    have keys: "fst ` set (bt_insert (fst x) (snd x) m) = insert (fst x) (fst ` set m)"
      using bt.keys_insert [of "fst x" "snd x" m] by (simp add: bt_keys_def)
    show ?case using Cons.IH [OF r] bt_ordered_insert [OF Cons.prems(2)] n keys by auto
  qed simp
  show "distinct (map fst senders)" "set (channel_ids by_id) = fst ` set senders" "bt_ordered by_id"
    using step [of "[]"] assms by (simp_all add: channel_senders_def channel_ids_def bt_ordered_def [of "[]"] bt_keys_def)
qed








lemma close_keeps_loop:
  assumes "runtime_do cr (Execute j) rt = Next rt'" "in_phase rt j (Executing (CloseSession c r # actions) closed)" "j \<noteq> i"
    and "in_phase rt i TaskIdle" "task_kind (rt_tasks rt ! i) = SessionLoop c p"
  shows "in_phase rt' i TaskIdle" "task_kind (rt_tasks rt' ! i) = SessionLoop c p" "rt_core rt' = rt_core rt" "rt_sessions rt' c = None"
proof -
  have "rt' = set_phase j (Executing actions closed) (send_proxy (rt_sessions rt c) (ProxyClose r) (rt\<lparr>rt_sessions := (rt_sessions rt)(c := None)\<rparr>))"
    using assms(1,2) by (simp add: execute_def in_phase_def)
  then show "in_phase rt' i TaskIdle" "task_kind (rt_tasks rt' ! i) = SessionLoop c p" "rt_core rt' = rt_core rt" "rt_sessions rt' c = None"
    using assms(3-5) by (simp_all add: in_phase_def set_phase_def send_proxy_def split: option.splits)
qed

subsection \<open>Deadlock\<close>

lemma frozen_set_phase: "i \<noteq> 3 \<Longrightarrow> out_frozen rt rt' \<Longrightarrow> out_frozen rt (set_phase i ph rt')"
  by (simp add: out_frozen_def set_phase_def)

lemma frozen_attach: "out_frozen rt rt' \<Longrightarrow> out_frozen rt (attach c rt')"
  by (simp add: out_frozen_def attach_def Let_def nth_append)

lemma frozen_send_proxy: "out_frozen rt rt' \<Longrightarrow> out_frozen rt (send_proxy p msg rt')"
  by (simp add: out_frozen_def send_proxy_def split: option.splits)

lemma frozen_fields: "out_frozen rt (rt'\<lparr>rt_core := c\<rparr>) = out_frozen rt rt'" "out_frozen rt (rt'\<lparr>rt_sessions := S\<rparr>) = out_frozen rt rt'"
  by (simp_all add: out_frozen_def)

lemma frozen_end: "i \<noteq> 3 \<Longrightarrow> out_frozen rt rt' \<Longrightarrow> out_frozen rt (end_session_loop i rt')"
  by (simp add: end_session_loop_def frozen_set_phase frozen_fields split: TaskKind.splits)

lemma frozen_core_event: "i \<noteq> 3 \<Longrightarrow> out_frozen rt rt' \<Longrightarrow> core_event cr i now ev k rt' = Next rt'' \<Longrightarrow> out_frozen rt rt''"
  by (auto simp: core_event_def frozen_set_phase frozen_fields split: option.splits)

lemmas frozen = frozen_set_phase frozen_attach frozen_send_proxy frozen_fields frozen_end

lemma frozen_action: "RAY_QUEUE_SIZE \<le> length (rt_ray_tx rt) \<Longrightarrow> execute_action a rt = Next rt' \<Longrightarrow> 3 < length (rt_tasks rt) \<Longrightarrow> out_frozen rt rt'"
  by (cases a) (auto simp: frozen out_frozen_def [of rt rt] split: if_splits)

lemma stuck_step:
  assumes stuck: "out_stuck rt" and run: "runtime_do cr m rt = Next rt'"
  shows "out_frozen rt rt'"
proof -
  have refl: "out_frozen rt rt" and full: "RAY_QUEUE_SIZE \<le> length (rt_ray_tx rt)" and three: "3 < length (rt_tasks rt)"
    using stuck by (simp_all add: out_stuck_def out_frozen_def)
  have busy: "\<not> in_phase rt 3 TaskIdle" "task_phase (rt_tasks rt ! 3) \<noteq> WriteBlocked bs" for bs using stuck by (auto simp: out_stuck_def in_phase_def)
  show ?thesis using run
  proof (cases m)
    case (AcceptSession now)
    then show ?thesis using run frozen_core_event [of 1, OF _ refl] by (auto simp: accept_session_def split: if_splits)
  next
    case (Execute i)
    have i: "i \<noteq> 3" using stuck run Execute by (auto simp: out_stuck_def execute_def)
    show ?thesis using run Execute frozen_action [OF full _ three] refl frozen i
      by (auto simp: execute_def split: if_splits TaskPhase.splits list.splits outcome.splits)
  next
    case (FromProxy i now msg)
    then have i: "i \<noteq> 3" using run busy(1) by (auto simp: session_message_def split: if_splits)
    show ?thesis using run FromProxy frozen_core_event [OF i refl] frozen_end [OF i refl]
      by (auto simp: session_message_def emit_write_def handle_def split: if_splits TaskKind.splits option.splits ProxyMessage.splits)
  next
    case (RetryWrite i now)
    then have i: "i \<noteq> 3" using run busy(2) by (auto simp: retry_write_def split: if_splits TaskKind.splits TaskPhase.splits)
    show ?thesis using run RetryWrite frozen_core_event [OF i refl]
      by (auto simp: retry_write_def emit_write_def split: if_splits TaskKind.splits TaskPhase.splits)
  qed (use busy refl frozen_core_event [OF _ refl] frozen in \<open>auto simp: receive_packets_def accept_session_def attach_accepted_def check_deadline_def run_poll_def
      take_batch_def forward_packet_def channel_failed_def split: if_splits option.splits TaskPhase.splits\<close>)
qed

lemma frozen_stuck: "out_frozen rt rt' \<Longrightarrow> out_stuck rt \<Longrightarrow> out_stuck rt'"
  by (auto simp: out_frozen_def out_stuck_def)

lemma stuck_run: "runtime_run cr ms rt = Next rt' \<Longrightarrow> out_stuck rt \<Longrightarrow> out_frozen rt rt'"
proof (induction ms arbitrary: rt)
  case Nil
  then show ?case by (auto simp: out_frozen_def out_stuck_def)
next
  case (Cons m ms)
  then obtain rt1 where r: "runtime_do cr m rt = Next rt1" "runtime_run cr ms rt1 = Next rt'" by (auto split: outcome.splits)
  note f = stuck_step [OF Cons.prems(2) r(1)]
  have "out_frozen rt1 rt'" by (rule Cons.IH [OF r(2) frozen_stuck [OF f Cons.prems(2)]])
  with f show ?case by (simp add: out_frozen_def)
qed




lemma closed_session_message_panics:
  assumes "runtime_do cr (Execute j) rt = Next rt'" "in_phase rt j (Executing (CloseSession c r # actions) closed)" "j \<noteq> i"
    and "in_phase rt i TaskIdle" "task_kind (rt_tasks rt ! i) = SessionLoop c p" "session_map (rt_core rt) c = None"
  shows "rt_sessions rt' c = None \<and> runtime_do cr (FromProxy i now (Some msg)) rt' = Panicked"
proof -
  note k = close_keeps_loop [OF assms(1-5)]
  have "map_of (ep_sessions (rt_core rt')) c = None" using assms(6) k(3) by (simp add: session_map_def)
  then show ?thesis using k
    by (cases msg) (simp_all add: session_message_def emit_write_def core_event_def session_write_def handle_def session_close_def)
qed

text \<open>C26.  Deadlock: when the queue of outgoing packets is full and the forwarding task, which alone empties it, has to queue
  the retransmission of a failed packet, then whatever the other tasks do the queue and that task never change
  again.\<close>

theorem forward_out_deadlock:
  assumes "RAY_QUEUE_SIZE \<le> length (rt_ray_tx rt)" "in_phase rt 3 (Executing (SendTransportPacket ch bs # actions) closed)"
    and "runtime_run cr moves rt = Next rt'"
  shows "rt_ray_tx rt' = rt_ray_tx rt \<and> rt_out_batch rt' = rt_out_batch rt \<and> in_phase rt' 3 (Executing (SendTransportPacket ch bs # actions) closed) \<and>
    runtime_do cr (Execute 3) rt' = Disabled"
proof -
  have "out_stuck rt" using assms(1,2) by (auto simp: out_stuck_def in_phase_def)
  from stuck_run [OF assms(3) this] show ?thesis using assms(1,2) by (simp add: out_frozen_def in_phase_def execute_def)
qed

theorem forward_out_deadlock_witness:
  "\<exists>rt'. runtime_run demo_crypto [CheckDeadline 0] full_runtime = Next rt' \<and> rt_ray_tx rt' = rt_ray_tx full_runtime \<and>
     runtime_do demo_crypto (Execute 3) rt' = Disabled"
proof -
  obtain rt' where r: "runtime_run demo_crypto [CheckDeadline 0] full_runtime = Next rt'"
    by (simp add: check_deadline_def in_phase_def full_runtime_def)
  have f: "RAY_QUEUE_SIZE \<le> length (rt_ray_tx full_runtime)" "in_phase full_runtime 3 (Executing [SendTransportPacket 7 [1]] False)"
    by (simp_all add: full_runtime_def RAY_QUEUE_SIZE_def in_phase_def)
  show ?thesis using r forward_out_deadlock [OF f r] by blast
qed

end
