(* ===== verification/Spec2Isabelle.thy ===== *)
theory Spec2Isabelle
  imports Test_Shell_Theorems Shell_Config_Correct Socks5_Correct Reverse_Udp Shell_Runtime_Correct
begin

text \<open>
  \<^bold>\<open>Raynet: a verification development.\<close>

  \<^bold>\<open>The program.\<close>  Raynet carries proxy sessions between two endpoints over several unreliable paths through relays.
  The crate \<^verbatim>\<open>raynet-core\<close> is free of I/O: a core takes an event with a clock reading, changes its state and appends
  actions (send this packet on this channel, open, write or close this session) that a shell carries out.  A packet is an
  authenticated envelope (stamp, hops still to go, payload, padding); a relay opens it, refuses stale and repeated
  stamps, takes the next hop from the plan and seals it again; an endpoint plans the route of each packet over a
  graph of channels, learns loss and delay from replies, and runs one reliable stream (KCP) per session inside the
  sealed payloads.  The crate \<^verbatim>\<open>raynet-shell\<close> runs a core among asynchronous tasks, \<^verbatim>\<open>raynet-shell-plugins\<close> holds the
  UDP channels and the SOCKS5 proxy, and \<^verbatim>\<open>raynet-test-shell\<close> is a deterministic simulated network for whole systems.

  \<^bold>\<open>Conventions.\<close>  Fixed-width integers are words, lengths and indexes naturals, and arithmetic wraps as in
  the release profile; \<open>'a run\<close> is \<open>None\<close> for a panic, which aborts the process; \<^verbatim>\<open>Result\<close> is a sum type.  Maps are association
  lists in key order (\<^verbatim>\<open>BTreeMap\<close>, theory \<open>Ordered_Map\<close>) or with the iteration order as a parameter (\<^verbatim>\<open>HashMap\<close>,
  parameter \<open>hash_iter\<close>).  The crates \<^verbatim>\<open>aegis\<close> and \<^verbatim>\<open>blake3\<close> are the fields of the record \<open>crypto\<close>; what the proofs use of them
  is \<open>aead_correct\<close> (opening what was sealed returns it, and the lengths are as documented), and the witnesses
  instantiate it.  Random numbers, clock readings and results of I/O are arguments.

  \<^bold>\<open>Theories and sources\<close> (below \<^verbatim>\<open>src/crates\<close>):

  \<^item> \<open>Ray_Prelude\<close>: panicking list access, folds of fallible steps, little-endian codecs, and the locales
    \<open>wire_codec\<close> (decoding inverts encoding) and \<open>once_only\<close> (no key is emitted twice).
  \<^item> \<open>Core_Types\<close>: \<^verbatim>\<open>limits.rs\<close> and the identifiers.  \<open>Wire\<close>: \<^verbatim>\<open>wire.rs\<close>, the envelope, endpoint and session messages.
    \<open>Packet\<close>: \<^verbatim>\<open>random.rs\<close>, \<^verbatim>\<open>packet.rs\<close>.  \<open>Machine\<close>: \<^verbatim>\<open>machine.rs\<close>, events, actions, counters and the packet intake of both cores.
  \<^item> \<open>Sequence\<close>: \<^verbatim>\<open>sequence.rs\<close>, the replay filter: circular bitmaps per sequence, freshness, expiry.
  \<^item> \<open>Relay\<close>: \<^verbatim>\<open>relay.rs\<close>.
  \<^item> \<open>Routing\<close>, \<open>Routing_Correct\<close>: \<^verbatim>\<open>routing.rs\<close>, the planner (sampling, earliest arrival through a forced edge, feedback,
    cooldown), loop by loop.
  \<^item> \<open>Kcp\<close> (\<^verbatim>\<open>kcp/*.rs\<close>, every method), \<open>Kcp_Segments\<close>, \<open>Kcp_Receive\<close>, \<open>Kcp_Send\<close> (the two halves), \<open>Kcp_Net\<close> (two peers over a
    network that loses, repeats and reorders).
  \<^item> \<open>Ordered_Map\<close>, \<open>Endpoint\<close> (\<^verbatim>\<open>endpoint.rs\<close>, every operation), \<open>Endpoint_Sessions\<close> (the abstract session machine and how each
    operation moves it), \<open>Endpoint_Correct\<close> (the protocol with the shell, replays), \<open>Endpoint_Safe\<close> (soundness of a
    configuration, and that operations return), \<open>Endpoint_Theorems\<close>.
  \<^item> \<open>Test_Shell\<close>, \<open>Test_Shell_Correct\<close>, \<open>Test_Shell_Theorems\<close>: \<^verbatim>\<open>raynet-test-shell/src/lib.rs\<close>, links, blocked writes,
    the scheduler of the simulated clock; whole networks of relays and endpoints.
  \<^item> \<open>Shell_Config\<close>, \<open>Shell_Config_Correct\<close>: \<^verbatim>\<open>raynet-shell/src/config.rs\<close> (\<open>build_route\<close>, defaults) and the
    configurations \<^verbatim>\<open>endpoint.rs\<close> and \<^verbatim>\<open>relay.rs\<close> build.
  \<^item> \<open>Shell_Runtime\<close>, \<open>Shell_Runtime_Correct\<close>: \<^verbatim>\<open>remote.rs\<close>, \<^verbatim>\<open>channels.rs\<close>, the tasks around the cores as
    interleaved moves.
  \<^item> \<open>Socks5\<close>, \<open>Socks5_Correct\<close>: \<^verbatim>\<open>proxy_socks5.rs\<close>.  \<open>Reverse_Udp\<close>: \<^verbatim>\<open>channel_udp.rs\<close>.

  \<^bold>\<open>What is shown.\<close>

  \<^item> Formats: encodings round-trip, envelope decoding accepts exactly the encodings, opening a packet is total and each error has
    its cause.
  \<^item> Replay: the bitmap window implements the abstract set of accepted numbers; the filter never accepts a stamp
    twice; hence relays never forward one twice and endpoints ignore replays.
  \<^item> Relay: forwarding is the next hop of the plan within the MTU, every packet is counted once, and the
    core panics exactly on session events.
  \<^item> Planner: paths are of earliest arrival, planning returns and fails only when every local edge cools down, ranges hold.
  \<^item> KCP: over the adversarial network each peer receives a prefix of what the other sent, nothing is lost once everything is
    acknowledged, packets fit the MTU and no input bytes panic.
  \<^item> Endpoint: its runs are paths of the abstract session machine (the refinement), it keeps the protocol with the
    shell, a message it sends opens at the peer, and with a sound configuration timers and requests return.
  \<^item> Composition: in simulated networks carrying out actions ends, cores stay in reachable states and packets
    are conserved; \<open>build_route\<close> yields graphs the planner is correct for, and an endpoint started from a file runs; in every
    interleaving of its tasks the runtime aborts only for the listed causes.  Two theorems show defects: the queue of
    outgoing packets can deadlock, and acknowledgements past the wrap of sequence numbers are ignored.
  \<^item> Plugins: SOCKS5 requests reach the exit unchanged, the transfer copies both directions in order; a reverse UDP channel
    sends only to authenticated live peers.

  \<^bold>\<open>Interfaces.\<close>  \<open>wire_codec\<close> is interpreted on the message, segment and port codecs; \<open>once_only\<close> on the
  window, the filter and the relay; \<open>ordered_map\<close> on the association lists of the endpoint; \<open>shell_invariant\<close> (what a
  predicate needs to hold through every step of a simulated network) on the reachability of the cores, the
  conservation of packets and the soundness of the nodes; \<open>core_invariant\<close> (what a predicate on a core needs to hold through
  every interleaving of the runtime) on the soundness of the core and on the session machine.

  \<^bold>\<open>Loops and bounds.\<close>  Loops over lists are folds.  The other loops are \<open>function\<close>s with their measures: clearing the bitmap
  and decoding a plan by the distance left, \<open>input_loop\<close> by the bytes left, \<open>recv_messages\<close> by the queue, the sort
  of \<open>build_route\<close> by the queue plus the nodes with edges left to release.  Two loops of the source need not end on every
  state and are \<open>partial_function\<close>s, where \<open>None\<close> is a panic or not returning: following the predecessors of a path
  (\<open>backtrack\<close>; \<open>Routing_Correct\<close> shows that it returns in every reachable planner) and the mutual recursion
  of the simulated network (\<open>handle_actions\<close>; \<open>Test_Shell_Theorems\<close> shows that it ends in a network with sane route graphs).
  No fuel is used; \<open>run_until_idle\<close> takes the step limit the source gives it.
  Theorems about clocks assume readings that do not wrap within the schedule
  (half a cycle of the 26-bit clock for the filter); a sound configuration has at most 65 nodes in its route graph, so that
  a plan fits its length field; \<open>build_route\<close> is characterised for lists whose names fit 32-bit indexes.

  \<^bold>\<open>Not modelled.\<close>  Parsing of the command line and the configuration file (\<^verbatim>\<open>clap\<close>, \<^verbatim>\<open>serde\<close>, \<^verbatim>\<open>toml\<close>), key derivation in
  \<^verbatim>\<open>main.rs\<close>, DNS and sockets: calls into libraries whose results are arguments of the model.  The clock
  (\<^verbatim>\<open>utils.rs\<close>).  Of the runtime, the wake-ups of the two \<^verbatim>\<open>Notify\<close> objects, which only restrict when a move
  happens, and the capacities of the queues to proxy sessions.  The unit and integration tests.
\<close>

end
